(* ===== verification/CString.thy ===== *)
theory CString
  imports Prelude
begin

text \<open>
  \<^verbatim>\<open>kernel/string.c\<close>, and the string functions of \<^verbatim>\<open>user/ulib.c\<close>.

  Functions that write through a pointer which may alias their source
  (\<^verbatim>\<open>memset\<close>, \<^verbatim>\<open>memmove\<close>) work on the byte-addressed memory; pointers are
  64-bit words and pointer arithmetic wraps. Functions that only read, or that copy between
  objects that do not overlap, work on the bytes of the object from the pointer on, as a
  list; reading or writing past its end is \<open>OutOfBounds\<close>.
\<close>

section \<open>Memory functions\<close>

text \<open>\<^verbatim>\<open>for(i = 0; i < n; i++) cdst[i] = c;\<close>\<close>

function memset_loop :: "addr \<Rightarrow> byte \<Rightarrow> nat \<Rightarrow> nat \<Rightarrow> memory \<Rightarrow> memory" where
  "memset_loop dst c i n m =
     (if i < n then memset_loop dst c (Suc i) n (m(dst + of_nat i := c)) else m)"
  by pat_completeness auto
termination
  by (relation "measure (\<lambda>(dst, c, i, n, m). n - i)") auto

declare memset_loop.simps [simp del]

definition memset :: "addr \<Rightarrow> int \<Rightarrow> u32 \<Rightarrow> memory \<Rightarrow> memory" where
  "memset dst c n m = memset_loop dst (word_of_int c) 0 (unat n) m"

text \<open>The two copying loops of \<^verbatim>\<open>memmove\<close>: upwards, and downwards from the ends.\<close>

fun copy_up :: "addr \<Rightarrow> addr \<Rightarrow> nat \<Rightarrow> memory \<Rightarrow> memory" where
  "copy_up d s 0 m = m"
| "copy_up d s (Suc n) m = copy_up (d + 1) (s + 1) n (m(d := m s))"

fun copy_down :: "addr \<Rightarrow> addr \<Rightarrow> nat \<Rightarrow> memory \<Rightarrow> memory" where
  "copy_down d s 0 m = m"
| "copy_down d s (Suc n) m = copy_down (d - 1) (s - 1) n (m(d - 1 := m (s - 1)))"

definition memmove :: "addr \<Rightarrow> addr \<Rightarrow> u32 \<Rightarrow> memory \<Rightarrow> memory" where
  "memmove dst src n m =
     (if n = 0 then m
      else if src < dst \<and> src + ucast n > dst
           then copy_down (dst + ucast n) (src + ucast n) (unat n) m
      else copy_up dst src (unat n) m)"

definition memcpy :: "addr \<Rightarrow> addr \<Rightarrow> u32 \<Rightarrow> memory \<Rightarrow> memory" where
  "memcpy dst src n m = memmove dst src n m"

text \<open>
  \<^verbatim>\<open>memmove\<close> of \<^verbatim>\<open>user/ulib.c\<close>: another test for the direction and a signed
  length, whose loops do nothing when it is not positive.
\<close>

definition ulib_memmove :: "addr \<Rightarrow> addr \<Rightarrow> int \<Rightarrow> memory \<Rightarrow> memory" where
  "ulib_memmove dst src n m =
     (if src > dst then copy_up dst src (nat n) m
      else copy_down (dst + of_int n) (src + of_int n) (nat n) m)"

fun memcmp :: "byte list \<Rightarrow> byte list \<Rightarrow> nat \<Rightarrow> int res" where
  "memcmp s1 s2 0 = Inr 0"
| "memcmp (a # s1) (b # s2) (Suc n) =
     (if a \<noteq> b then Inr (uint a - uint b) else memcmp s1 s2 n)"
| "memcmp [] s2 (Suc n) = Inl OutOfBounds"
| "memcmp s1 [] (Suc n) = Inl OutOfBounds"

section \<open>String functions\<close>

fun strncmp :: "byte list \<Rightarrow> byte list \<Rightarrow> nat \<Rightarrow> int res" where
  "strncmp p q 0 = Inr 0"
| "strncmp (a # p) (b # q) (Suc n) =
     (if a \<noteq> 0 \<and> a = b then strncmp p q n else Inr (uint a - uint b))"
| "strncmp [] q (Suc n) = Inl OutOfBounds"
| "strncmp p [] (Suc n) = Inl OutOfBounds"

text \<open>
  \<^verbatim>\<open>strncpy\<close>: the copying loop, at index \<open>i\<close> of \<open>s\<close>, and the padding loop. \<open>n\<close> is
  the number of bytes that may still be written.
\<close>

fun strncpy_pad :: "byte list \<Rightarrow> nat \<Rightarrow> nat \<Rightarrow> byte list res" where
  "strncpy_pad s i 0 = Inr s"
| "strncpy_pad s i (Suc n) = rbind (aset s i 0) (\<lambda>s. strncpy_pad s (Suc i) n)"

fun strncpy_copy :: "byte list \<Rightarrow> nat \<Rightarrow> byte list \<Rightarrow> nat \<Rightarrow> byte list res" where
  "strncpy_copy s i t 0 = Inr s"
| "strncpy_copy s i [] (Suc n) = Inl OutOfBounds"
| "strncpy_copy s i (c # t) (Suc n) =
     rbind (aset s i c)
       (\<lambda>s. if c \<noteq> 0 then strncpy_copy s (Suc i) t n else strncpy_pad s (Suc i) n)"

definition strncpy :: "byte list \<Rightarrow> byte list \<Rightarrow> int \<Rightarrow> byte list res" where
  "strncpy s t n = strncpy_copy s 0 t (nat n)"

text \<open>\<^verbatim>\<open>while(--n > 0 && (*s++ = *t++) != 0);  *s = 0;\<close> with \<open>k\<close> the value of \<open>--n\<close>.\<close>

fun safestrcpy_loop :: "byte list \<Rightarrow> nat \<Rightarrow> byte list \<Rightarrow> nat \<Rightarrow> byte list res" where
  "safestrcpy_loop s i t 0 = aset s i 0"
| "safestrcpy_loop s i [] (Suc k) = Inl OutOfBounds"
| "safestrcpy_loop s i (c # t) (Suc k) =
     rbind (aset s i c)
       (\<lambda>s. if c \<noteq> 0 then safestrcpy_loop s (Suc i) t k else aset s (Suc i) 0)"

definition safestrcpy :: "byte list \<Rightarrow> byte list \<Rightarrow> int \<Rightarrow> byte list res" where
  "safestrcpy s t n = (if n \<le> 0 then Inr s else safestrcpy_loop s 0 t (nat (n - 1)))"

fun strlen :: "byte list \<Rightarrow> nat res" where
  "strlen [] = Inl OutOfBounds"
| "strlen (c # s) = (if c \<noteq> 0 then rbind (strlen s) (\<lambda>n. Inr (Suc n)) else Inr 0)"

text \<open>The functions \<^verbatim>\<open>user/ulib.c\<close> has beside those of the kernel.\<close>

fun strcmp :: "byte list \<Rightarrow> byte list \<Rightarrow> int res" where
  "strcmp (a # p) (b # q) =
     (if a \<noteq> 0 \<and> a = b then strcmp p q else Inr (uint a - uint b))"
| "strcmp [] q = Inl OutOfBounds"
| "strcmp p [] = Inl OutOfBounds"

fun strcpy_from :: "byte list \<Rightarrow> nat \<Rightarrow> byte list \<Rightarrow> byte list res" where
  "strcpy_from s i [] = Inl OutOfBounds"
| "strcpy_from s i (c # t) =
     rbind (aset s i c) (\<lambda>s. if c \<noteq> 0 then strcpy_from s (Suc i) t else Inr s)"

definition strcpy :: "byte list \<Rightarrow> byte list \<Rightarrow> byte list res" where
  "strcpy s t = strcpy_from s 0 t"

text \<open>\<^verbatim>\<open>strchr\<close> returns a pointer into \<open>s\<close> or null: the index, or \<open>None\<close>.\<close>

fun strchr :: "byte list \<Rightarrow> byte \<Rightarrow> nat option res" where
  "strchr [] c = Inl OutOfBounds"
| "strchr (a # s) c =
     (if a = 0 then Inr None
      else if a = c then Inr (Some 0)
      else rbind (strchr s c) (\<lambda>r. Inr (map_option Suc r)))"

text \<open>\<^verbatim>\<open>atoi\<close>: signed 32-bit arithmetic, which the model keeps modulo \<open>2\<^sup>3\<^sup>2\<close>.\<close>

fun atoi_loop :: "u32 \<Rightarrow> byte list \<Rightarrow> u32 res" where
  "atoi_loop n [] = Inl OutOfBounds"
| "atoi_loop n (c # s) =
     (if 48 \<le> c \<and> c \<le> 57 then atoi_loop (n * 10 + ucast c - 48) s else Inr n)"

definition atoi :: "byte list \<Rightarrow> int res" where
  "atoi s = rbind (atoi_loop 0 s) (\<lambda>n. Inr (sint n))"

lemma memset_loop_eq:
  "i \<le> n \<Longrightarrow> n \<le> 2 ^ 64 \<Longrightarrow>
   memset_loop dst c i n m = (\<lambda>x. if i \<le> unat (x - dst) \<and> unat (x - dst) < n then c else m x)"
proof (induction dst c i n m rule: memset_loop.induct)
  case (1 dst c i n m)
  show ?case
  proof (cases "i < n")
    case True
    have *: "x = dst + of_nat i \<longleftrightarrow> unat (x - dst) = i" for x :: addr
      using True "1.prems" by (intro word_eq_add_of_nat_iff) simp
    show ?thesis using True "1.prems"
      by (subst memset_loop.simps) (auto simp: "1.IH" fun_eq_iff *)
  next
    case False
    then show ?thesis by (subst memset_loop.simps) (auto simp: fun_eq_iff)
  qed
qed

lemma memset_eq [mem_simps]:
  "memset dst c n m = (\<lambda>x. if unat (x - dst) < unat n then word_of_int c else m x)"
proof -
  have "unat n < 2 ^ 64" using unsigned_less [of n, where ?'a = nat] by simp
  then show ?thesis by (simp add: memset_def memset_loop_eq)
qed

lemma copy_up_eq:
  "d = s \<or> n \<le> unat (d - s) \<Longrightarrow> n < 2 ^ 64 \<Longrightarrow>
   copy_up d s n m = (\<lambda>x. if unat (x - d) < n then m (s + (x - d)) else m x)"
proof (induction d s n m rule: copy_up.induct)
  case (1 d s m)
  then show ?case by simp
next
  case (2 d s n m)
  have IH: "copy_up (d + 1) (s + 1) n (m(d := m s)) =
      (\<lambda>x. if unat (x - (d + 1)) < n then (m(d := m s)) (s + 1 + (x - (d + 1))) else (m(d := m s)) x)"
    using "2.prems" by (intro "2.IH") auto
  show ?case
  proof
    fix x
    show "copy_up d s (Suc n) m x = (if unat (x - d) < Suc n then m (s + (x - d)) else m x)"
    proof (cases "x = d")
      case True
      have "unat (- 1 :: addr) \<ge> n" using "2.prems" by (simp add: unat_minus_one_eq)
      then show ?thesis using True by (simp add: IH)
    next
      case False
      then have "0 < unat (x - d)" by (metis right_minus_eq unat_gt_0)
      moreover have "s + (x - d) = d \<Longrightarrow> unat (x - d) = unat (d - s)"
        by (metis add_diff_cancel_left')
      moreover have "s + 1 + (x - (d + 1)) = s + (x - d)" by simp
      ultimately show ?thesis using False "2.prems"
        by (auto simp: IH unat_sub_suc)
    qed
  qed
qed

lemma copy_down_eq:
  "d = s \<or> n \<le> unat (s - d) \<Longrightarrow> n < 2 ^ 64 \<Longrightarrow>
   copy_down (d + of_nat n) (s + of_nat n) n m = (\<lambda>x. if unat (x - d) < n then m (s + (x - d)) else m x)"
proof (induction n arbitrary: m)
  case 0
  then show ?case by simp
next
  case (Suc n)
  let ?m = "m(d + of_nat n := m (s + of_nat n))"
  have IH: "copy_down (d + of_nat n) (s + of_nat n) n ?m =
      (\<lambda>x. if unat (x - d) < n then ?m (s + (x - d)) else ?m x)"
    using Suc.prems by (intro Suc.IH) auto
  have *: "x = d + of_nat n \<longleftrightarrow> unat (x - d) = n" for x :: addr
    using Suc.prems by (intro word_eq_add_of_nat_iff) simp
  show ?case
  proof
    fix x
    have "unat (x - d) < n \<Longrightarrow> s + (x - d) \<noteq> d + of_nat n"
    proof
      assume a: "unat (x - d) < n" "s + (x - d) = d + of_nat n"
      then have e: "s - d = of_nat n - (x - d)" by (simp add: algebra_simps)
      have n: "unat (of_nat n :: addr) = n" using Suc.prems by (simp add: unat_of_nat_id)
      then have "unat (s - d) = n - unat (x - d)"
        unfolding e using a by (subst unat_sub) (auto simp: word_le_nat_alt)
      with Suc.prems a show False by auto
    qed
    then show "copy_down (d + of_nat (Suc n)) (s + of_nat (Suc n)) (Suc n) m x =
      (if unat (x - d) < Suc n then m (s + (x - d)) else m x)"
      using * [of x] by (auto simp: IH less_Suc_eq algebra_simps)
  qed
qed

lemma memmove_eq [mem_simps]:
  assumes "unat src + unat n \<le> 2 ^ 64" and "unat dst + unat n \<le> 2 ^ 64"
  shows "memmove dst src n m = (\<lambda>x. if unat (x - dst) < unat n then m (src + (x - dst)) else m x)"
proof -
  have n: "unat (ucast n :: addr) = unat n" by (simp add: unat_ucast_up)
  have u: "of_nat (unat n) = (ucast n :: addr)" by (metis n of_nat_unat)
  have lt: "unat n < 2 ^ 64" using unsigned_less [of n, where ?'a = nat] by simp
  show ?thesis
  proof (cases "src < dst \<and> src + ucast n > dst")
    case True
    have "unat n \<le> unat (src - dst)"
      using True assms by (simp add: unat_sub_if' word_less_nat_alt)
    then show ?thesis using True lt copy_down_eq [of dst src "unat n" m]
      by (auto simp: memmove_def u)
  next
    case False
    have "dst = src \<or> unat n \<le> unat (dst - src)"
      using False assms n word_eq_iff_unsigned [of dst src, where ?'a = nat]
      by (auto simp: unat_sub_if' unat_plus_if' word_less_nat_alt not_less split: if_splits)
    then show ?thesis using False lt copy_up_eq [of dst src "unat n" m]
      by (auto simp: memmove_def)
  qed
qed

section \<open>What the string functions compute\<close>

text \<open>
  \<open>cstr n xs\<close> is the string that code limited to \<open>n\<close> bytes sees in \<open>xs\<close>: the bytes up to
  the first NUL or to \<open>n\<close>. \<open>readable n xs\<close> says that such code stays inside \<open>xs\<close>.
\<close>

definition cstr :: "nat \<Rightarrow> byte list \<Rightarrow> byte list" where
  "cstr n xs = takeWhile (\<lambda>c. c \<noteq> 0) (take n xs)"

lemma cstr_0 [simp]: "cstr 0 xs = []"
  by (simp add: cstr_def)

lemma cstr_Nil [simp]: "cstr n [] = []"
  by (simp add: cstr_def)

lemma cstr_Suc [simp]: "cstr (Suc n) (x # xs) = (if x = 0 then [] else x # cstr n xs)"
  by (simp add: cstr_def)

lemma length_cstr_le: "length (cstr n xs) \<le> n"
  unfolding cstr_def by (rule order.trans [OF length_takeWhile_le]) simp

definition readable :: "nat \<Rightarrow> byte list \<Rightarrow> bool" where
  "readable n xs \<longleftrightarrow> n \<le> length xs \<or> 0 \<in> set xs"

lemma readable_simps [simp]:
  "readable 0 xs"
  "readable (Suc n) [] = False"
  "readable (Suc n) (x # xs) \<longleftrightarrow> x = 0 \<or> readable n xs"
  by (auto simp: readable_def)

lemma strncmp_returns:
  "readable n p \<Longrightarrow> readable n q \<Longrightarrow>
   \<exists>r. strncmp p q n = Inr r \<and> (r = 0 \<longleftrightarrow> cstr n p = cstr n q)
     \<and> (r < 0 \<longleftrightarrow> ord_class.lexordp (cstr n p) (cstr n q))"
  by (induction p q n rule: strncmp.induct) (auto simp: uint_cmp word_greater_zero_iff)

lemma strncpy_pad_eq:
  "i + n \<le> length s \<Longrightarrow> strncpy_pad s i n = Inr (take i s @ replicate n 0 @ drop (i + n) s)"
  by (induction s i n rule: strncpy_pad.induct) (auto simp: take_Suc_conv_app_nth)

lemma strncpy_copy_eq:
  "i + n \<le> length s \<Longrightarrow> readable n t \<Longrightarrow>
   strncpy_copy s i t n =
     Inr (take i s @ cstr n t @ replicate (n - length (cstr n t)) 0 @ drop (i + n) s)"
proof (induction s i t n rule: strncpy_copy.induct)
  case (3 s i c t n)
  then show ?case
    by (auto simp: strncpy_pad_eq take_Suc_conv_app_nth)
qed auto

lemma strncpy_eq:
  assumes "nat n \<le> length s" and "readable (nat n) t"
  shows "strncpy s t n =
    Inr (cstr (nat n) t @ replicate (nat n - length (cstr (nat n) t)) 0 @ drop (nat n) s)"
  using strncpy_copy_eq [of 0 "nat n" s t] assms by (simp add: strncpy_def)

text \<open>A name stored in a field of \<open>n\<close> bytes by \<^verbatim>\<open>strncpy\<close> reads back as itself.\<close>

lemma cstr_append_replicate:
  "length xs \<le> n \<Longrightarrow> 0 \<notin> set xs \<Longrightarrow> cstr n (xs @ replicate (n - length xs) 0 @ ys) = xs"
proof (induction xs arbitrary: n)
  case Nil
  then show ?case by (cases n) auto
next
  case (Cons x xs)
  then show ?case by (cases n) auto
qed

lemma zero_notin_cstr [simp]: "0 \<notin> set (cstr n xs)"
  by (auto simp: cstr_def dest: set_takeWhileD)

lemma cstr_strncpy:
  assumes "nat n \<le> length s" and "readable (nat n) t"
  shows "\<exists>s'. strncpy s t n = Inr s' \<and> length s' = length s \<and> cstr (nat n) s' = cstr (nat n) t"
  using assms length_cstr_le [of "nat n" t] by (simp add: strncpy_eq cstr_append_replicate)

lemma safestrcpy_loop_spec:
  "i + k < length s \<Longrightarrow> readable k t \<Longrightarrow>
   \<exists>s'. safestrcpy_loop s i t k = Inr s' \<and> length s' = length s
     \<and> take i s' = take i s \<and> drop (Suc (i + k)) s' = drop (Suc (i + k)) s
     \<and> (\<exists>r. drop i s' = cstr k t @ 0 # r)"
proof (induction s i t k rule: safestrcpy_loop.induct)
  case (1 s i t)
  then show ?case by (auto simp: drop_update_cancel Cons_nth_drop_Suc [symmetric] upd_conv_take_nth_drop)
next
  case (2 s i k)
  then show ?case by simp
next
  case (3 s i c t k)
  show ?case
  proof (cases "c = 0")
    case True
    with "3.prems" show ?thesis
      by (simp add: drop_update_cancel drop_update_swap Cons_nth_drop_Suc [symmetric])
  next
    case False
    with "3.prems" "3.IH" [of "s[i := c]"] obtain s' r where
      s': "safestrcpy_loop (s[i := c]) (Suc i) t k = Inr s'" "length s' = length s"
        "take (Suc i) s' = take (Suc i) (s[i := c])"
        "drop (Suc (Suc i + k)) s' = drop (Suc (Suc i + k)) (s[i := c])"
        "drop (Suc i) s' = cstr k t @ 0 # r"
      by auto
    have i: "i < length s" using "3.prems" by simp
    from s'(3) have "take i s' = take i s" "s' ! i = c"
      using i s'(2) by (metis le_SucI nth_take order_refl lessI min.absorb1 take_take take_update_cancel,
          metis i lessI nth_list_update_eq nth_take)
    moreover have "drop i s' = s' ! i # drop (Suc i) s'" using i s'(2) by (simp add: Cons_nth_drop_Suc)
    ultimately show ?thesis using s' False i by auto
  qed
qed

lemma safestrcpy_spec:
  assumes "0 < n" and "nat n \<le> length s" and "readable (nat n - 1) t"
  shows "\<exists>s' r. safestrcpy s t n = Inr s' \<and> length s' = length s
    \<and> s' = cstr (nat n - 1) t @ 0 # r \<and> drop (nat n) s' = drop (nat n) s"
proof -
  have k: "nat (n - 1) = nat n - 1" "Suc (nat n - 1) = nat n" "0 + (nat n - 1) < length s"
    using assms by auto
  show ?thesis
    using safestrcpy_loop_spec [OF k(3) assms(3)] assms k by (auto simp: safestrcpy_def)
qed

lemma strlen_eq: "0 \<in> set s \<Longrightarrow> strlen s = Inr (length (takeWhile (\<lambda>c. c \<noteq> 0) s))"
  by (induction s) auto

lemma strlen_OutOfBounds: "0 \<notin> set s \<Longrightarrow> strlen s = Inl OutOfBounds"
  by (induction s) auto

lemma strcpy_from_eq:
  "0 \<in> set t \<Longrightarrow> i + length (takeWhile (\<lambda>c. c \<noteq> 0) t) < length s \<Longrightarrow>
   strcpy_from s i t = Inr (take i s @ takeWhile (\<lambda>c. c \<noteq> 0) t @ 0 #
     drop (Suc (i + length (takeWhile (\<lambda>c. c \<noteq> 0) t))) s)"
proof (induction s i t rule: strcpy_from.induct)
  case (2 s i c t)
  show ?case
  proof (cases "c = 0")
    case True
    with 2 show ?thesis by (simp add: upd_conv_take_nth_drop)
  next
    case False
    with 2 show ?thesis by (simp add: take_Suc_conv_app_nth add.commute)
  qed
qed simp

lemma strchr_eq:
  "0 \<in> set s \<Longrightarrow> strchr s c = Inr (let t = takeWhile (\<lambda>a. a \<noteq> 0) s in
     if c \<in> set t then Some (length (takeWhile (\<lambda>a. a \<noteq> c) t)) else None)"
  by (induction s) (auto simp: Let_def)

lemma strcmp_returns:
  "0 \<in> set p \<Longrightarrow> 0 \<in> set q \<Longrightarrow>
   \<exists>r. strcmp p q = Inr r \<and>
     (r = 0 \<longleftrightarrow> takeWhile (\<lambda>c. c \<noteq> 0) p = takeWhile (\<lambda>c. c \<noteq> 0) q)"
  by (induction p q rule: strcmp.induct) (auto simp: uint_cmp)

lemma ulib_memmove_eq:
  assumes "0 \<le> n" and "unat src + nat n \<le> 2 ^ 64" and "unat dst + nat n \<le> 2 ^ 64" and "n < 2 ^ 64"
  shows "ulib_memmove dst src n m = (\<lambda>x. if unat (x - dst) < nat n then m (src + (x - dst)) else m x)"
proof -
  have lt: "nat n < 2 ^ 64" using assms by (simp add: nat_less_iff)
  have u: "of_int n = (of_nat (nat n) :: addr)" using assms(1) by (metis of_int_of_nat_eq nat_0_le)
  have e: "unat src = unat dst \<longleftrightarrow> src = dst" by (simp add: word_eq_iff_unsigned [where ?'a = nat])
  show ?thesis
  proof (cases "src > dst")
    case True
    then have "nat n \<le> unat (dst - src)"
      using assms by (simp add: unat_sub_if' word_less_nat_alt)
    then show ?thesis using True lt copy_up_eq [of dst src "nat n" m]
      by (simp add: ulib_memmove_def)
  next
    case False
    then have "dst = src \<or> nat n \<le> unat (src - dst)"
      using assms e by (auto simp: unat_sub_if' word_less_nat_alt)
    then show ?thesis using False lt copy_down_eq [of dst src "nat n" m]
      by (simp add: ulib_memmove_def u)
  qed
qed

section \<open>Properties\<close>

text \<open>
  C14: \<^verbatim>\<open>memmove\<close> moves \<open>n\<close> bytes also when the ranges overlap: after it, every
  byte of the destination is the byte that the source held before the call, and no other
  byte changes, as long as neither range wraps around the address space.
\<close>

theorem memmove_moves:
  assumes "unat src + unat n \<le> 2 ^ 64" and "unat dst + unat n \<le> 2 ^ 64"
  shows "memmove dst src n m = (\<lambda>x. if unat (x - dst) < unat n then m (src + (x - dst)) else m x)"
  using assms by (rule memmove_eq)

theorem memmove_moves_witness:
  "memmove 101 100 3 (\<lambda>x. ucast x) 103 = 102 \<and> memmove 101 100 3 (\<lambda>x. ucast x) 104 = 104"
  by (subst memmove_moves; simp)+



text \<open>
  C16: a name stored in a field of \<open>n\<close> bytes with \<^verbatim>\<open>strncpy\<close> (terminated or not)
  compares equal under \<^verbatim>\<open>strncmp\<close> to exactly the strings with the same first \<open>n\<close>
  characters, the bytes after the field are untouched, and neither function leaves its
  buffers. Directory entries rely on it.
\<close>

theorem strncpy_strncmp:
  assumes "nat n \<le> length s" and "readable (nat n) t" and "readable (nat n) u"
  shows "\<exists>s' r. strncpy s t n = Inr s' \<and> length s' = length s \<and> drop (nat n) s' = drop (nat n) s
    \<and> strncmp s' u (nat n) = Inr r \<and> (r = 0 \<longleftrightarrow> cstr (nat n) t = cstr (nat n) u)"
proof -
  obtain s' where s': "strncpy s t n = Inr s'" "length s' = length s"
      "cstr (nat n) s' = cstr (nat n) t"
    using cstr_strncpy [OF assms(1,2)] by blast
  then have "drop (nat n) s' = drop (nat n) s"
    using strncpy_eq [OF assms(1,2)] length_cstr_le [of "nat n" t] by auto
  moreover have "readable (nat n) s'" using s'(2) assms(1) by (simp add: readable_def)
  ultimately show ?thesis using strncmp_returns [of "nat n" s' u] s' assms(3) by auto
qed

theorem strncpy_strncmp_witness:
  "\<exists>s' r. strncpy [9, 9, 9, 9] [65, 0] 3 = Inr s' \<and> length s' = length [9, 9, 9, 9 :: byte]
    \<and> drop (nat 3) s' = drop (nat 3) [9, 9, 9, 9]
    \<and> strncmp s' [65, 66, 67] (nat 3) = Inr r \<and> (r = 0 \<longleftrightarrow> cstr (nat 3) [65, 0] = cstr (nat 3) [65, 66, 67])"
  by (rule strncpy_strncmp) (simp_all add: numeral_3_eq_3)

text \<open>
  C17: \<^verbatim>\<open>safestrcpy\<close> stays within the \<open>n\<close> bytes of its buffer and always leaves a
  terminated string there: the source, cut to \<open>n - 1\<close> characters.
\<close>

theorem safestrcpy_terminates:
  assumes "0 < n" and "nat n \<le> length s" and "readable (nat n - 1) t"
  shows "\<exists>s' r. safestrcpy s t n = Inr s' \<and> length s' = length s
    \<and> s' = cstr (nat n - 1) t @ 0 # r \<and> drop (nat n) s' = drop (nat n) s"
  using assms by (rule safestrcpy_spec)

theorem safestrcpy_terminates_witness:
  "\<exists>s' r. safestrcpy [9, 9, 9, 9] [65, 66, 67, 68] 3 = Inr s'
    \<and> length s' = length [9, 9, 9, 9 :: byte]
    \<and> s' = cstr (nat 3 - 1) [65, 66, 67, 68] @ 0 # r \<and> drop (nat 3) s' = drop (nat 3) [9, 9, 9, 9]"
  by (rule safestrcpy_terminates) (simp_all add: numeral_2_eq_2)

end
