(* ===== verification/PhysMem.thy ===== *)
theory PhysMem
  imports CString Layout
begin

text \<open>
  Loads and stores of the byte-addressed physical memory: runs of bytes, and the 64-bit
  words that page-table entries and the free list's links are. The lemmas say when a store
  is seen by a load: at the same place, or in no other aligned word and in no other page.
\<close>

definition load_bytes :: "addr \<Rightarrow> nat \<Rightarrow> memory \<Rightarrow> byte list" where
  "load_bytes a n m = map (\<lambda>i. m (a + of_nat i)) [0..<n]"

definition store_bytes :: "addr \<Rightarrow> byte list \<Rightarrow> memory \<Rightarrow> memory" where
  "store_bytes a bs m = (\<lambda>x. if unat (x - a) < length bs then bs ! unat (x - a) else m x)"

definition load64 :: "addr \<Rightarrow> memory \<Rightarrow> u64" where
  "load64 a m = le_word (load_bytes a 8 m)"

definition store64 :: "addr \<Rightarrow> u64 \<Rightarrow> memory \<Rightarrow> memory" where
  "store64 a v m = store_bytes a (le_bytes 8 v) m"

text \<open>The page an address lies in.\<close>

definition page :: "addr \<Rightarrow> addr" where
  "page a = PGROUNDDOWN a"

lemma length_load_bytes [simp]: "length (load_bytes a n m) = n"
  by (simp add: load_bytes_def)

lemma load_bytes_nth [simp]: "i < n \<Longrightarrow> load_bytes a n m ! i = m (a + of_nat i)"
  by (simp add: load_bytes_def)

lemma load_store_bytes_same [mem_simps]:
  "length bs < 2 ^ 64 \<Longrightarrow> n = length bs \<Longrightarrow> load_bytes a n (store_bytes a bs m) = bs"
  by (rule nth_equalityI) (simp_all add: store_bytes_def)

lemma load_bytes_cong:
  "(\<And>i. i < n \<Longrightarrow> m (a + of_nat i) = m' (a + of_nat i)) \<Longrightarrow> load_bytes a n m = load_bytes a n m'"
  by (simp add: load_bytes_def)

lemma load64_store64_same [simp]: "load64 a (store64 a v m) = v"
  by (simp add: load64_def store64_def load_store_bytes_same le_word_le_bytes take_bit_word_eq_self)

lemma store_bytes_other: "length bs \<le> unat (x - a) \<Longrightarrow> store_bytes a bs m x = m x"
  by (simp add: store_bytes_def)

lemma aligned8_distance:
  assumes "8 dvd unat a" and "8 dvd unat b" and "a \<noteq> b" and "i < 8"
  shows "8 \<le> unat (a + of_nat i - b :: addr)"
proof -
  have i: "unat (of_nat i :: addr) = i" using assms(4) by simp
  obtain p q where p: "unat a = 8 * p" and q: "unat b = 8 * q" using assms(1,2) by (auto simp: dvd_def)
  note u64_bound [of a] u64_bound [of b]
  then have pq: "p < 2 ^ 61" "q < 2 ^ 61" using p q by simp_all
  have ne: "p \<noteq> q" using assms(3) p q by (auto simp: word_unat_eq_iff)
  have ai: "unat (a + of_nat i) = 8 * p + i" using p i pq assms(4) by (simp add: unat_plus_if')
  show ?thesis
  proof (cases "q < p")
    case True
    then have "8 * q + 8 \<le> 8 * p" by simp
    then show ?thesis using ai q by (simp add: unat_sub_if')
  next
    case False
    then have "8 * p + 8 \<le> 8 * q" using ne by simp
    then show ?thesis using ai q pq assms(4) by (simp add: unat_sub_if')
  qed
qed

lemma load64_store64_other [mem_simps]:
  "8 dvd unat a \<Longrightarrow> 8 dvd unat b \<Longrightarrow> a \<noteq> b \<Longrightarrow> load64 a (store64 b v m) = load64 a m"
  unfolding load64_def store64_def
  by (intro arg_cong [where f = le_word] load_bytes_cong store_bytes_other)
     (simp add: aligned8_distance)

text \<open>Two aligned pages do not share an address.\<close>

lemma page_eq_iff: "page x = page y \<longleftrightarrow> unat x div 4096 = unat y div 4096"
  by (simp add: page_def word_unat_eq_iff unat_PGROUNDDOWN)

lemma page_idem [simp]: "page (page x) = page x"
  by (simp add: page_def aligned_PGROUNDDOWN)

lemma page_aligned [simp]: "4096 dvd unat (page x)"
  by (simp add: page_def)

lemma page_of_aligned: "4096 dvd unat p \<Longrightarrow> page p = p"
  by (simp add: page_def aligned_PGROUNDDOWN)

lemma in_page_iff:
  assumes "4096 dvd unat p"
  shows "unat (x - p) < 4096 \<longleftrightarrow> page x = p"
proof -
  obtain k where k: "unat p = 4096 * k" using assms by (auto simp: dvd_def)
  note lt = u64_bound [of x] u64_bound [of p]
  define q r where "q = unat x div 4096" and "r = unat x mod 4096"
  then have x: "unat x = 4096 * q + r" "r < 4096" by simp_all
  have bd: "q < 4503599627370496" "k < 4503599627370496" using lt x k by simp_all
  have "page x = p \<longleftrightarrow> q = k"
    using k x by (simp add: page_def word_unat_eq_iff unat_PGROUNDDOWN mult.commute)
  moreover have "unat (x - p) < 4096 \<longleftrightarrow> q = k"
  proof (cases q k rule: linorder_cases)
    case less
    then have "4096 * q + 4096 \<le> 4096 * k" by simp
    then show ?thesis using less x k bd by (simp add: unat_sub_if')
  next
    case equal
    then show ?thesis using x k by (simp add: unat_sub_if')
  next
    case greater
    then have "4096 * k + 4096 \<le> 4096 * q" by simp
    then show ?thesis using greater x k by (simp add: unat_sub_if')
  qed
  ultimately show ?thesis by simp
qed

lemma page_add:
  assumes "8 dvd unat a" and "i < 8"
  shows "page (a + of_nat i) = page a"
proof -
  obtain k where k: "unat a = 8 * k" using assms by (auto simp: dvd_def)
  note u64_bound [of a]
  then have "unat (a + of_nat i) = 8 * k + i" using k assms(2) by (simp add: unat_plus_if')
  then show ?thesis using k assms(2) by (simp add: page_eq_iff)
qed

lemma store_bytes_page:
  "4096 dvd unat p \<Longrightarrow> length bs \<le> 4096 \<Longrightarrow> page x \<noteq> p \<Longrightarrow> store_bytes p bs m x = m x"
  using in_page_iff [of p x] by (intro store_bytes_other) auto

lemma store64_other_page [mem_simps]:
  assumes "8 dvd unat a" and "page x \<noteq> page a"
  shows "store64 a v m x = m x"
proof -
  have "\<not> unat (x - a) < 8"
  proof
    assume "unat (x - a) < 8"
    moreover have "x = a + of_nat (unat (x - a))" by simp
    ultimately have "page x = page a" using page_add [OF assms(1)] by metis
    with assms(2) show False by simp
  qed
  then show ?thesis by (simp add: store64_def store_bytes_other)
qed

lemma load64_cong_page:
  assumes "8 dvd unat a" and "\<And>x. page x = page a \<Longrightarrow> m x = m' x"
  shows "load64 a m = load64 a m'"
  unfolding load64_def
  by (intro arg_cong [where f = le_word] load_bytes_cong assms(2) page_add [OF assms(1)])

lemma memset_page_out [mem_simps]:
  "4096 dvd unat p \<Longrightarrow> page x \<noteq> p \<Longrightarrow> memset p c 4096 m x = m x"
  by (simp add: memset_eq in_page_iff)

lemma memset_page_in [mem_simps]:
  "4096 dvd unat p \<Longrightarrow> page x = p \<Longrightarrow> memset p c 4096 m x = word_of_int c"
  by (simp add: memset_eq in_page_iff)

lemma aligned_8: "4096 dvd n \<Longrightarrow> 8 dvd (n::nat)"
  by (rule dvd_trans [of 8 4096]) simp_all

lemma load64_memset_zero:
  assumes "4096 dvd unat p" and "8 dvd unat a" and "page a = p"
  shows "load64 a (memset p 0 4096 m) = 0"
proof -
  have "load_bytes a 8 (memset p 0 4096 m) = replicate 8 0"
    using assms by (intro nth_equalityI) (simp_all add: memset_page_in page_add)
  then show ?thesis by (simp add: load64_def numeral_eq_Suc)
qed

end
