(* ===== verification/Kalloc.thy ===== *)
theory Kalloc
  imports PhysMem
begin

text \<open>
  \<^verbatim>\<open>kernel/kalloc.c\<close>: the allocator of physical pages. Free pages are linked through
  their own first eight bytes, in physical memory; the state is the memory, the head of the
  list (\<^verbatim>\<open>kmem.freelist\<close>) and the address \<^verbatim>\<open>end\<close> that the linker gives the
  allocator's region. The sections under \<^verbatim>\<open>kmem.lock\<close> are single steps.

  The abstraction is the list of free pages. \<open>page_allocator\<close> is the interface the rest of
  the kernel relies on; \<open>kmem\<close> interprets it on \<open>kalloc\<close> and \<open>kfree\<close>.
\<close>

section \<open>Model\<close>

record phys =
  pmem :: memory
  freelist :: addr
  kend :: addr

definition kfree :: "addr \<Rightarrow> phys \<Rightarrow> phys res" where
  "kfree pa s =
     (if pa mod PGSIZE \<noteq> 0 \<or> pa < kend s \<or> pa \<ge> PHYSTOP then Inl (Panic ''kfree'')
      else
        let m = memset pa 1 (ucast PGSIZE) (pmem s);
            m = store64 pa (freelist s) m
        in Inr (s\<lparr>pmem := m, freelist := pa\<rparr>))"

definition kalloc :: "phys \<Rightarrow> addr \<times> phys" where
  "kalloc s =
     (let r = freelist s;
          s = (if r \<noteq> 0 then s\<lparr>freelist := load64 r (pmem s)\<rparr> else s);
          s = (if r \<noteq> 0 then s\<lparr>pmem := memset r 5 (ucast PGSIZE) (pmem s)\<rparr> else s)
      in (r, s))"

lemma kfree_below_PHYSTOP: "kfree p s = Inr s' \<Longrightarrow> p < PHYSTOP"
  by (auto simp: kfree_def not_le split: if_splits)

text \<open>
  \<^verbatim>\<open>for(; p + PGSIZE <= pa_end; p += PGSIZE) kfree(p);\<close> The loop ends because
  \<open>kfree\<close> panics before \<open>p\<close> could wrap around.
\<close>

function freerange_loop :: "addr \<Rightarrow> addr \<Rightarrow> phys \<Rightarrow> phys res" where
  "freerange_loop p pa_end s =
     (if p + PGSIZE \<le> pa_end
      then rbind (kfree p s) (\<lambda>s. freerange_loop (p + PGSIZE) pa_end s)
      else Inr s)"
  by pat_completeness auto
termination
proof (relation "measure (\<lambda>(p, e, s). unat (PHYSTOP + PGSIZE - p))", goal_cases)
  case 1
  then show ?case by simp
next
  case (2 p pa_end s x)
  have "unat p < unat PHYSTOP"
    using kfree_below_PHYSTOP [OF 2(2)] by (simp add: word_less_nat_alt)
  then show ?case by (simp add: unat_sub_if' unat_plus_if')
qed

declare freerange_loop.simps [simp del]

definition freerange :: "addr \<Rightarrow> addr \<Rightarrow> phys \<Rightarrow> phys res" where
  "freerange pa_start pa_end s = freerange_loop (PGROUNDUP pa_start) pa_end s"

definition kinit :: "phys \<Rightarrow> phys res" where
  "kinit s = freerange (kend s) PHYSTOP s"

section \<open>The interface of a page allocator\<close>

text \<open>
  \<open>pages s ps\<close>: in state \<open>s\<close> the free pages are \<open>ps\<close>, in the order in which they will be
  handed out. \<open>usable s p\<close>: \<open>p\<close> is a page the allocator manages.
\<close>

locale page_allocator =
  fixes alloc :: "'s \<Rightarrow> 'p \<times> 's"
    and dealloc :: "'p \<Rightarrow> 's \<Rightarrow> 's res"
    and null :: 'p
    and pages :: "'s \<Rightarrow> 'p list \<Rightarrow> bool"
    and usable :: "'s \<Rightarrow> 'p \<Rightarrow> bool"
  assumes alloc_none: "pages s [] \<Longrightarrow> alloc s = (null, s)"
    and alloc_some: "pages s (p # ps) \<Longrightarrow>
      \<exists>s'. alloc s = (p, s') \<and> pages s' ps \<and> usable s' = usable s"
    and pages_distinct: "pages s ps \<Longrightarrow> distinct ps"
    and pages_usable: "pages s ps \<Longrightarrow> p \<in> set ps \<Longrightarrow> usable s p"
    and null_unusable: "\<not> usable s null"
    and dealloc_ok: "pages s ps \<Longrightarrow> usable s p \<Longrightarrow> p \<notin> set ps \<Longrightarrow>
      \<exists>s'. dealloc p s = Inr s' \<and> pages s' (p # ps) \<and> usable s' = usable s"
    and dealloc_bad: "pages s ps \<Longrightarrow> \<not> usable s p \<Longrightarrow> \<exists>e. dealloc p s = Inl e"

text \<open>\<open>n\<close> allocations in a row, until the first that fails.\<close>

fun alloc_many :: "('s \<Rightarrow> 'p \<times> 's) \<Rightarrow> 'p \<Rightarrow> nat \<Rightarrow> 's \<Rightarrow> 'p list \<times> 's" where
  "alloc_many alloc null 0 s = ([], s)"
| "alloc_many alloc null (Suc n) s =
     (case alloc s of (p, s) \<Rightarrow>
        if p = null then ([], s)
        else case alloc_many alloc null n s of (ps, s) \<Rightarrow> (p # ps, s))"

context page_allocator
begin

lemma alloc_null_iff: "pages s ps \<Longrightarrow> fst (alloc s) = null \<longleftrightarrow> ps = []"
  using alloc_none alloc_some pages_usable null_unusable
  by (cases ps) (auto, metis fst_conv list.set_intros(1))

lemma alloc_many_pages:
  "pages s ps \<Longrightarrow> n \<le> length ps \<Longrightarrow>
   \<exists>s'. alloc_many alloc null n s = (take n ps, s') \<and> pages s' (drop n ps)"
proof (induction n arbitrary: s ps)
  case 0
  then show ?case by simp
next
  case (Suc n)
  then obtain p qs where ps: "ps = p # qs" by (cases ps) auto
  with Suc.prems alloc_some obtain s1 where s1: "alloc s = (p, s1)" "pages s1 qs" by blast
  have "p \<noteq> null" using pages_usable [OF Suc.prems(1)] null_unusable ps by auto
  moreover obtain s' where "alloc_many alloc null n s1 = (take n qs, s')" "pages s' (drop n qs)"
    using Suc.IH [OF s1(2)] Suc.prems(2) ps by auto
  ultimately show ?case using s1 ps by simp
qed

text \<open>A page that was just freed is the next to be handed out.\<close>

lemma alloc_after_dealloc:
  assumes "pages s ps" and "usable s p" and "p \<notin> set ps"
  shows "\<exists>s1 s2. dealloc p s = Inr s1 \<and> alloc s1 = (p, s2) \<and> pages s2 ps"
  using dealloc_ok [OF assms] alloc_some by blast

end

section \<open>The free list\<close>

primrec chain :: "memory \<Rightarrow> addr \<Rightarrow> addr list \<Rightarrow> bool" where
  "chain m r [] \<longleftrightarrow> r = 0"
| "chain m r (p # ps) \<longleftrightarrow> r = p \<and> p \<noteq> 0 \<and> chain m (load64 p m) ps"

definition usable_page :: "phys \<Rightarrow> addr \<Rightarrow> bool" where
  "usable_page s p \<longleftrightarrow> 4096 dvd unat p \<and> kend s \<le> p \<and> p < PHYSTOP \<and> p \<noteq> 0"

definition free_pages :: "phys \<Rightarrow> addr list \<Rightarrow> bool" where
  "free_pages s ps \<longleftrightarrow>
     kend s \<noteq> 0 \<and> chain (pmem s) (freelist s) ps \<and> distinct ps \<and> (\<forall>p\<in>set ps. usable_page s p)"

lemma word_mod_4096: "p mod 4096 = (0 :: addr) \<longleftrightarrow> 4096 dvd unat p"
  by (simp add: word_unat_eq_iff unat_mod dvd_eq_mod_eq_0)

lemma chain_cong:
  "(\<And>p x. p \<in> set ps \<Longrightarrow> page x = p \<Longrightarrow> m x = m' x) \<Longrightarrow> \<forall>p\<in>set ps. 4096 dvd unat p \<Longrightarrow>
   chain m r ps \<Longrightarrow> chain m' r ps"
proof (induction ps arbitrary: r)
  case Nil
  then show ?case by simp
next
  case (Cons p ps)
  have "load64 p m = load64 p m'"
    using Cons.prems by (intro load64_cong_page) (auto simp: aligned_8 page_of_aligned)
  with Cons show ?case by auto
qed

lemma kalloc_free_pages:
  assumes "free_pages s (p # ps)"
  shows "\<exists>s'. kalloc s = (p, s') \<and> free_pages s' ps \<and> kend s' = kend s
    \<and> (\<forall>x. pmem s' x = (if page x = p then 5 else pmem s x))"
proof -
  let ?s = "s\<lparr>freelist := load64 p (pmem s), pmem := memset p 5 4096 (pmem s)\<rparr>"
  from assms have p: "freelist s = p" "p \<noteq> 0" "4096 dvd unat p" "p \<notin> set ps"
    by (auto simp: free_pages_def usable_page_def)
  then have k: "kalloc s = (p, ?s)" by (simp add: kalloc_def Let_def)
  have m: "pmem ?s x = (if page x = p then 5 else pmem s x)" for x
    using p by (simp add: memset_page_in memset_page_out)
  have "chain (memset p 5 4096 (pmem s)) (load64 p (pmem s)) ps"
  proof (rule chain_cong)
    show "chain (pmem s) (load64 p (pmem s)) ps" "\<forall>p\<in>set ps. 4096 dvd unat p"
      using assms by (auto simp: free_pages_def usable_page_def)
    show "pmem s x = memset p 5 4096 (pmem s) x" if "q \<in> set ps" "page x = q" for q x
      using that p by (metis memset_page_out)
  qed
  then have "free_pages ?s ps" using assms by (auto simp: free_pages_def usable_page_def)
  with k m show ?thesis by auto
qed

lemma kalloc_no_pages: "free_pages s [] \<Longrightarrow> kalloc s = (0, s)"
  by (simp add: free_pages_def kalloc_def)

lemma kfree_free_pages:
  assumes "free_pages s ps" and "usable_page s p" and "p \<notin> set ps"
  shows "\<exists>s'. kfree p s = Inr s' \<and> free_pages s' (p # ps) \<and> kend s' = kend s
    \<and> (\<forall>x. page x \<noteq> p \<longrightarrow> pmem s' x = pmem s x)"
proof -
  let ?m = "store64 p (freelist s) (memset p 1 4096 (pmem s))"
  let ?s = "s\<lparr>pmem := ?m, freelist := p\<rparr>"
  have al: "4096 dvd unat p" "8 dvd unat p" using assms(2) by (auto simp: usable_page_def aligned_8)
  have k: "kfree p s = Inr ?s"
    using assms(2) by (auto simp: kfree_def usable_page_def word_mod_4096 Let_def)
  have m: "page x \<noteq> p \<Longrightarrow> ?m x = pmem s x" for x
    using al by (simp add: store64_other_page memset_page_out page_of_aligned)
  have "chain ?m (freelist s) ps"
  proof (rule chain_cong)
    show "chain (pmem s) (freelist s) ps" "\<forall>p\<in>set ps. 4096 dvd unat p"
      using assms by (auto simp: free_pages_def usable_page_def)
    show "pmem s x = ?m x" if "q \<in> set ps" "page x = q" for q x
      using that m assms(3) by metis
  qed
  then have "free_pages ?s (p # ps)"
    using assms by (auto simp: free_pages_def usable_page_def)
  with k m show ?thesis by auto
qed

lemma kfree_unusable: "kend s \<noteq> 0 \<Longrightarrow> \<not> usable_page s p \<Longrightarrow> kfree p s = Inl (Panic ''kfree'')"
  by (auto simp: kfree_def usable_page_def word_mod_4096 not_le word_greater_zero_iff)

lemma usable_page_cong: "kend s' = kend s \<Longrightarrow> usable_page s' = usable_page s"
  by (simp add: usable_page_def fun_eq_iff)

interpretation kmem: page_allocator kalloc kfree 0 free_pages usable_page
proof (unfold_locales, goal_cases)
  case (1 s)
  then show ?case by (rule kalloc_no_pages)
next
  case (2 s p ps)
  from kalloc_free_pages [OF this] show ?case by (metis usable_page_cong)
next
  case (3 s ps)
  then show ?case by (simp add: free_pages_def)
next
  case (4 s ps p)
  then show ?case by (simp add: free_pages_def)
next
  case (5 s)
  then show ?case by (simp add: usable_page_def)
next
  case (6 s ps p)
  from kfree_free_pages [OF this] show ?case by (metis usable_page_cong)
next
  case (7 s ps p)
  then show ?case using kfree_unusable [of s p] by (auto simp: free_pages_def)
qed

section \<open>Initialisation\<close>

lemma aligned_less_add:
  assumes "4096 dvd unat q" and "4096 dvd unat p" and "unat p < 2 ^ 63"
  shows "q < p + 4096 \<longleftrightarrow> q = p \<or> q < (p :: addr)"
proof -
  obtain i j where ij: "unat q = 4096 * i" "unat p = 4096 * j" using assms by (auto simp: dvd_def)
  have "unat (p + 4096) = 4096 * (j + 1)" using ij assms(3) by (simp add: unat_plus_if')
  then show ?thesis using ij by (auto simp: word_less_nat_alt word_unat_eq_iff)
qed

lemma freerange_loop_frees:
  "4096 dvd unat p \<Longrightarrow> kend s \<le> p \<Longrightarrow> p \<le> PHYSTOP \<Longrightarrow> pa_end = PHYSTOP \<Longrightarrow>
   free_pages s ps \<Longrightarrow> set ps = {q. usable_page s q \<and> q < p} \<Longrightarrow>
   \<exists>s' qs. freerange_loop p pa_end s = Inr s' \<and> free_pages s' qs \<and> kend s' = kend s
     \<and> set qs = Collect (usable_page s)"
proof (induction p pa_end s arbitrary: ps rule: freerange_loop.induct)
  case (1 p pa_end s)
  have k0: "kend s \<noteq> 0" using "1.prems" by (simp add: free_pages_def)
  show ?case
  proof (cases "p = PHYSTOP")
    case True
    then have "freerange_loop p pa_end s = Inr s"
      using "1.prems" by (simp add: freerange_loop.simps)
    moreover have "usable_page s q \<Longrightarrow> q < p" for q
      using True by (simp add: usable_page_def)
    then have "set ps = Collect (usable_page s)"
      using "1.prems"(6) by auto
    ultimately show ?thesis using "1.prems" by blast
  next
    case False
    then have lt: "unat p < unat PHYSTOP" using "1.prems" by (simp add: word_le_nat_alt word_unat_eq_iff)
    obtain j where j: "unat p = 4096 * j" using "1.prems" by (auto simp: dvd_def)
    have up: "unat (p + 4096) = 4096 * (j + 1)" using j lt by (simp add: unat_plus_if')
    have ge: "p + 4096 \<le> PHYSTOP" using j lt up by (simp add: word_le_nat_alt)
    have "p \<noteq> 0" using k0 "1.prems"(2) by (metis word_le_0_iff)
    then have u: "usable_page s p"
      using "1.prems"(1,2) lt by (simp add: usable_page_def word_less_nat_alt)
    then obtain s1 where s1: "kfree p s = Inr s1" "free_pages s1 (p # ps)" "kend s1 = kend s"
      using kfree_free_pages [of s ps p] "1.prems" by auto
    have "usable_page s q \<and> q < p + 4096 \<longleftrightarrow> q = p \<or> usable_page s q \<and> q < p" for q
      using aligned_less_add [of q p] "1.prems"(1) lt u by (auto simp: usable_page_def)
    then have "set (p # ps) = {q. usable_page s1 q \<and> q < p + 4096}"
      using "1.prems"(6) by (auto simp: usable_page_cong [OF s1(3)])
    moreover have "kend s1 \<le> p + 4096" using s1(3) "1.prems" j up by (simp add: word_le_nat_alt)
    ultimately obtain s' qs where "freerange_loop (p + 4096) pa_end s1 = Inr s'" "free_pages s' qs"
        "kend s' = kend s" "set qs = Collect (usable_page s)"
      using "1.IH" [of s1 "p # ps"] s1 ge up "1.prems"(4) by (auto simp: usable_page_cong [OF s1(3)])
    moreover from this(1) have "freerange_loop p pa_end s = Inr s'"
      using s1(1) ge "1.prems"(4) by (simp add: freerange_loop.simps [of p])
    ultimately show ?thesis by blast
  qed
qed

lemma kinit_frees:
  assumes "kend s \<noteq> 0" and "kend s \<le> PHYSTOP" and "freelist s = 0"
  shows "\<exists>s' ps. kinit s = Inr s' \<and> free_pages s' ps \<and> kend s' = kend s
    \<and> set ps = Collect (usable_page s)"
proof -
  let ?p = "PGROUNDUP (kend s)"
  have k: "unat (kend s) \<le> 2281701376" using assms(2) by (simp add: word_le_nat_alt)
  then have up: "unat ?p = (unat (kend s) + 4095) div 4096 * 4096" by (simp add: unat_PGROUNDUP)
  have 1: "kend s \<le> ?p" using k PGROUNDUP_bounds(1) [of "kend s"] by (simp add: word_le_nat_alt)
  have "unat ?p \<le> 2281701376" using k up by simp
  then have 2: "?p \<le> PHYSTOP" by (simp add: word_le_nat_alt)
  have "\<not> (usable_page s q \<and> q < ?p)" for q
  proof
    assume q: "usable_page s q \<and> q < ?p"
    then obtain i where "unat q = 4096 * i" by (auto simp: usable_page_def dvd_def)
    with q up show False by (auto simp: usable_page_def word_le_nat_alt word_less_nat_alt)
  qed
  then have "set [] = {q. usable_page s q \<and> q < ?p}" by simp
  moreover have "free_pages s []" using assms by (simp add: free_pages_def)
  ultimately show ?thesis unfolding kinit_def freerange_def
    using 1 2 freerange_loop_frees [of ?p s PHYSTOP "[]"] by simp
qed

section \<open>Properties\<close>

text \<open>
  C11: after \<^verbatim>\<open>kinit\<close> the free list holds every page of the memory from the end of
  the kernel to \<^verbatim>\<open>PHYSTOP\<close>, each once, and nothing else.
\<close>

theorem kinit_frees_all:
  assumes "kend s \<noteq> 0" and "kend s \<le> PHYSTOP" and "freelist s = 0"
  shows "\<exists>s' ps. kinit s = Inr s' \<and> free_pages s' ps \<and> kend s' = kend s
    \<and> set ps = Collect (usable_page s)"
  using assms by (rule kinit_frees)

theorem kinit_frees_all_witness:
  "\<exists>s' ps. kinit \<lparr>pmem = \<lambda>_. 7, freelist = 0, kend = 0x80021d50\<rparr> = Inr s' \<and> free_pages s' ps
    \<and> kend s' = kend \<lparr>pmem = \<lambda>_. 7, freelist = 0, kend = 0x80021d50\<rparr>
    \<and> set ps = Collect (usable_page \<lparr>pmem = \<lambda>_. 7, freelist = 0, kend = 0x80021d50\<rparr>)"
  by (rule kinit_frees_all) simp_all

text \<open>
  C12: from a free list of at least \<open>n\<close> pages, \<open>n\<close> calls of \<^verbatim>\<open>kalloc\<close> succeed, return
  distinct pages of the managed region, and leave exactly the other pages free.
\<close>

theorem kalloc_distinct_pages:
  assumes "free_pages s ps" and "n \<le> length ps"
  shows "\<exists>qs s'. alloc_many kalloc 0 n s = (qs, s') \<and> length qs = n \<and> distinct qs
    \<and> (\<forall>q\<in>set qs. usable_page s q) \<and> free_pages s' (drop n ps) \<and> set qs \<inter> set (drop n ps) = {}"
proof -
  obtain s' where "alloc_many kalloc 0 n s = (take n ps, s')" "free_pages s' (drop n ps)"
    using kmem.alloc_many_pages [OF assms] by blast
  moreover have "distinct ps" using kmem.pages_distinct [OF assms(1)] .
  moreover from this have "set (take n ps) \<inter> set (drop n ps) = {}"
    by (rule set_take_disj_set_drop_if_distinct) simp
  moreover have "\<forall>q\<in>set (take n ps). usable_page s q"
    using kmem.pages_usable [OF assms(1)] by (meson in_set_takeD)
  ultimately show ?thesis using assms(2) by (intro exI [of _ "take n ps"] exI [of _ s']) auto
qed

text \<open>
  \<open>three_pages\<close>: the memory in which the pages \<open>0x80100000\<close>, \<open>0x80200000\<close> and \<open>0x80300000\<close>
  are free, in this order, and everything else is zero.
\<close>

definition three_pages :: phys where
  "three_pages = \<lparr>pmem = store64 0x80100000 0x80200000 (store64 0x80200000 0x80300000 (\<lambda>_. 0)),
     freelist = 0x80100000, kend = 0x80021d50\<rparr>"

lemma free_pages_three: "free_pages three_pages [0x80100000, 0x80200000, 0x80300000]"
proof -
  have "load64 0x80300000 (\<lambda>_. 0) = 0" by code_simp
  then show ?thesis
    by (simp add: free_pages_def three_pages_def usable_page_def load64_store64_other)
qed

theorem kalloc_distinct_pages_witness:
  "\<exists>qs s'. alloc_many kalloc 0 2 three_pages = (qs, s') \<and> length qs = 2 \<and> distinct qs
    \<and> (\<forall>q\<in>set qs. usable_page three_pages q) \<and> free_pages s' (drop 2 [0x80100000, 0x80200000, 0x80300000])
    \<and> set qs \<inter> set (drop 2 [0x80100000, 0x80200000, 0x80300000]) = {}"
  by (rule kalloc_distinct_pages [OF free_pages_three]) simp



end
