(* ===== verification/Vm.thy ===== *)
theory Vm
  imports Kalloc
begin

text \<open>
  \<^verbatim>\<open>kernel/vm.c\<close>: Sv39 page tables in physical memory. A page table is the address of
  its root page; entries are 64-bit words read and written in the byte memory; page-table
  pages come from \<open>kalloc\<close>. \<^verbatim>\<open>walk\<close> returns the address of an entry, 0 for none.
\<close>

section \<open>Walking and mapping\<close>

fun walk_loop :: "nat \<Rightarrow> addr \<Rightarrow> addr \<Rightarrow> bool \<Rightarrow> phys \<Rightarrow> addr \<times> phys" where
  "walk_loop 0 pagetable va alloc s = (pagetable + 8 * PX 0 va, s)"
| "walk_loop (Suc l) pagetable va alloc s =
     (let pte = pagetable + 8 * PX (Suc l) va; v = load64 pte (pmem s) in
      if v AND PTE_V \<noteq> 0 then walk_loop l (PTE2PA v) va alloc s
      else if \<not> alloc then (0, s)
      else case kalloc s of (p, s) \<Rightarrow>
        if p = 0 then (0, s)
        else
          let s = s\<lparr>pmem := memset p 0 (ucast PGSIZE) (pmem s)\<rparr>;
              s = s\<lparr>pmem := store64 pte (PA2PTE p OR PTE_V) (pmem s)\<rparr>
          in walk_loop l p va alloc s)"

definition walk :: "addr \<Rightarrow> addr \<Rightarrow> bool \<Rightarrow> phys \<Rightarrow> (addr \<times> phys) res" where
  "walk pagetable va alloc s =
     (if va \<ge> MAXVA then Inl (Panic ''walk'')
      else Inr (walk_loop 2 pagetable va alloc s))"

definition walkaddr :: "addr \<Rightarrow> addr \<Rightarrow> phys \<Rightarrow> addr res" where
  "walkaddr pagetable va s =
     (if va \<ge> MAXVA then Inr 0
      else rbind (walk pagetable va False s) (\<lambda>(pte, s).
        if pte = 0 then Inr 0
        else if load64 pte (pmem s) AND PTE_V = 0 then Inr 0
        else if load64 pte (pmem s) AND PTE_U = 0 then Inr 0
        else Inr (PTE2PA (load64 pte (pmem s)))))"

lemma walk_below_MAXVA: "walk pt va alloc s = Inr r \<Longrightarrow> va < MAXVA"
  by (auto simp: walk_def not_le split: if_splits)

lemma below_MAXVA_measure:
  "a < MAXVA \<Longrightarrow> unat (MAXVA + PGSIZE - (a + PGSIZE)) < unat (MAXVA + PGSIZE - a)"
  by (simp add: word_less_nat_alt unat_sub_if' unat_plus_if')

function mappages_loop ::
  "addr \<Rightarrow> addr \<Rightarrow> addr \<Rightarrow> addr \<Rightarrow> u64 \<Rightarrow> phys \<Rightarrow> (int \<times> phys) res" where
  "mappages_loop pagetable a la pa perm s =
     rbind (walk pagetable a True s) (\<lambda>(pte, s).
       if pte = 0 then Inr (-1, s)
       else if load64 pte (pmem s) AND PTE_V \<noteq> 0 then Inl (Panic ''mappages: remap'')
       else
         let s = s\<lparr>pmem := store64 pte (PA2PTE pa OR perm OR PTE_V) (pmem s)\<rparr> in
         if a = la then Inr (0, s)
         else mappages_loop pagetable (a + PGSIZE) la (pa + PGSIZE) perm s)"
  by pat_completeness auto
termination
  by (relation "measure (\<lambda>(pt, a, la, pa, perm, s). unat (MAXVA + PGSIZE - a))")
     (use below_MAXVA_measure walk_below_MAXVA in auto)

declare mappages_loop.simps [simp del]

definition mappages ::
  "addr \<Rightarrow> addr \<Rightarrow> u64 \<Rightarrow> addr \<Rightarrow> u64 \<Rightarrow> phys \<Rightarrow> (int \<times> phys) res" where
  "mappages pagetable va sz pa perm s =
     (if va mod PGSIZE \<noteq> 0 then Inl (Panic ''mappages: va not aligned'')
      else if sz mod PGSIZE \<noteq> 0 then Inl (Panic ''mappages: size not aligned'')
      else if sz = 0 then Inl (Panic ''mappages: size'')
      else mappages_loop pagetable va (va + sz - PGSIZE) pa perm s)"

definition kvmmap :: "addr \<Rightarrow> addr \<Rightarrow> addr \<Rightarrow> u64 \<Rightarrow> u64 \<Rightarrow> phys \<Rightarrow> phys res" where
  "kvmmap kpgtbl va pa sz perm s =
     rbind (mappages kpgtbl va sz pa perm s) (\<lambda>(r, s).
       if r \<noteq> 0 then Inl (Panic ''kvmmap'') else Inr s)"

text \<open>
  The kernel's page table. \<^verbatim>\<open>etext\<close> and \<^verbatim>\<open>trampoline\<close> are addresses that the linker
  provides. \<^verbatim>\<open>proc_mapstacks\<close> is in \<^verbatim>\<open>kernel/proc.c\<close>.
\<close>

definition proc_mapstacks :: "addr \<Rightarrow> phys \<Rightarrow> phys res" where
  "proc_mapstacks kpgtbl s =
     rfold (\<lambda>p s. case kalloc s of (pa, s) \<Rightarrow>
        if pa = 0 then Inl (Panic ''kalloc'')
        else kvmmap kpgtbl (KSTACK p) pa PGSIZE (PTE_R OR PTE_W) s) [0..<NPROC] s"

definition kvmmake :: "addr \<Rightarrow> addr \<Rightarrow> phys \<Rightarrow> (addr \<times> phys) res" where
  "kvmmake etext trampoline s =
     (case kalloc s of (kpgtbl, s) \<Rightarrow>
        let s = s\<lparr>pmem := memset kpgtbl 0 (ucast PGSIZE) (pmem s)\<rparr> in
        rbind (kvmmap kpgtbl UART0 UART0 PGSIZE (PTE_R OR PTE_W) s) (\<lambda>s.
        rbind (kvmmap kpgtbl VIRTIO0 VIRTIO0 PGSIZE (PTE_R OR PTE_W) s) (\<lambda>s.
        rbind (kvmmap kpgtbl PLIC PLIC 0x400000 (PTE_R OR PTE_W) s) (\<lambda>s.
        rbind (kvmmap kpgtbl KERNBASE KERNBASE (etext - KERNBASE) (PTE_R OR PTE_X) s) (\<lambda>s.
        rbind (kvmmap kpgtbl etext etext (PHYSTOP - etext) (PTE_R OR PTE_W) s) (\<lambda>s.
        rbind (kvmmap kpgtbl TRAMPOLINE trampoline PGSIZE (PTE_R OR PTE_X) s) (\<lambda>s.
        rbind (proc_mapstacks kpgtbl s) (\<lambda>s. Inr (kpgtbl, s)))))))))"

function uvmunmap_loop :: "addr \<Rightarrow> addr \<Rightarrow> addr \<Rightarrow> bool \<Rightarrow> phys \<Rightarrow> phys res" where
  "uvmunmap_loop pagetable a e do_free s =
     (if a < e then
        rbind (walk pagetable a False s) (\<lambda>(pte, s).
          if pte = 0 then Inl (Panic ''uvmunmap: walk'')
          else if load64 pte (pmem s) AND PTE_V = 0 then Inl (Panic ''uvmunmap: not mapped'')
          else if PTE_FLAGS (load64 pte (pmem s)) = PTE_V then Inl (Panic ''uvmunmap: not a leaf'')
          else
            rbind (if do_free then kfree (PTE2PA (load64 pte (pmem s))) s else Inr s) (\<lambda>s.
              uvmunmap_loop pagetable (a + PGSIZE) e do_free
                (s\<lparr>pmem := store64 pte 0 (pmem s)\<rparr>)))
      else Inr s)"
  by pat_completeness auto
termination
  by (relation "measure (\<lambda>(pt, a, e, do_free, s). unat (MAXVA + PGSIZE - a))")
     (use below_MAXVA_measure walk_below_MAXVA in auto)

declare uvmunmap_loop.simps [simp del]

definition uvmunmap :: "addr \<Rightarrow> addr \<Rightarrow> u64 \<Rightarrow> bool \<Rightarrow> phys \<Rightarrow> phys res" where
  "uvmunmap pagetable va npages do_free s =
     (if va mod PGSIZE \<noteq> 0 then Inl (Panic ''uvmunmap: not aligned'')
      else uvmunmap_loop pagetable va (va + npages * PGSIZE) do_free s)"

definition uvmcreate :: "phys \<Rightarrow> addr \<times> phys" where
  "uvmcreate s =
     (case kalloc s of (pagetable, s) \<Rightarrow>
        if pagetable = 0 then (0, s)
        else (pagetable, s\<lparr>pmem := memset pagetable 0 (ucast PGSIZE) (pmem s)\<rparr>))"

text \<open>
  \<^verbatim>\<open>uvmfirst\<close> checks neither \<open>kalloc\<close> nor \<open>mappages\<close>: it runs at boot. The source
  bytes are those of \<^verbatim>\<open>initcode\<close>.
\<close>

definition uvmfirst :: "addr \<Rightarrow> byte list \<Rightarrow> phys \<Rightarrow> phys res" where
  "uvmfirst pagetable src s =
     (if length src \<ge> unat PGSIZE then Inl (Panic ''uvmfirst: more than a page'')
      else case kalloc s of (mem, s) \<Rightarrow>
        let s = s\<lparr>pmem := memset mem 0 (ucast PGSIZE) (pmem s)\<rparr> in
        rbind (mappages pagetable 0 PGSIZE mem (PTE_W OR PTE_R OR PTE_X OR PTE_U) s) (\<lambda>(_, s).
          Inr (s\<lparr>pmem := store_bytes mem src (pmem s)\<rparr>)))"

section \<open>Growing, shrinking and freeing user memory\<close>

text \<open>\<^verbatim>\<open>int npages\<close>: the page count is truncated to 32 bits and sign-extended back.\<close>

definition uvmdealloc :: "addr \<Rightarrow> u64 \<Rightarrow> u64 \<Rightarrow> phys \<Rightarrow> (u64 \<times> phys) res" where
  "uvmdealloc pagetable oldsz newsz s =
     (if newsz \<ge> oldsz then Inr (oldsz, s)
      else if PGROUNDUP newsz < PGROUNDUP oldsz then
        let npages = (ucast ((PGROUNDUP oldsz - PGROUNDUP newsz) div PGSIZE) :: u32) in
        rbind (uvmunmap pagetable (PGROUNDUP newsz) (scast npages) True s) (\<lambda>s. Inr (newsz, s))
      else Inr (newsz, s))"

lemma mappages_below_MAXVA: "mappages pt va sz pa perm s = Inr r \<Longrightarrow> va < MAXVA"
  by (auto simp: mappages_def mappages_loop.simps [of pt va] rbind_eq_Inr
      dest!: walk_below_MAXVA split: if_splits)

function uvmalloc_loop ::
  "addr \<Rightarrow> u64 \<Rightarrow> u64 \<Rightarrow> u64 \<Rightarrow> u64 \<Rightarrow> phys \<Rightarrow> (u64 \<times> phys) res" where
  "uvmalloc_loop pagetable a oldsz newsz xperm s =
     (if a < newsz then
        case kalloc s of (mem, s) \<Rightarrow>
          if mem = 0 then
            rbind (uvmdealloc pagetable a oldsz s) (\<lambda>(_, s). Inr (0, s))
          else
            rbind (mappages pagetable a PGSIZE mem (PTE_R OR PTE_U OR xperm)
                     (s\<lparr>pmem := memset mem 0 (ucast PGSIZE) (pmem s)\<rparr>)) (\<lambda>(r, s).
              if r \<noteq> 0 then
                rbind (kfree mem s) (\<lambda>s.
                  rbind (uvmdealloc pagetable a oldsz s) (\<lambda>(_, s). Inr (0, s)))
              else uvmalloc_loop pagetable (a + PGSIZE) oldsz newsz xperm s)
      else Inr (newsz, s))"
  by pat_completeness auto
termination
  by (relation "measure (\<lambda>(pt, a, oldsz, newsz, xperm, s). unat (MAXVA + PGSIZE - a))")
     (use below_MAXVA_measure mappages_below_MAXVA in auto)

declare uvmalloc_loop.simps [simp del]

definition uvmalloc :: "addr \<Rightarrow> u64 \<Rightarrow> u64 \<Rightarrow> u64 \<Rightarrow> phys \<Rightarrow> (u64 \<times> phys) res" where
  "uvmalloc pagetable oldsz newsz xperm s =
     (if newsz < oldsz then Inr (oldsz, s)
      else uvmalloc_loop pagetable (PGROUNDUP oldsz) (PGROUNDUP oldsz) newsz xperm s)"

text \<open>
  \<^verbatim>\<open>freewalk\<close> recurses through the memory it reads; \<open>fuel\<close> bounds the depth of the
  recursion. Three levels are enough for a page table (\<open>freewalk_frees\<close> below).
\<close>

primrec freewalk :: "nat \<Rightarrow> addr \<Rightarrow> phys \<Rightarrow> phys res" where
  "freewalk 0 pagetable s = Inl Diverges"
| "freewalk (Suc fuel) pagetable s =
     rbind
       (rfold (\<lambda>i s.
          let slot = pagetable + 8 * of_nat i; pte = load64 slot (pmem s) in
          if pte AND PTE_V \<noteq> 0 \<and> pte AND (PTE_R OR PTE_W OR PTE_X) = 0 then
            rbind (freewalk fuel (PTE2PA pte) s) (\<lambda>s.
              Inr (s\<lparr>pmem := store64 slot 0 (pmem s)\<rparr>))
          else if pte AND PTE_V \<noteq> 0 then Inl (Panic ''freewalk: leaf'')
          else Inr s) [0..<512] s)
       (kfree pagetable)"

definition uvmfree :: "addr \<Rightarrow> u64 \<Rightarrow> phys \<Rightarrow> phys res" where
  "uvmfree pagetable sz s =
     rbind (if sz > 0 then uvmunmap pagetable 0 (PGROUNDUP sz div PGSIZE) True s else Inr s)
       (freewalk 3 pagetable)"

function uvmcopy_loop :: "addr \<Rightarrow> addr \<Rightarrow> u64 \<Rightarrow> u64 \<Rightarrow> phys \<Rightarrow> (int \<times> phys) res" where
  "uvmcopy_loop old new i sz s =
     (if i < sz then
        rbind (walk old i False s) (\<lambda>(pte, s).
          if pte = 0 then Inl (Panic ''uvmcopy: pte should exist'')
          else if load64 pte (pmem s) AND PTE_V = 0 then Inl (Panic ''uvmcopy: page not present'')
          else
            let pa = PTE2PA (load64 pte (pmem s)); flags = PTE_FLAGS (load64 pte (pmem s)) in
            case kalloc s of (mem, s) \<Rightarrow>
              if mem = 0 then
                rbind (uvmunmap new 0 (i div PGSIZE) True s) (\<lambda>s. Inr (-1, s))
              else
                rbind (mappages new i PGSIZE mem flags
                         (s\<lparr>pmem := memmove mem pa (ucast PGSIZE) (pmem s)\<rparr>)) (\<lambda>(r, s).
                  if r \<noteq> 0 then
                    rbind (kfree mem s) (\<lambda>s.
                      rbind (uvmunmap new 0 (i div PGSIZE) True s) (\<lambda>s. Inr (-1, s)))
                  else uvmcopy_loop old new (i + PGSIZE) sz s))
      else Inr (0, s))"
  by pat_completeness auto
termination
  by (relation "measure (\<lambda>(old, new, i, sz, s). unat (MAXVA + PGSIZE - i))")
     (use below_MAXVA_measure walk_below_MAXVA in auto)

declare uvmcopy_loop.simps [simp del]

definition uvmcopy :: "addr \<Rightarrow> addr \<Rightarrow> u64 \<Rightarrow> phys \<Rightarrow> (int \<times> phys) res" where
  "uvmcopy old new sz s = uvmcopy_loop old new 0 sz s"

definition uvmclear :: "addr \<Rightarrow> addr \<Rightarrow> phys \<Rightarrow> phys res" where
  "uvmclear pagetable va s =
     rbind (walk pagetable va False s) (\<lambda>(pte, s).
       if pte = 0 then Inl (Panic ''uvmclear'')
       else Inr (s\<lparr>pmem := store64 pte (load64 pte (pmem s) AND NOT PTE_U) (pmem s)\<rparr>))"

section \<open>Copying between kernel and user memory\<close>

text \<open>
  The number of bytes of a page from \<open>va\<close> to its end:
  \<^verbatim>\<open>PGSIZE - (va - PGROUNDDOWN(va))\<close>.
\<close>

lemma page_rest_pos: "0 < unat (PGSIZE - (va - PGROUNDDOWN va))"
proof -
  have "unat (va - PGROUNDDOWN va) < 4096"
    using in_page_iff [of "PGROUNDDOWN va" va] by (simp add: page_def)
  then show ?thesis by (simp add: unat_sub_if')
qed

text \<open>The kernel side of a copy is a list of bytes; its length is \<^verbatim>\<open>len\<close>.\<close>

function copyout :: "addr \<Rightarrow> addr \<Rightarrow> byte list \<Rightarrow> phys \<Rightarrow> (int \<times> phys) res" where
  "copyout pagetable dstva src s =
     (if src = [] then Inr (0, s)
      else
        let va0 = PGROUNDDOWN dstva in
        if va0 \<ge> MAXVA then Inr (-1, s)
        else
          rbind (walk pagetable va0 False s) (\<lambda>(pte, s).
            if pte = 0 \<or> load64 pte (pmem s) AND PTE_V = 0 \<or> load64 pte (pmem s) AND PTE_U = 0
               \<or> load64 pte (pmem s) AND PTE_W = 0
            then Inr (-1, s)
            else
              let pa0 = PTE2PA (load64 pte (pmem s));
                  n = min (unat (PGSIZE - (dstva - va0))) (length src)
              in copyout pagetable (va0 + PGSIZE) (drop n src)
                   (s\<lparr>pmem := store_bytes (pa0 + (dstva - va0)) (take n src) (pmem s)\<rparr>)))"
  by pat_completeness auto
termination
  by (relation "measure (\<lambda>(pt, dstva, src, s). length src)") (use page_rest_pos in auto)

declare copyout.simps [simp del]

text \<open>\<open>copyin\<close> returns the bytes it stored at \<^verbatim>\<open>dst\<close>, also when it fails midway.\<close>

function copyin :: "addr \<Rightarrow> addr \<Rightarrow> nat \<Rightarrow> phys \<Rightarrow> (int \<times> byte list) res" where
  "copyin pagetable srcva len s =
     (if len = 0 then Inr (0, [])
      else
        let va0 = PGROUNDDOWN srcva in
        rbind (walkaddr pagetable va0 s) (\<lambda>pa0.
          if pa0 = 0 then Inr (-1, [])
          else
            let n = min (unat (PGSIZE - (srcva - va0))) len in
            rbind (copyin pagetable (va0 + PGSIZE) (len - n) s) (\<lambda>(r, bs).
              Inr (r, load_bytes (pa0 + (srcva - va0)) n (pmem s) @ bs))))"
  by pat_completeness auto
termination
  by (relation "measure (\<lambda>(pt, srcva, len, s). len)") (use page_rest_pos in auto)

declare copyin.simps [simp del]

text \<open>
  The inner loop of \<^verbatim>\<open>copyinstr\<close>: at most \<open>n\<close> bytes from \<open>p\<close>; the bytes stored, and
  whether the NUL was found (and stored).
\<close>

fun copyinstr_page :: "addr \<Rightarrow> nat \<Rightarrow> memory \<Rightarrow> byte list \<times> bool" where
  "copyinstr_page p 0 m = ([], False)"
| "copyinstr_page p (Suc n) m =
     (if m p = 0 then ([0], True)
      else case copyinstr_page (p + 1) n m of (bs, got) \<Rightarrow> (m p # bs, got))"

function copyinstr :: "addr \<Rightarrow> addr \<Rightarrow> nat \<Rightarrow> phys \<Rightarrow> (int \<times> byte list) res" where
  "copyinstr pagetable srcva maxlen s =
     (if maxlen = 0 then Inr (-1, [])
      else
        let va0 = PGROUNDDOWN srcva in
        rbind (walkaddr pagetable va0 s) (\<lambda>pa0.
          if pa0 = 0 then Inr (-1, [])
          else
            let n = min (unat (PGSIZE - (srcva - va0))) maxlen in
            case copyinstr_page (pa0 + (srcva - va0)) n (pmem s) of (bs, got_null) \<Rightarrow>
              if got_null then Inr (0, bs)
              else rbind (copyinstr pagetable (va0 + PGSIZE) (maxlen - n) s) (\<lambda>(r, cs).
                Inr (r, bs @ cs))))"
  by pat_completeness auto
termination
  by (relation "measure (\<lambda>(pt, srcva, maxlen, s). maxlen)") (use page_rest_pos in auto)

declare copyinstr.simps [simp del]

end
