(* ===== verification/PageTable.thy ===== *)
theory PageTable
  imports Vm
begin

text \<open>
  The page tables that \<^verbatim>\<open>kernel/vm.c\<close> builds, as trees in physical memory: which pages a
  table is made of (\<open>ptpages\<close>), when the tree is well formed (\<open>pt_wf\<close>) and the abstraction
  \<open>pte_at\<close>, the leaf entry a virtual address translates through (0 for none). The operations
  of \<open>Vm\<close> are shown to be updates of this map.
\<close>

section \<open>Slots and entries\<close>

definition slot :: "addr \<Rightarrow> u64 \<Rightarrow> addr" where
  "slot pt i = pt + 8 * i"

definition valid :: "u64 \<Rightarrow> bool" where
  "valid v \<longleftrightarrow> v AND 1 \<noteq> 0"

lemma and_1_valid [simp]: "v AND 1 = 0 \<longleftrightarrow> \<not> valid v"
  by (simp add: valid_def)

lemma PX_bound [simp]: "unat (PX l va) < 512"
proof -
  have "PX l va = take_bit 9 (drop_bit (12 + 9 * l) va)"
    by (simp add: PX_def take_bit_eq_mask mask_eq_exp_minus_1)
  then show ?thesis by (simp add: take_bit_eq_mod unat_mod)
qed

lemma slot_page:
  assumes "4096 dvd unat pt" and "unat i < 512"
  shows "page (slot pt i) = pt"
proof -
  have "unat (slot pt i - pt) < 4096" using assms(2) by (simp add: slot_def unat_word_ariths)
  then show ?thesis using in_page_iff [OF assms(1)] by blast
qed

lemma slot_aligned:
  assumes "4096 dvd unat pt" and "unat i < 512"
  shows "8 dvd unat (slot pt i)"
proof -
  obtain k where k: "unat pt = 4096 * k" using assms(1) by (auto simp: dvd_def)
  have "unat (8 * i) = 8 * unat i" using assms(2) by (simp add: unat_word_ariths)
  moreover have "4096 * k + 8 * unat i < 2 ^ 64" using u64_bound [of pt] assms(2) k by simp
  ultimately have "unat (slot pt i) = 8 * (512 * k + unat i)"
    using k by (simp add: slot_def unat_word_ariths)
  then show ?thesis by simp
qed

lemma slot_inj:
  assumes "unat i < 512" and "unat j < 512"
  shows "slot pt i = slot pt j \<longleftrightarrow> i = j"
proof -
  have "unat (8 * i) = 8 * unat i" "unat (8 * j) = 8 * unat j"
    using assms by (simp_all add: unat_word_ariths)
  then show ?thesis by (auto simp: slot_def word_unat_eq_iff [of "8 * i"] word_unat_eq_iff [of i])
qed

lemma slot_nonzero: "4096 dvd unat pt \<Longrightarrow> pt \<noteq> 0 \<Longrightarrow> unat i < 512 \<Longrightarrow> slot pt i \<noteq> 0"
  using slot_page [of pt i] page_of_aligned [of 0] by (metis dvd_0_right unsigned_0)

lemma PTE2PA_PA2PTE:
  assumes "4096 dvd unat p" and "drop_bit 10 f = 0"
  shows "PTE2PA (PA2PTE p OR f) = p"
proof -
  have "PTE2PA (PA2PTE p OR f) = push_bit 12 (drop_bit 10 (push_bit 10 (drop_bit 12 p)))"
    using assms(2) by (simp add: PTE2PA_def PA2PTE_def drop_bit_or)
  also have "\<dots> = push_bit 12 (drop_bit 12 p)"
    by (rule bit_word_eqI) (auto simp: bit_simps dest: bit_imp_le_length)
  finally show ?thesis using aligned_PGROUNDDOWN [OF assms(1)] by (simp add: PGROUNDDOWN_alt)
qed

lemma PTE2PA_aligned [simp]: "4096 dvd unat (PTE2PA v)"
proof -
  have "PTE2PA v = PGROUNDDOWN (push_bit 12 (drop_bit 10 v))"
    unfolding PGROUNDDOWN_alt PTE2PA_def by (rule bit_word_eqI) (auto simp: bit_simps)
  then show ?thesis by simp
qed

lemma valid_odd: "valid v \<longleftrightarrow> odd v"
  by (simp add: valid_def and_one_eq odd_iff_mod_2_eq_one)

lemma valid_or_V [simp]: "valid (v OR 1)" "\<not> valid 0"
  by (simp_all add: valid_odd even_or_iff)

lemma PA2PTE_inner: "(PA2PTE p OR 1) AND 0xE = 0"
proof -
  have "(PA2PTE p OR 1) AND 0xE = (PA2PTE p AND 0xE) OR (1 AND 0xE)" by (rule bit.conj_disj_distrib2)
  also have "PA2PTE p AND 0xE = push_bit 10 (drop_bit 12 p) AND (mask 10 AND 0xE)"
    by (simp add: PA2PTE_def mask_eq_exp_minus_1)
  also have "\<dots> = (push_bit 10 (drop_bit 12 p) AND mask 10) AND 0xE" by (simp only: and.assoc)
  also have "push_bit 10 (drop_bit 12 p) AND mask 10 = 0"
    by (rule bit_word_eqI) (auto simp: bit_simps)
  finally show ?thesis by simp
qed

section \<open>The tree\<close>

text \<open>The valid entries of a page-table page, and the page each points to.\<close>

definition kids :: "memory \<Rightarrow> addr \<Rightarrow> u64 set" where
  "kids m pt = {i. unat i < 512 \<and> valid (load64 (slot pt i) m)}"

definition kid :: "memory \<Rightarrow> addr \<Rightarrow> u64 \<Rightarrow> addr" where
  "kid m pt i = PTE2PA (load64 (slot pt i) m)"

primrec ptpages :: "memory \<Rightarrow> nat \<Rightarrow> addr \<Rightarrow> addr set" where
  "ptpages m 0 pt = {pt}"
| "ptpages m (Suc l) pt = insert pt (\<Union>i\<in>kids m pt. ptpages m l (kid m pt i))"

primrec pt_wf :: "memory \<Rightarrow> nat \<Rightarrow> addr \<Rightarrow> bool" where
  "pt_wf m 0 pt \<longleftrightarrow> 4096 dvd unat pt \<and> pt \<noteq> 0"
| "pt_wf m (Suc l) pt \<longleftrightarrow> 4096 dvd unat pt \<and> pt \<noteq> 0
     \<and> (\<forall>i\<in>kids m pt. load64 (slot pt i) m AND 0xE = 0)
     \<and> (\<forall>i\<in>kids m pt. pt_wf m l (kid m pt i) \<and> pt \<notin> ptpages m l (kid m pt i))
     \<and> (\<forall>i\<in>kids m pt. \<forall>j\<in>kids m pt. i \<noteq> j \<longrightarrow>
          ptpages m l (kid m pt i) \<inter> ptpages m l (kid m pt j) = {})"

primrec leaf_addr :: "memory \<Rightarrow> nat \<Rightarrow> addr \<Rightarrow> addr \<Rightarrow> addr" where
  "leaf_addr m 0 pt va = slot pt (PX 0 va)"
| "leaf_addr m (Suc l) pt va =
     (let i = PX (Suc l) va in if i \<in> kids m pt then leaf_addr m l (kid m pt i) va else 0)"

primrec pte_at :: "memory \<Rightarrow> nat \<Rightarrow> addr \<Rightarrow> addr \<Rightarrow> u64" where
  "pte_at m 0 pt va = load64 (slot pt (PX 0 va)) m"
| "pte_at m (Suc l) pt va =
     (let i = PX (Suc l) va in if i \<in> kids m pt then pte_at m l (kid m pt i) va else 0)"

lemma pt_wf_root: "pt_wf m l pt \<Longrightarrow> 4096 dvd unat pt \<and> pt \<noteq> 0"
  by (cases l) auto

lemma root_in_ptpages [simp]: "pt \<in> ptpages m l pt"
  by (cases l) auto

lemma kid_ptpages: "i \<in> kids m pt \<Longrightarrow> ptpages m l (kid m pt i) \<subseteq> ptpages m (Suc l) pt"
  by auto

lemma PX_in_kids: "PX l va \<in> kids m pt \<longleftrightarrow> valid (load64 (slot pt (PX l va)) m)"
  by (simp add: kids_def)

lemma walk_loop_ro: "walk_loop l pt va False s = (leaf_addr (pmem s) l pt va, s)"
  by (induction l arbitrary: pt) (auto simp: Let_def slot_def kids_def kid_def)

lemma leaf_addr_props:
  "pt_wf m l pt \<Longrightarrow> leaf_addr m l pt va \<noteq> 0 \<Longrightarrow>
   8 dvd unat (leaf_addr m l pt va) \<and> page (leaf_addr m l pt va) \<in> ptpages m l pt
   \<and> load64 (leaf_addr m l pt va) m = pte_at m l pt va"
proof (induction l arbitrary: pt)
  case 0
  then show ?case by (simp add: slot_aligned slot_page)
next
  case (Suc l)
  let ?i = "PX (Suc l) va"
  have v: "?i \<in> kids m pt" "pt_wf m l (kid m pt ?i)" "leaf_addr m l (kid m pt ?i) va \<noteq> 0"
    using Suc.prems by (auto simp: Let_def split: if_splits)
  from Suc.IH [OF v(2,3)] v(1) kid_ptpages [OF v(1), of l] show ?case
    by (simp add: Let_def subset_iff)
qed

lemma leaf_addr_0: "pt_wf m l pt \<Longrightarrow> leaf_addr m l pt va = 0 \<Longrightarrow> pte_at m l pt va = 0"
  by (induction l arbitrary: pt) (auto simp: Let_def slot_nonzero split: if_splits)

lemma slots_cong:
  assumes "4096 dvd unat pt" and "\<And>x. page x = pt \<Longrightarrow> m' x = m x" and "unat i < 512"
  shows "load64 (slot pt i) m' = load64 (slot pt i) m"
  using assms by (intro load64_cong_page) (auto simp: slot_aligned slot_page)

lemma kids_cong:
  assumes "4096 dvd unat pt" and "\<And>x. page x = pt \<Longrightarrow> m' x = m x"
  shows "kids m' pt = kids m pt" and "i \<in> kids m pt \<Longrightarrow> kid m' pt i = kid m pt i"
    and "i \<in> kids m pt \<Longrightarrow> load64 (slot pt i) m' = load64 (slot pt i) m"
  using slots_cong [OF assms] by (auto simp: kids_def kid_def)

text \<open>Memory outside the pages of the table does not matter.\<close>

lemma pt_cong:
  "pt_wf m l pt \<Longrightarrow> (\<And>x. page x \<in> ptpages m l pt \<Longrightarrow> m' x = m x) \<Longrightarrow>
   ptpages m' l pt = ptpages m l pt \<and> pt_wf m' l pt
   \<and> leaf_addr m' l pt = leaf_addr m l pt \<and> pte_at m' l pt = pte_at m l pt"
proof (induction l arbitrary: pt)
  case 0
  then have "load64 (slot pt i) m' = load64 (slot pt i) m" if "unat i < 512" for i
    using that by (intro slots_cong) auto
  with 0 show ?case by (simp add: fun_eq_iff)
next
  case (Suc l)
  have k: "kids m' pt = kids m pt" "\<And>i. i \<in> kids m pt \<Longrightarrow> kid m' pt i = kid m pt i"
      "\<And>i. i \<in> kids m pt \<Longrightarrow> load64 (slot pt i) m' = load64 (slot pt i) m"
    using Suc.prems by (auto intro!: kids_cong)
  have c: "ptpages m' l (kid m pt i) = ptpages m l (kid m pt i) \<and> pt_wf m' l (kid m pt i)
      \<and> leaf_addr m' l (kid m pt i) = leaf_addr m l (kid m pt i)
      \<and> pte_at m' l (kid m pt i) = pte_at m l (kid m pt i)" if "i \<in> kids m pt" for i
    using that Suc.prems by (intro Suc.IH) auto
  have "ptpages m' (Suc l) pt = ptpages m (Suc l) pt" using k c by auto
  moreover have "pt_wf m' (Suc l) pt" using k c Suc.prems(1) by simp
  moreover have "leaf_addr m' (Suc l) pt = leaf_addr m (Suc l) pt"
      "pte_at m' (Suc l) pt = pte_at m (Suc l) pt"
    using k c by (auto simp: fun_eq_iff Let_def)
  ultimately show ?case by blast
qed

section \<open>Changing one subtree\<close>

text \<open>
  A change of memory confined to the subtree below one entry, which stays well formed and
  may grow by pages the rest of the table does not use.
\<close>

lemma pt_subtree:
  assumes wf: "pt_wf m (Suc l) pt" and i: "i \<in> kids m pt"
    and sub: "pt_wf m' l (kid m pt i)" "ptpages m' l (kid m pt i) = ptpages m l (kid m pt i) \<union> N"
    and N: "N \<inter> ptpages m (Suc l) pt = {}"
    and out: "\<forall>x. page x \<notin> ptpages m l (kid m pt i) \<union> N \<longrightarrow> m' x = m x"
  shows "pt_wf m' (Suc l) pt" and "ptpages m' (Suc l) pt = ptpages m (Suc l) pt \<union> N"
    and "leaf_addr m' (Suc l) pt va = (if PX (Suc l) va = i then leaf_addr m' l (kid m pt i) va
           else leaf_addr m (Suc l) pt va)"
    and "pte_at m' (Suc l) pt va = (if PX (Suc l) va = i then pte_at m' l (kid m pt i) va
           else pte_at m (Suc l) pt va)"
proof -
  have pt: "pt \<notin> ptpages m l (kid m pt i) \<union> N" using wf i N by auto
  then have k: "kids m' pt = kids m pt" "\<And>j. j \<in> kids m pt \<Longrightarrow> kid m' pt j = kid m pt j"
      "\<And>j. j \<in> kids m pt \<Longrightarrow> load64 (slot pt j) m' = load64 (slot pt j) m"
    using wf out by (auto intro!: kids_cong)
  have c: "ptpages m' l (kid m pt j) = ptpages m l (kid m pt j) \<and> pt_wf m' l (kid m pt j)
      \<and> leaf_addr m' l (kid m pt j) = leaf_addr m l (kid m pt j)
      \<and> pte_at m' l (kid m pt j) = pte_at m l (kid m pt j)" if "j \<in> kids m pt" "j \<noteq> i" for j
  proof (rule pt_cong)
    show "pt_wf m l (kid m pt j)" using wf that by simp
    fix x assume x: "page x \<in> ptpages m l (kid m pt j)"
    have "ptpages m l (kid m pt j) \<inter> ptpages m l (kid m pt i) = {}" using wf that i by simp
    moreover have "ptpages m l (kid m pt j) \<inter> N = {}"
      using N kid_ptpages [OF that(1), of l] by blast
    ultimately show "m' x = m x" using x out by blast
  qed
  have s: "ptpages m' l (kid m pt j) \<subseteq> ptpages m l (kid m pt j) \<union> N" if "j \<in> kids m pt" for j
    using c [OF that] sub(2) by (cases "j = i") auto
  have "ptpages m (Suc l) pt \<subseteq> ptpages m' (Suc l) pt" using k c sub(2) by fastforce
  moreover have "N \<subseteq> ptpages m' (Suc l) pt" using k(1) k(2) [OF i] sub(2) i by auto
  moreover have "ptpages m' (Suc l) pt \<subseteq> ptpages m (Suc l) pt \<union> N" using k s by fastforce
  ultimately show "ptpages m' (Suc l) pt = ptpages m (Suc l) pt \<union> N" by blast
  have d: "ptpages m' l (kid m pt j) \<inter> ptpages m' l (kid m pt j') = {}"
    if "j \<in> kids m pt" "j' \<in> kids m pt" "j \<noteq> j'" for j j'
  proof -
    have "ptpages m l (kid m pt j) \<inter> ptpages m l (kid m pt j') = {}" using wf that by simp
    moreover have "N \<inter> ptpages m l (kid m pt j) = {}" "N \<inter> ptpages m l (kid m pt j') = {}"
      using N kid_ptpages [of _ m pt l] that by blast+
    moreover have "j \<noteq> i \<or> j' \<noteq> i" using that by blast
    ultimately show ?thesis using c [OF that(1)] c [OF that(2)] s [OF that(1)] s [OF that(2)] by blast
  qed
  have p: "pt_wf m' l (kid m pt j) \<and> pt \<notin> ptpages m' l (kid m pt j)" if "j \<in> kids m pt" for j
  proof -
    have "pt \<notin> ptpages m l (kid m pt j)" using wf that by simp
    then show ?thesis using c [OF that] sub pt by (cases "j = i") auto
  qed
  show "pt_wf m' (Suc l) pt" using wf k d p by simp
  show "leaf_addr m' (Suc l) pt va = (if PX (Suc l) va = i then leaf_addr m' l (kid m pt i) va
      else leaf_addr m (Suc l) pt va)"
    and "pte_at m' (Suc l) pt va = (if PX (Suc l) va = i then pte_at m' l (kid m pt i) va
      else pte_at m (Suc l) pt va)"
    using k c i by (auto simp: Let_def)
qed

lemma pt_store_leaf:
  "pt_wf m l pt \<Longrightarrow> leaf_addr m l pt va = a \<Longrightarrow> a \<noteq> 0 \<Longrightarrow>
   pt_wf (store64 a v m) l pt \<and> ptpages (store64 a v m) l pt = ptpages m l pt
   \<and> leaf_addr (store64 a v m) l pt = leaf_addr m l pt
   \<and> (\<forall>va'. pte_at (store64 a v m) l pt va' =
        (if \<forall>k\<le>l. PX k va' = PX k va then v else pte_at m l pt va'))"
proof (induction l arbitrary: pt)
  case 0
  then have "load64 (slot pt (PX 0 va')) (store64 a v m) =
      (if PX 0 va' = PX 0 va then v else load64 (slot pt (PX 0 va')) m)" for va'
    by (auto simp: slot_aligned slot_inj intro!: load64_store64_other)
  with 0 show ?case by (simp add: fun_eq_iff)
next
  case (Suc l)
  let ?i = "PX (Suc l) va" and ?m' = "store64 a v m"
  have i: "?i \<in> kids m pt" and w: "pt_wf m l (kid m pt ?i)" and a: "leaf_addr m l (kid m pt ?i) va = a"
    using Suc.prems by (auto simp: Let_def split: if_splits)
  note IH = Suc.IH [OF w a Suc.prems(3)]
  have "8 dvd unat a" "page a \<in> ptpages m l (kid m pt ?i)"
    using leaf_addr_props [OF w, of va] a Suc.prems(3) by auto
  then have out: "\<forall>x. page x \<notin> ptpages m l (kid m pt ?i) \<union> {} \<longrightarrow> ?m' x = m x"
    by (auto intro: store64_other_page)
  have s: "pt_wf ?m' l (kid m pt ?i)"
      "ptpages ?m' l (kid m pt ?i) = ptpages m l (kid m pt ?i) \<union> {}" using IH by simp_all
  note sub = pt_subtree [where m' = ?m' and N = "{}", OF Suc.prems(1) i s Int_empty_left out]
  have "pt_wf ?m' (Suc l) pt" "ptpages ?m' (Suc l) pt = ptpages m (Suc l) pt"
    using sub(1,2) by auto
  moreover have "leaf_addr ?m' (Suc l) pt va' = leaf_addr m (Suc l) pt va'" for va'
    using sub(3) [of va'] IH i by (simp add: Let_def)
  moreover have "pte_at ?m' (Suc l) pt va' =
      (if \<forall>k\<le>Suc l. PX k va' = PX k va then v else pte_at m (Suc l) pt va')" for va'
    using sub(4) [of va'] IH i by (auto simp: Let_def le_Suc_eq)
  ultimately show ?case by blast
qed

lemma pt_zero_page:
  assumes "4096 dvd unat p" and "p \<noteq> 0" and "\<And>x. page x = p \<Longrightarrow> m x = 0"
  shows "pt_wf m l p \<and> ptpages m l p = {p} \<and> pte_at m l p va = 0"
proof -
  have "load64 (slot p i) m = 0" if i: "unat i < 512" for i
  proof -
    have "load64 (slot p i) m = load64 (slot p i) (memset p 0 4096 m)"
      using assms i by (intro slots_cong) (simp_all add: memset_page_in)
    then show ?thesis using assms i by (simp add: load64_memset_zero slot_aligned slot_page)
  qed
  then have "kids m p = {}" "\<And>va. load64 (slot p (PX 0 va)) m = 0" by (auto simp: kids_def)
  then show ?thesis using assms(1,2) by (cases l) (simp_all add: Let_def)
qed

lemma pt_new_child:
  assumes wf: "pt_wf m (Suc l) pt" and i: "unat i < 512" "i \<notin> kids m pt"
    and p: "4096 dvd unat p" "p \<noteq> 0" "p \<notin> ptpages m (Suc l) pt"
    and v: "load64 (slot pt i) m' = PA2PTE p OR 1"
    and z: "\<And>x. page x = p \<Longrightarrow> m' x = 0"
    and out: "\<And>x. page x \<noteq> pt \<Longrightarrow> page x \<noteq> p \<Longrightarrow> m' x = m x"
    and slots: "\<And>j. unat j < 512 \<Longrightarrow> j \<noteq> i \<Longrightarrow> load64 (slot pt j) m' = load64 (slot pt j) m"
  shows "pt_wf m' (Suc l) pt" and "ptpages m' (Suc l) pt = insert p (ptpages m (Suc l) pt)"
    and "pte_at m' (Suc l) pt = pte_at m (Suc l) pt" and "i \<in> kids m' pt" and "kid m' pt i = p"
proof -
  have "drop_bit 10 (1 :: u64) = 0" by (simp add: drop_bit_eq_div)
  then have pi: "kid m' pt i = p" using v PTE2PA_PA2PTE [OF p(1), of 1] by (simp add: kid_def)
  have "j \<in> kids m' pt \<longleftrightarrow> j \<in> insert i (kids m pt)" for j
    using v slots [of j] i by (cases "j = i") (auto simp: kids_def)
  then have k: "kids m' pt = insert i (kids m pt)" by blast
  have kj: "kid m' pt j = kid m pt j" if "j \<in> kids m pt" for j
    using that i slots [of j] by (cases "j = i") (auto simp: kids_def kid_def)
  have c: "ptpages m' l (kid m pt j) = ptpages m l (kid m pt j) \<and> pt_wf m' l (kid m pt j)
      \<and> leaf_addr m' l (kid m pt j) = leaf_addr m l (kid m pt j)
      \<and> pte_at m' l (kid m pt j) = pte_at m l (kid m pt j)" if "j \<in> kids m pt" for j
  proof (rule pt_cong)
    show "pt_wf m l (kid m pt j)" using wf that by simp
    fix x assume "page x \<in> ptpages m l (kid m pt j)"
    moreover have "pt \<notin> ptpages m l (kid m pt j)" using wf that by simp
    moreover have "p \<notin> ptpages m l (kid m pt j)" using p(3) kid_ptpages [OF that, of l] by auto
    ultimately show "m' x = m x" by (intro out) auto
  qed
  have zero: "pt_wf m' l p" "ptpages m' l p = {p}" "\<And>va. pte_at m' l p va = 0"
    using pt_zero_page [of p m' l] p z by auto
  show "i \<in> kids m' pt" "kid m' pt i = p" using k pi by auto
  show "ptpages m' (Suc l) pt = insert p (ptpages m (Suc l) pt)"
    using k kj c pi zero by auto
  have "pt \<noteq> p" using p(3) by auto
  have np: "p \<notin> ptpages m l (kid m pt j)" if "j \<in> kids m pt" for j
    using p(3) kid_ptpages [OF that, of l] by auto
  have pj: "ptpages m' l (kid m' pt j) = (if j = i then {p} else ptpages m l (kid m pt j))"
    and wj: "pt_wf m' l (kid m' pt j)" if "j \<in> kids m' pt" for j
    using that k kj [of j] c [of j] pi zero by auto
  have "\<forall>j\<in>kids m' pt. pt_wf m' l (kid m' pt j) \<and> pt \<notin> ptpages m' l (kid m' pt j)"
    using wf k wj pj \<open>pt \<noteq> p\<close> by simp
  moreover have "\<forall>j\<in>kids m' pt. \<forall>j'\<in>kids m' pt. j \<noteq> j' \<longrightarrow>
      ptpages m' l (kid m' pt j) \<inter> ptpages m' l (kid m' pt j') = {}"
    using wf k pj np by simp
  moreover have "load64 (slot pt j) m' AND 0xE = 0" if j: "j \<in> kids m' pt" for j
  proof (cases "j = i")
    case False
    then have "j \<in> kids m pt" "unat j < 512" using j k by (auto simp: kids_def)
    then show ?thesis using wf slots [of j] False by simp
  qed (simp add: v PA2PTE_inner)
  ultimately show "pt_wf m' (Suc l) pt" using wf by simp
  show "pte_at m' (Suc l) pt = pte_at m (Suc l) pt"
    using k kj c pi zero i by (auto simp: fun_eq_iff Let_def)
qed

section \<open>Walking\<close>

lemma free_pages_cong:
  assumes "free_pages s ps" and "\<And>x. page x \<in> set ps \<Longrightarrow> pmem s' x = pmem s x"
    and "freelist s' = freelist s" and "kend s' = kend s"
  shows "free_pages s' ps"
proof -
  have "chain (pmem s') (freelist s) ps"
    by (rule chain_cong [of ps "pmem s"])
       (use assms in \<open>auto simp: free_pages_def usable_page_def\<close>)
  then show ?thesis using assms by (auto simp: free_pages_def usable_page_def)
qed

text \<open>\<open>table s pt ps\<close>: \<open>pt\<close> is a page table and \<open>ps\<close>, disjoint from it, the free pages.\<close>

definition sub_table :: "phys \<Rightarrow> nat \<Rightarrow> addr \<Rightarrow> addr list \<Rightarrow> bool" where
  "sub_table s l pt ps \<longleftrightarrow>
     pt_wf (pmem s) l pt \<and> free_pages s ps \<and> set ps \<inter> ptpages (pmem s) l pt = {}"

definition walk_post :: "phys \<Rightarrow> nat \<Rightarrow> addr \<Rightarrow> addr list \<Rightarrow> addr \<Rightarrow> addr \<Rightarrow> phys \<Rightarrow> nat \<Rightarrow> bool" where
  "walk_post s l pt ps va a s' n \<longleftrightarrow>
     n \<le> l \<and> sub_table s' l pt (drop n ps) \<and> kend s' = kend s
     \<and> ptpages (pmem s') l pt = ptpages (pmem s) l pt \<union> set (take n ps)
     \<and> (\<forall>x. page x \<notin> ptpages (pmem s) l pt \<union> set (take n ps) \<longrightarrow> pmem s' x = pmem s x)
     \<and> pte_at (pmem s') l pt = pte_at (pmem s) l pt
     \<and> leaf_addr (pmem s') l pt va = a \<and> (a = 0 \<longrightarrow> drop n ps = [])"

lemma walk_post_lift:
  assumes t: "sub_table s (Suc l) pt ps" and i: "PX (Suc l) va \<in> kids (pmem s) pt"
    and w: "walk_post s l (kid (pmem s) pt (PX (Suc l) va)) ps va a s' n"
  shows "walk_post s (Suc l) pt ps va a s' n"
proof -
  let ?m = "pmem s" and ?m' = "pmem s'" and ?i = "PX (Suc l) va" and ?N = "set (take n ps)"
  have wf: "pt_wf ?m (Suc l) pt" and d: "set ps \<inter> ptpages ?m (Suc l) pt = {}" "distinct ps"
    using t by (auto simp: sub_table_def free_pages_def)
  have N: "?N \<inter> ptpages ?m (Suc l) pt = {}" using d(1) set_take_subset [of n ps] by blast
  note w = w [unfolded walk_post_def sub_table_def]
  have out: "\<forall>x. page x \<notin> ptpages ?m l (kid ?m pt ?i) \<union> ?N \<longrightarrow> ?m' x = ?m x"
    using w by blast
  have s: "pt_wf ?m' l (kid ?m pt ?i)"
      "ptpages ?m' l (kid ?m pt ?i) = ptpages ?m l (kid ?m pt ?i) \<union> ?N" using w by blast+
  note sub = pt_subtree [where m' = ?m' and N = ?N, OF wf i s N out]
  have "set (take n ps) \<inter> set (drop n ps) = {}"
    using d(2) by (rule set_take_disj_set_drop_if_distinct) simp
  moreover have "set (drop n ps) \<inter> ptpages ?m (Suc l) pt = {}"
    using d(1) set_drop_subset [of n ps] by blast
  ultimately have "set (drop n ps) \<inter> ptpages ?m' (Suc l) pt = {}"
    by (simp only: sub(2) Int_Un_distrib Int_commute Un_empty_left)
  then have "sub_table s' (Suc l) pt (drop n ps)" using w sub(1) by (simp add: sub_table_def)
  moreover have "pte_at ?m' (Suc l) pt = pte_at ?m (Suc l) pt"
  proof
    fix va'
    have "pte_at ?m' l (kid ?m pt ?i) va' = pte_at ?m l (kid ?m pt ?i) va'" using w by simp
    then show "pte_at ?m' (Suc l) pt va' = pte_at ?m (Suc l) pt va'"
      using sub(4) [of va'] i by (simp add: Let_def)
  qed
  moreover have "leaf_addr ?m' (Suc l) pt va = a" using sub(3) [of va] w by simp
  moreover have "\<forall>x. page x \<notin> ptpages ?m (Suc l) pt \<union> ?N \<longrightarrow> ?m' x = ?m x"
    using out kid_ptpages [OF i, of l] by blast
  ultimately show ?thesis using w sub(2) by (simp add: walk_post_def)
qed

text \<open>The step of \<^verbatim>\<open>walk\<close> that adds a page-table page.\<close>

lemma walk_new_page:
  assumes t: "sub_table s (Suc l) pt (p # qs)" and i: "unat i < 512" "i \<notin> kids (pmem s) pt"
    and k: "kalloc s = (p, s1)"
    and m': "m' = store64 (slot pt i) (PA2PTE p OR 1) (memset p 0 4096 (pmem s1))"
  shows "sub_table (s1\<lparr>pmem := m'\<rparr>) (Suc l) pt qs" and "kend s1 = kend s"
    and "ptpages m' (Suc l) pt = insert p (ptpages (pmem s) (Suc l) pt)"
    and "pte_at m' (Suc l) pt = pte_at (pmem s) (Suc l) pt" and "i \<in> kids m' pt" and "kid m' pt i = p"
    and "page x \<notin> insert p (ptpages (pmem s) (Suc l) pt) \<Longrightarrow> m' x = pmem s x"
proof -
  let ?m = "pmem s"
  have wf: "pt_wf ?m (Suc l) pt" and fp: "free_pages s (p # qs)"
    and d: "set (p # qs) \<inter> ptpages ?m (Suc l) pt = {}" using t by (auto simp: sub_table_def)
  have s1: "free_pages s1 qs" "kend s1 = kend s" "\<And>x. pmem s1 x = (if page x = p then 5 else ?m x)"
    using kalloc_free_pages [OF fp] k by auto
  have al: "4096 dvd unat pt" using wf by simp
  have p: "4096 dvd unat p" "p \<noteq> 0" "p \<notin> ptpages ?m (Suc l) pt"
    using fp d by (auto simp: free_pages_def usable_page_def)
  have "p \<noteq> pt" using p(3) by auto
  have sl: "8 dvd unat (slot pt i)" "page (slot pt i) = pt"
    using slot_aligned [OF al i(1)] slot_page [OF al i(1)] by auto
  have z: "m' x = 0" if "page x = p" for x
    using that sl p \<open>p \<noteq> pt\<close> by (simp add: m' store64_other_page memset_page_in)
  have out: "m' x = ?m x" if "page x \<noteq> pt" "page x \<noteq> p" for x
    using that sl p by (simp add: m' store64_other_page memset_page_out s1(3))
  have pt: "memset p 0 4096 (pmem s1) x = ?m x" if "page x = pt" for x
    using that p \<open>p \<noteq> pt\<close> by (simp add: memset_page_out s1(3))
  have slots: "load64 (slot pt j) m' = load64 (slot pt j) ?m" if "unat j < 512" "j \<noteq> i" for j
  proof -
    have "load64 (slot pt j) m' = load64 (slot pt j) (memset p 0 4096 (pmem s1))"
      using that sl slot_aligned [OF al that(1)] i(1) by (simp add: m' load64_store64_other slot_inj)
    also have "\<dots> = load64 (slot pt j) ?m" by (rule slots_cong [OF al pt that(1)])
    finally show ?thesis .
  qed
  have v: "load64 (slot pt i) m' = PA2PTE p OR 1" by (simp add: m')
  note n = pt_new_child [where m' = m', OF wf i p v z out slots]
  show "kend s1 = kend s" "ptpages m' (Suc l) pt = insert p (ptpages ?m (Suc l) pt)"
    "pte_at m' (Suc l) pt = pte_at ?m (Suc l) pt" "i \<in> kids m' pt" "kid m' pt i = p"
    using s1(2) n(2-5) by blast+
  show "page x \<notin> insert p (ptpages ?m (Suc l) pt) \<Longrightarrow> m' x = ?m x" using out by auto
  have "free_pages (s1\<lparr>pmem := m'\<rparr>) qs"
  proof (rule free_pages_cong [OF s1(1)])
    fix x assume x: "page x \<in> set qs"
    have "page x \<noteq> pt" "page x \<noteq> p" using x d fp by (auto simp: free_pages_def)
    then show "pmem (s1\<lparr>pmem := m'\<rparr>) x = pmem s1 x" using out s1(3) by simp
  qed simp_all
  then show "sub_table (s1\<lparr>pmem := m'\<rparr>) (Suc l) pt qs"
    using n(1,2) d fp by (auto simp: sub_table_def free_pages_def)
qed

lemma walk_loop_alloc:
  "sub_table s l pt ps \<Longrightarrow> \<exists>a s' n. walk_loop l pt va True s = (a, s') \<and> walk_post s l pt ps va a s' n"
proof (induction l arbitrary: pt s ps)
  case 0
  have "walk_post s 0 pt ps va (slot pt (PX 0 va)) s 0"
    using 0 by (auto simp: walk_post_def sub_table_def slot_nonzero)
  then show ?case by (auto simp: slot_def)
next
  case (Suc l)
  let ?i = "PX (Suc l) va" and ?m = "pmem s"
  have wf: "pt_wf ?m (Suc l) pt" and fp: "free_pages s ps"
    and d: "set ps \<inter> ptpages ?m (Suc l) pt = {}" using Suc.prems by (auto simp: sub_table_def)
  show ?case
  proof (cases "?i \<in> kids ?m pt")
    case True
    have "set ps \<inter> ptpages ?m l (kid ?m pt ?i) = {}" using d kid_ptpages [OF True, of l] by blast
    then have "sub_table s l (kid ?m pt ?i) ps" using wf fp True by (simp add: sub_table_def)
    from Suc.IH [OF this] obtain a s' n where
      "walk_loop l (kid ?m pt ?i) va True s = (a, s')" "walk_post s l (kid ?m pt ?i) ps va a s' n"
      by blast
    moreover from this(2) have "walk_post s (Suc l) pt ps va a s' n"
      by (rule walk_post_lift [OF Suc.prems True])
    ultimately show ?thesis using True by (auto simp: kid_def kids_def slot_def)
  next
    case False
    then have nv: "\<not> valid (load64 (slot pt ?i) ?m)" by (simp add: PX_in_kids)
    show ?thesis
    proof (cases ps)
      case Nil
      then have "kalloc s = (0, s)" using fp kalloc_no_pages by simp
      then have "walk_loop (Suc l) pt va True s = (0, s)" using nv by (simp add: slot_def)
      moreover have "walk_post s (Suc l) pt ps va 0 s 0"
        using Suc.prems False Nil by (simp add: walk_post_def)
      ultimately show ?thesis by blast
    next
      case (Cons p qs)
      obtain s1 where k: "kalloc s = (p, s1)" using kalloc_free_pages fp Cons by blast
      define m' where m': "m' = store64 (slot pt ?i) (PA2PTE p OR 1) (memset p 0 4096 (pmem s1))"
      let ?s = "s1\<lparr>pmem := m'\<rparr>"
      note new = walk_new_page [OF Suc.prems [unfolded Cons] PX_bound False k m']
      have "ptpages m' l p \<subseteq> ptpages m' (Suc l) pt" "pt_wf m' l p"
        using kid_ptpages [OF new(5), of l] new(1,5,6) by (auto simp: sub_table_def)
      then have "sub_table ?s l p qs" using new(1) by (auto simp: sub_table_def)
      from Suc.IH [OF this] obtain a s' n where
        r: "walk_loop l p va True ?s = (a, s')" and w: "walk_post ?s l p qs va a s' n"
        by blast
      have "walk_post ?s (Suc l) pt qs va a s' n"
        using walk_post_lift [OF new(1), of va a s' n] new(5,6) w by simp
      moreover have "n \<le> l" using w by (simp add: walk_post_def)
      ultimately have "walk_post s (Suc l) pt ps va a s' (Suc n)"
        using new(2,3,4,7) unfolding walk_post_def Cons by (simp del: ptpages.simps pte_at.simps leaf_addr.simps)
      moreover have "p \<noteq> 0" using fp Cons by (auto simp: free_pages_def usable_page_def)
      then have "walk_loop (Suc l) pt va True s = (a, s')"
        using nv k r by (simp add: m' slot_def)
      ultimately show ?thesis by blast
    qed
  qed
qed

section \<open>Mapping pages\<close>

abbreviation table :: "phys \<Rightarrow> addr \<Rightarrow> addr list \<Rightarrow> bool" where
  "table s pt ps \<equiv> sub_table s 2 pt ps"

abbreviation tpages :: "phys \<Rightarrow> addr \<Rightarrow> addr set" where
  "tpages s pt \<equiv> ptpages (pmem s) 2 pt"

abbreviation pte_of :: "phys \<Rightarrow> addr \<Rightarrow> addr \<Rightarrow> u64" where
  "pte_of s pt va \<equiv> pte_at (pmem s) 2 pt va"

text \<open>Sv39 translates 39 bits of the address; the kernel uses 38 of them.\<close>

definition sv39 :: "addr \<Rightarrow> bool" where
  "sv39 va \<longleftrightarrow> unat va < 2 ^ 39"

lemma MAXVA_sv39: "va < MAXVA \<Longrightarrow> sv39 va"
  by (simp add: sv39_def word_less_nat_alt)

lemma unat_PX: "unat (PX k va) = unat va div 2 ^ (12 + 9 * k) mod 512"
proof -
  have "PX k va = take_bit 9 (drop_bit (12 + 9 * k) va)"
    by (simp add: PX_def take_bit_eq_mask mask_eq_exp_minus_1)
  then have "unat (PX k va) = take_bit 9 (drop_bit (12 + 9 * k) (unat va))"
    by (simp only: unsigned_take_bit_eq unat_drop_bit_eq)
  then show ?thesis by (simp only: take_bit_eq_mod drop_bit_eq_div) simp
qed

lemma same_PX_iff:
  assumes "sv39 va" and "sv39 va'"
  shows "(\<forall>k\<le>2. PX k va' = PX k va) \<longleftrightarrow> page va' = page va"
proof -
  define x where "x = unat va div 4096"
  define y where "y = unat va' div 4096"
  have b: "x < 512 * 512 * 512" "y < 512 * 512 * 512" using assms by (auto simp: x_def y_def sv39_def)
  have e: "unat (PX 0 va) = x mod 512" "unat (PX (Suc 0) va) = x div 512 mod 512"
      "unat (PX 2 va) = x div 512 div 512" "unat (PX 0 va') = y mod 512"
      "unat (PX (Suc 0) va') = y div 512 mod 512" "unat (PX 2 va') = y div 512 div 512"
    using b by (simp_all add: unat_PX x_def y_def div_mult2_eq [symmetric])
  have "(\<forall>k\<le>2. PX k va' = PX k va) \<longleftrightarrow>
      PX 0 va' = PX 0 va \<and> PX (Suc 0) va' = PX (Suc 0) va \<and> PX 2 va' = PX 2 va"
    by (auto simp: le_Suc_eq numeral_2_eq_2)
  also have "\<dots> \<longleftrightarrow> y mod 512 = x mod 512 \<and> y div 512 mod 512 = x div 512 mod 512
      \<and> y div 512 div 512 = x div 512 div 512"
    by (simp add: word_unat_eq_iff e)
  also have "\<dots> \<longleftrightarrow> y = x" by (metis div_mult_mod_eq)
  finally show ?thesis by (simp add: page_eq_iff x_def y_def)
qed

lemma walk_ro:
  "va < MAXVA \<Longrightarrow> walk pt va False s = Inr (leaf_addr (pmem s) 2 pt va, s)"
  by (simp add: walk_def not_le walk_loop_ro)

text \<open>Storing a leaf entry.\<close>

lemma table_store:
  assumes t: "table s pt ps" and a: "leaf_addr (pmem s) 2 pt va = a" "a \<noteq> 0" and va: "sv39 va"
  shows "table (s\<lparr>pmem := store64 a v (pmem s)\<rparr>) pt ps"
    and "ptpages (store64 a v (pmem s)) 2 pt = tpages s pt"
    and "sv39 va' \<Longrightarrow>
      pte_at (store64 a v (pmem s)) 2 pt va' = (if page va' = page va then v else pte_of s pt va')"
    and "page x \<notin> tpages s pt \<Longrightarrow> store64 a v (pmem s) x = pmem s x"
proof -
  let ?m' = "store64 a v (pmem s)"
  have wf: "pt_wf (pmem s) 2 pt" and fp: "free_pages s ps" and d: "set ps \<inter> tpages s pt = {}"
    using t by (auto simp: sub_table_def)
  note st = pt_store_leaf [OF wf a, of v]
  note lp = leaf_addr_props [OF wf, of va, unfolded a(1), OF a(2)]
  show out: "?m' x = pmem s x" if "page x \<notin> tpages s pt" for x
    using lp that by (intro store64_other_page) auto
  show pp: "ptpages ?m' 2 pt = tpages s pt" using st by blast
  have "free_pages (s\<lparr>pmem := ?m'\<rparr>) ps"
    using d out by (intro free_pages_cong [OF fp]) (auto simp: disjoint_iff)
  then show "table (s\<lparr>pmem := ?m'\<rparr>) pt ps" using st d pp by (simp add: sub_table_def)
  show "sv39 va' \<Longrightarrow> pte_at ?m' 2 pt va' = (if page va' = page va then v else pte_of s pt va')"
    using st same_PX_iff [OF va, of va'] by simp
qed

lemma walk_alloc:
  assumes "table s pt ps" and "va < MAXVA"
  shows "\<exists>a s' n. walk pt va True s = Inr (a, s') \<and> walk_post s 2 pt ps va a s' n"
  using walk_loop_alloc [OF assms(1), of va] assms(2) by (auto simp: walk_def not_le)

text \<open>The pages \<open>a\<close>, \<open>a + 4096\<close>, \<dots>: \<open>j\<close> of them.\<close>

definition in_range :: "addr \<Rightarrow> nat \<Rightarrow> addr \<Rightarrow> bool" where
  "in_range a j va \<longleftrightarrow> unat a \<le> unat va \<and> unat va < unat a + 4096 * j"

definition map_entry :: "addr \<Rightarrow> addr \<Rightarrow> u64 \<Rightarrow> addr \<Rightarrow> u64" where
  "map_entry a pa perm va = PA2PTE (pa + (page va - a)) OR perm OR PTE_V"

text \<open>
  What \<^verbatim>\<open>mappages\<close> does when no page of the range is mapped: it maps all \<open>Suc n\<close> pages and
  returns 0, or maps the first \<open>j\<close> of them, runs out of pages and returns -1.
\<close>

definition mappages_post ::
  "phys \<Rightarrow> addr \<Rightarrow> addr list \<Rightarrow> addr \<Rightarrow> nat \<Rightarrow> addr \<Rightarrow> u64 \<Rightarrow> int \<Rightarrow> phys \<Rightarrow> nat \<Rightarrow> nat \<Rightarrow> bool" where
  "mappages_post s pt ps a n pa perm r s' k j \<longleftrightarrow>
     k \<le> 2 * Suc n \<and> table s' pt (drop k ps) \<and> kend s' = kend s
     \<and> tpages s' pt = tpages s pt \<union> set (take k ps)
     \<and> (\<forall>x. page x \<notin> tpages s pt \<union> set (take k ps) \<longrightarrow> pmem s' x = pmem s x)
     \<and> (r = 0 \<and> j = Suc n \<or> r = -1 \<and> j \<le> n \<and> drop k ps = [])
     \<and> (\<forall>va. sv39 va \<longrightarrow>
          pte_of s' pt va = (if in_range a j va then map_entry a pa perm va else pte_of s pt va))"

lemma in_range_0 [simp]: "\<not> in_range a 0 va"
  by (simp add: in_range_def)

lemma in_range_Suc:
  assumes "4096 dvd unat a" and "unat a < 2 ^ 63"
  shows "in_range a (Suc j) va \<longleftrightarrow> page va = page a \<or> in_range (a + 4096) j va"
proof -
  obtain i where i: "unat a = 4096 * i" using assms by (auto simp: dvd_def)
  have "unat (a + 4096) = 4096 * (i + 1)" using i assms(2) by (simp add: unat_plus_if')
  then show ?thesis using i by (auto simp: in_range_def page_eq_iff)
qed

lemma map_entry_Suc: "map_entry (a + 4096) (pa + 4096) perm va = map_entry a pa perm va"
  by (simp add: map_entry_def)

lemma map_entry_first: "4096 dvd unat a \<Longrightarrow> page va = page a \<Longrightarrow> map_entry a pa perm va = PA2PTE pa OR perm OR 1"
  by (simp add: map_entry_def page_of_aligned)

lemma mappages_step:
  assumes t: "table s pt ps" and a: "4096 dvd unat a" "a < MAXVA" and nv: "\<not> valid (pte_of s pt a)"
  obtains (full) s1 k where "walk pt a True s = Inr (0, s1)" "mappages_post s pt ps a n pa perm (-1) s1 k 0"
  | (page) p s1 k where "walk pt a True s = Inr (p, s1)" "p \<noteq> 0" "\<not> valid (load64 p (pmem s1))"
      "mappages_post s pt ps a 0 pa perm 0
         (s1\<lparr>pmem := store64 p (PA2PTE pa OR perm OR 1) (pmem s1)\<rparr>) k 1"
proof -
  obtain p s1 k where w: "walk pt a True s = Inr (p, s1)" and post: "walk_post s 2 pt ps a p s1 k"
    using walk_alloc [OF t a(2)] by blast
  note wp = post [unfolded walk_post_def]
  show thesis
  proof (cases "p = 0")
    case True
    then have "mappages_post s pt ps a n pa perm (-1) s1 k 0"
      using wp unfolding mappages_post_def by (simp only: in_range_0) auto
    then show ?thesis using full w True by blast
  next
    case False
    have wf: "pt_wf (pmem s1) 2 pt" and la: "leaf_addr (pmem s1) 2 pt a = p"
      using wp by (auto simp: sub_table_def)
    have "\<not> valid (load64 p (pmem s1))"
      using leaf_addr_props [OF wf, of a] la False wp nv by simp
    moreover have "table s1 pt (drop k ps)" using wp by blast
    note st = table_store [OF this la False MAXVA_sv39 [OF a(2)],
      where v = "PA2PTE pa OR perm OR 1"]
    have "in_range a 1 va \<longleftrightarrow> page va = page a" for va
      using in_range_Suc [of a 0 va] a by (simp add: word_less_nat_alt)
    then have "mappages_post s pt ps a 0 pa perm 0
        (s1\<lparr>pmem := store64 p (PA2PTE pa OR perm OR 1) (pmem s1)\<rparr>) k 1"
      using st wp a(1) by (simp add: mappages_post_def map_entry_first)
    ultimately show ?thesis using page w False by blast
  qed
qed

lemma mappages_post_append:
  assumes 1: "mappages_post s pt ps a 0 pa perm 0 s1 k 1"
    and 2: "mappages_post s1 pt (drop k ps) (a + 4096) n (pa + 4096) perm r s' k' j"
    and a: "4096 dvd unat a" "a < MAXVA"
  shows "mappages_post s pt ps a (Suc n) pa perm r s' (k + k') (Suc j)"
proof -
  have lt: "unat a < 2 ^ 63" using a(2) by (simp add: word_less_nat_alt)
  have s: "set (take (k + k') ps) = set (take k ps) \<union> set (take k' (drop k ps))"
    by (simp add: take_add)
  have p: "pte_of s' pt va = (if in_range a (Suc j) va then map_entry a pa perm va else pte_of s pt va)"
    if "sv39 va" for va
    using that 1 2 in_range_Suc [OF a(1) lt, of j va] in_range_Suc [OF a(1) lt, of 0 va]
    by (simp add: mappages_post_def map_entry_Suc)
  have "\<forall>x. page x \<notin> tpages s pt \<union> set (take (k + k') ps) \<longrightarrow> pmem s' x = pmem s x"
    using 1 2 unfolding mappages_post_def s by (metis (no_types, lifting) UnI1 UnI2 Un_iff)
  then show ?thesis using 1 2 p
    unfolding mappages_post_def s by (simp add: add.commute Un_assoc)
qed

lemma not_valid_next:
  assumes "4096 dvd unat a" and "a < MAXVA"
    and "\<forall>va. sv39 va \<and> in_range a (Suc (Suc n)) va \<longrightarrow> \<not> valid (pte_of s pt va)"
    and "mappages_post s pt ps a 0 pa perm 0 s1 k 1"
  shows "\<forall>va. sv39 va \<and> in_range (a + 4096) (Suc n) va \<longrightarrow> \<not> valid (pte_of s1 pt va)"
proof (intro allI impI)
  fix va assume va: "sv39 va \<and> in_range (a + 4096) (Suc n) va"
  have lt: "unat a < 2 ^ 63" using assms(2) by (simp add: word_less_nat_alt)
  have "unat (a + 4096) = unat a + 4096" using lt by (simp add: unat_plus_if')
  then have "in_range a (Suc (Suc n)) va" "\<not> in_range a 1 va" using va by (auto simp: in_range_def)
  then show "\<not> valid (pte_of s1 pt va)" using va assms(3,4) by (simp add: mappages_post_def)
qed

lemma in_range_self [simp]: "in_range a (Suc n) a"
  by (simp add: in_range_def)

lemma mappages_loop_maps:
  "table s pt ps \<Longrightarrow> 4096 dvd unat a \<Longrightarrow> la < MAXVA \<Longrightarrow> unat la = unat a + 4096 * n \<Longrightarrow>
   \<forall>va. sv39 va \<and> in_range a (Suc n) va \<longrightarrow> \<not> valid (pte_of s pt va) \<Longrightarrow>
   \<exists>r s' k j. mappages_loop pt a la pa perm s = Inr (r, s')
     \<and> mappages_post s pt ps a n pa perm r s' k j"
proof (induction n arbitrary: a pa s ps)
  case 0
  from 0(4) have la: "la = a" by (simp add: word_unat_eq_iff)
  with 0(3) have a: "a < MAXVA" by simp
  have nv: "\<not> valid (pte_of s pt a)" using 0(5) MAXVA_sv39 [OF a] by auto
  note t = 0(1) and al = 0(2)
  show ?case
  proof (cases rule: mappages_step [of s pt ps a 0 pa perm, OF t al a nv])
    case (1 s1 k)
    then show ?thesis by (auto simp: mappages_loop.simps [of pt a])
  next
    case (2 p s1 k)
    then show ?thesis by (auto simp: mappages_loop.simps [of pt a] la)
  qed
next
  case (Suc n)
  have a: "a < MAXVA" using Suc.prems(3,4) by (simp add: word_less_nat_alt)
  have ne: "a \<noteq> la" using Suc.prems(4) by (auto simp: word_unat_eq_iff)
  have nv: "\<not> valid (pte_of s pt a)" using Suc.prems(5) MAXVA_sv39 [OF a] by auto
  show ?case
  proof (cases rule: mappages_step [OF Suc.prems(1,2) a nv, of "Suc n" pa perm])
    case (1 s1 k)
    then show ?thesis by (auto simp: mappages_loop.simps [of pt a])
  next
    case (2 p s1 k)
    let ?s = "s1\<lparr>pmem := store64 p (PA2PTE pa OR perm OR 1) (pmem s1)\<rparr>"
    have t: "table ?s pt (drop k ps)" using 2(4) by (simp add: mappages_post_def)
    have un: "unat (a + 4096) = unat a + 4096" using a by (simp add: unat_plus_if' word_less_nat_alt)
    obtain r s' k' j where r: "mappages_loop pt (a + 4096) la (pa + 4096) perm ?s = Inr (r, s')"
        "mappages_post ?s pt (drop k ps) (a + 4096) n (pa + 4096) perm r s' k' j"
      using Suc.IH [OF t _ Suc.prems(3) _ not_valid_next [OF Suc.prems(2) a Suc.prems(5) 2(4)]]
        Suc.prems(2,4) un by (metis (no_types, lifting) add.assoc dvd_add_triv_right_iff mult_Suc_right)
    have "mappages_loop pt a la pa perm s = Inr (r, s')"
      using 2(1-3) r(1) ne by (simp add: mappages_loop.simps [of pt a])
    then show ?thesis
      using mappages_post_append [OF 2(4) r(2) Suc.prems(2) a] by blast
  qed
qed

section \<open>Unmapping pages\<close>

definition vpage :: "addr \<Rightarrow> nat \<Rightarrow> addr" where
  "vpage a j = a + 4096 * of_nat j"

text \<open>The physical page behind the \<open>j\<close>-th page from \<open>a\<close>.\<close>

definition data_page :: "phys \<Rightarrow> addr \<Rightarrow> addr \<Rightarrow> nat \<Rightarrow> addr" where
  "data_page s pt a j = PTE2PA (pte_of s pt (vpage a j))"

definition freed :: "bool \<Rightarrow> phys \<Rightarrow> addr \<Rightarrow> addr \<Rightarrow> nat \<Rightarrow> addr set" where
  "freed do_free s pt a n = (if do_free then data_page s pt a ` {..<n} else {})"

definition unmap_pre :: "phys \<Rightarrow> addr \<Rightarrow> addr list \<Rightarrow> addr \<Rightarrow> nat \<Rightarrow> bool \<Rightarrow> bool" where
  "unmap_pre s pt ps a n do_free \<longleftrightarrow>
     (\<forall>j<n. valid (pte_of s pt (vpage a j)) \<and> PTE_FLAGS (pte_of s pt (vpage a j)) \<noteq> PTE_V)
     \<and> (do_free \<longrightarrow> inj_on (data_page s pt a) {..<n}
          \<and> (\<forall>j<n. usable_page s (data_page s pt a j)
               \<and> data_page s pt a j \<notin> set ps \<union> tpages s pt))"

definition unmap_post ::
  "phys \<Rightarrow> addr \<Rightarrow> addr list \<Rightarrow> addr \<Rightarrow> nat \<Rightarrow> bool \<Rightarrow> phys \<Rightarrow> addr list \<Rightarrow> bool" where
  "unmap_post s pt ps a n do_free s' qs \<longleftrightarrow>
     table s' pt qs \<and> kend s' = kend s \<and> tpages s' pt = tpages s pt
     \<and> set qs = set ps \<union> freed do_free s pt a n
     \<and> (\<forall>va. sv39 va \<longrightarrow> pte_of s' pt va = (if in_range a n va then 0 else pte_of s pt va))
     \<and> (\<forall>x. page x \<notin> tpages s pt \<union> freed do_free s pt a n \<longrightarrow> pmem s' x = pmem s x)"

lemma vpage_0 [simp]: "vpage a 0 = a"
  by (simp add: vpage_def)

lemma vpage_Suc: "vpage a (Suc j) = vpage (a + 4096) j"
  by (simp add: vpage_def algebra_simps)

lemma unat_vpage: "unat a + 4096 * j < 2 ^ 64 \<Longrightarrow> unat (vpage a j) = unat a + 4096 * j"
  by (simp add: vpage_def unat_word_ariths)

lemma table_cong:
  assumes "table s pt ps" and "free_pages s' qs" and "set qs \<inter> tpages s pt = {}"
    and "\<And>x. page x \<in> tpages s pt \<Longrightarrow> pmem s' x = pmem s x"
  shows "table s' pt qs" and "tpages s' pt = tpages s pt" and "pte_of s' pt = pte_of s pt"
    and "leaf_addr (pmem s') 2 pt = leaf_addr (pmem s) 2 pt"
  using pt_cong [of "pmem s" 2 pt "pmem s'"] assms by (auto simp: sub_table_def)

lemma uvmunmap_step:
  assumes t: "table s pt ps" and a: "4096 dvd unat a" "a < MAXVA"
    and pre: "unmap_pre s pt ps a 1 do_free"
  shows "\<exists>pte s1 s2 qs. walk pt a False s = Inr (pte, s) \<and> pte \<noteq> 0
    \<and> load64 pte (pmem s) = pte_of s pt a
    \<and> (if do_free then kfree (PTE2PA (pte_of s pt a)) s else Inr s) = Inr s1
    \<and> s2 = s1\<lparr>pmem := store64 pte 0 (pmem s1)\<rparr> \<and> unmap_post s pt ps a 1 do_free s2 qs"
proof -
  let ?v = "pte_of s pt a" and ?pte = "leaf_addr (pmem s) 2 pt a"
  have wf: "pt_wf (pmem s) 2 pt" and fp: "free_pages s ps" and d: "set ps \<inter> tpages s pt = {}"
    using t by (auto simp: sub_table_def)
  have v: "valid ?v" using pre by (simp add: unmap_pre_def)
  then have nz: "?pte \<noteq> 0" using leaf_addr_0 [OF wf, of a] by auto
  define qs where "qs = (if do_free then PTE2PA ?v # ps else ps)"
  have "\<exists>s1. (if do_free then kfree (PTE2PA ?v) s else Inr s) = Inr s1 \<and> free_pages s1 qs
      \<and> kend s1 = kend s \<and> (\<forall>x. page x \<notin> freed do_free s pt a 1 \<longrightarrow> pmem s1 x = pmem s x)"
  proof (cases do_free)
    case True
    then have "usable_page s (PTE2PA ?v)" "PTE2PA ?v \<notin> set ps"
      using pre by (auto simp: unmap_pre_def data_page_def)
    from kfree_free_pages [OF fp this] True show ?thesis
      by (auto simp: qs_def freed_def data_page_def)
  qed (use fp in \<open>simp add: qs_def\<close>)
  then obtain s1 where s1: "(if do_free then kfree (PTE2PA ?v) s else Inr s) = Inr s1"
      "free_pages s1 qs" "kend s1 = kend s"
      "\<forall>x. page x \<notin> freed do_free s pt a 1 \<longrightarrow> pmem s1 x = pmem s x" by blast
  have fr: "freed do_free s pt a 1 \<inter> tpages s pt = {}"
    using pre by (auto simp: freed_def unmap_pre_def)
  have qd: "set qs \<inter> tpages s pt = {}"
    using d pre by (auto simp: qs_def unmap_pre_def data_page_def)
  have "pmem s1 x = pmem s x" if "page x \<in> tpages s pt" for x using s1(4) fr that by blast
  note tc = table_cong [OF t s1(2) qd this]
  have nz1: "leaf_addr (pmem s1) 2 pt a = ?pte" using tc(4) by simp
  note st = table_store [OF tc(1) nz1 nz MAXVA_sv39 [OF a(2)], where v = 0]
  have "in_range a 1 va \<longleftrightarrow> page va = page a" for va
    using in_range_Suc [of a 0 va] a by (simp add: word_less_nat_alt)
  then have "unmap_post s pt ps a 1 do_free (s1\<lparr>pmem := store64 ?pte 0 (pmem s1)\<rparr>) qs"
    using st tc(2,3) s1(3,4)
    by (auto simp: unmap_post_def qs_def freed_def data_page_def)
  then show ?thesis
    using leaf_addr_props [OF wf nz] nz s1(1) walk_ro [OF a(2)] by auto
qed

lemma data_page_next:
  assumes a: "4096 dvd unat a" and m: "unat a + 4096 * Suc n \<le> unat MAXVA"
    and 1: "unmap_post s pt ps a 1 do_free s1 qs" and j: "j < n"
  shows "pte_of s1 pt (vpage (a + 4096) j) = pte_of s pt (vpage a (Suc j))"
    and "data_page s1 pt (a + 4096) j = data_page s pt a (Suc j)"
proof -
  have "unat (vpage a (Suc j)) = unat a + 4096 * Suc j" using m j by (simp add: unat_vpage)
  then have "sv39 (vpage a (Suc j))" "\<not> in_range a 1 (vpage a (Suc j))"
    using m j by (auto simp: sv39_def in_range_def)
  then show "pte_of s1 pt (vpage (a + 4096) j) = pte_of s pt (vpage a (Suc j))"
    using 1 by (simp add: unmap_post_def vpage_Suc)
  then show "data_page s1 pt (a + 4096) j = data_page s pt a (Suc j)"
    by (simp add: data_page_def)
qed

lemma freed_Suc:
  assumes "\<And>j. j < n \<Longrightarrow> data_page s1 pt (a + 4096) j = data_page s pt a (Suc j)"
  shows "freed do_free s pt a (Suc n) = freed do_free s pt a 1 \<union> freed do_free s1 pt (a + 4096) n"
  using assms by (auto simp: freed_def lessThan_Suc_eq_insert_0 image_image)

lemma unmap_pre_next:
  assumes a: "4096 dvd unat a" "unat a + 4096 * Suc n \<le> unat MAXVA"
    and pre: "unmap_pre s pt ps a (Suc n) do_free" and 1: "unmap_post s pt ps a 1 do_free s1 qs"
  shows "unmap_pre s1 pt qs (a + 4096) n do_free"
proof -
  note nx = data_page_next [OF a 1]
  have u: "usable_page s1 = usable_page s" "tpages s1 pt = tpages s pt"
    using 1 usable_page_cong [of s1 s] by (auto simp: unmap_post_def)
  have v: "\<forall>j<n. valid (pte_of s1 pt (vpage (a + 4096) j))
      \<and> PTE_FLAGS (pte_of s1 pt (vpage (a + 4096) j)) \<noteq> PTE_V"
    using pre nx(1) by (simp add: unmap_pre_def)
  have "inj_on (data_page s1 pt (a + 4096)) {..<n} \<and>
      (\<forall>j<n. usable_page s1 (data_page s1 pt (a + 4096) j)
         \<and> data_page s1 pt (a + 4096) j \<notin> set qs \<union> tpages s1 pt)" if f: do_free
  proof -
    have i: "inj_on (data_page s pt a) {..<Suc n}" using pre f by (simp add: unmap_pre_def)
    then have "inj_on (\<lambda>j. data_page s pt a (Suc j)) {..<n}"
      by (auto simp: inj_on_def)
    then have "inj_on (data_page s1 pt (a + 4096)) {..<n}"
      using nx(2) by (simp add: inj_on_def)
    moreover have "data_page s pt a (Suc j) \<noteq> data_page s pt a 0" if "j < n" for j
      using i that by (auto simp: inj_on_def)
    moreover have "set qs = insert (data_page s pt a 0) (set ps)"
      using 1 f by (auto simp: unmap_post_def freed_def)
    ultimately show ?thesis using pre f nx(2) u by (auto simp: unmap_pre_def)
  qed
  with v show ?thesis by (simp add: unmap_pre_def)
qed

lemma unmap_post_append:
  assumes a: "4096 dvd unat a" "unat a + 4096 * Suc n \<le> unat MAXVA"
    and 1: "unmap_post s pt ps a 1 do_free s1 qs" and 2: "unmap_post s1 pt qs (a + 4096) n do_free s' rs"
  shows "unmap_post s pt ps a (Suc n) do_free s' rs"
proof -
  note fr = freed_Suc [of n s1 pt a s do_free, OF data_page_next(2) [OF a 1]]
  have lt: "unat a < 2 ^ 63" using a by simp
  have p: "pte_of s' pt va = (if in_range a (Suc n) va then 0 else pte_of s pt va)" if "sv39 va" for va
    using that 1 2 in_range_Suc [OF a(1) lt, of n va] in_range_Suc [OF a(1) lt, of 0 va]
    by (simp add: unmap_post_def)
  have "pmem s' x = pmem s x" if "page x \<notin> tpages s pt \<union> freed do_free s pt a (Suc n)" for x
    using that 1 2 fr by (simp add: unmap_post_def)
  then show ?thesis using 1 2 p fr by (simp add: unmap_post_def Un_assoc)
qed

lemma uvmunmap_loop_unmaps:
  "table s pt ps \<Longrightarrow> 4096 dvd unat a \<Longrightarrow> unat a + 4096 * n \<le> unat MAXVA \<Longrightarrow>
   unat e = unat a + 4096 * n \<Longrightarrow> unmap_pre s pt ps a n do_free \<Longrightarrow>
   \<exists>s' qs. uvmunmap_loop pt a e do_free s = Inr s' \<and> unmap_post s pt ps a n do_free s' qs"
proof (induction n arbitrary: a s ps)
  case 0
  then have "uvmunmap_loop pt a e do_free s = Inr s"
    by (simp add: uvmunmap_loop.simps word_less_nat_alt)
  moreover have "unmap_post s pt ps a 0 do_free s ps"
    using 0 by (simp add: unmap_post_def freed_def)
  ultimately show ?case by blast
next
  case (Suc n)
  have a: "a < MAXVA" "a < e" using Suc.prems(3,4) by (simp_all add: word_less_nat_alt)
  have "unmap_pre s pt ps a 1 do_free"
    using Suc.prems(5) by (auto simp: unmap_pre_def inj_on_def)
  then obtain pte s1 s2 qs where st: "walk pt a False s = Inr (pte, s)" "pte \<noteq> 0"
      "load64 pte (pmem s) = pte_of s pt a"
      "(if do_free then kfree (PTE2PA (pte_of s pt a)) s else Inr s) = Inr s1"
      "s2 = s1\<lparr>pmem := store64 pte 0 (pmem s1)\<rparr>" "unmap_post s pt ps a 1 do_free s2 qs"
    using uvmunmap_step [OF Suc.prems(1,2) a(1)] by blast
  have un: "unat (a + 4096) = unat a + 4096" using a by (simp add: unat_plus_if' word_less_nat_alt)
  obtain s' rs where r: "uvmunmap_loop pt (a + 4096) e do_free s2 = Inr s'"
      "unmap_post s2 pt qs (a + 4096) n do_free s' rs"
    using Suc.IH [of s2 qs "a + 4096"] st(6) unmap_pre_next [OF Suc.prems(2,3,5) st(6)] Suc.prems(2-4) un
    by (auto simp: unmap_post_def)
  have "valid (pte_of s pt a)" "PTE_FLAGS (pte_of s pt a) \<noteq> 1"
    using Suc.prems(5) by (auto simp: unmap_pre_def)
  then have "uvmunmap_loop pt a e do_free s = Inr s'"
    using st r(1) a(2) by (cases do_free) (simp_all add: uvmunmap_loop.simps [of pt a])
  then show ?case using unmap_post_append [OF Suc.prems(2,3) st(6) r(2)] by blast
qed

end
