(* ===== verification/UserMem.thy ===== *)
theory UserMem
  imports PageTable
begin

text \<open>
  What the operations of \<^verbatim>\<open>kernel/vm.c\<close> on whole address spaces do, on the abstraction of
  \<open>PageTable\<close>: \<open>freewalk\<close> and \<open>uvmfree\<close> give back every page, and \<open>copyout\<close>, \<open>copyin\<close> and
  \<open>copyinstr\<close> move bytes through the translation.
\<close>

section \<open>Freeing a page table\<close>

primrec no_leaf :: "memory \<Rightarrow> nat \<Rightarrow> addr \<Rightarrow> bool" where
  "no_leaf m 0 pt \<longleftrightarrow> kids m pt = {}"
| "no_leaf m (Suc l) pt \<longleftrightarrow> (\<forall>i\<in>kids m pt. no_leaf m l (kid m pt i))"

lemma no_leaf_cong:
  "pt_wf m l pt \<Longrightarrow> (\<And>x. page x \<in> ptpages m l pt \<Longrightarrow> m' x = m x) \<Longrightarrow> no_leaf m l pt \<Longrightarrow> no_leaf m' l pt"
proof (induction l arbitrary: pt)
  case 0
  then have "kids m' pt = kids m pt" by (intro kids_cong) auto
  with 0 show ?case by simp
next
  case (Suc l)
  have k: "kids m' pt = kids m pt" "\<And>i. i \<in> kids m pt \<Longrightarrow> kid m' pt i = kid m pt i"
    using Suc.prems by (auto intro!: kids_cong)
  have "no_leaf m' l (kid m pt i)" if "i \<in> kids m pt" for i
    using that Suc.prems by (intro Suc.IH) auto
  with k show ?case by simp
qed

abbreviation freewalk_body :: "nat \<Rightarrow> addr \<Rightarrow> nat \<Rightarrow> phys \<Rightarrow> phys res" where
  "freewalk_body fuel pagetable \<equiv> (\<lambda>i s.
     let slot = pagetable + 8 * of_nat i; pte = load64 slot (pmem s) in
     if pte AND PTE_V \<noteq> 0 \<and> pte AND (PTE_R OR PTE_W OR PTE_X) = 0 then
       rbind (freewalk fuel (PTE2PA pte) s) (\<lambda>s.
         Inr (s\<lparr>pmem := store64 slot 0 (pmem s)\<rparr>))
     else if pte AND PTE_V \<noteq> 0 then Inl (Panic ''freewalk: leaf'')
     else Inr s)"

text \<open>The subtrees below the entries before \<open>k\<close>.\<close>

definition below :: "memory \<Rightarrow> nat \<Rightarrow> addr \<Rightarrow> nat \<Rightarrow> addr set" where
  "below m l pt k = (\<Union>i\<in>{i \<in> kids m pt. unat i < k}. ptpages m l (kid m pt i))"

lemma below_Suc:
  assumes "k < 512"
  shows "below m l pt (Suc k) = below m l pt k \<union>
    (if of_nat k \<in> kids m pt then ptpages m l (kid m pt (of_nat k)) else {})"
proof -
  have "unat i < Suc k \<longleftrightarrow> unat i < k \<or> i = of_nat k" for i :: u64
    using assms by (auto simp: less_Suc_eq word_unat_eq_iff)
  then show ?thesis by (auto simp: below_def)
qed

lemma below_512: "ptpages m (Suc l) pt = insert pt (below m l pt 512)"
  by (auto simp: below_def kids_def)

definition fw_inv :: "phys \<Rightarrow> nat \<Rightarrow> addr \<Rightarrow> addr list \<Rightarrow> nat \<Rightarrow> phys \<Rightarrow> addr list \<Rightarrow> bool" where
  "fw_inv s0 l pt ps k s qs \<longleftrightarrow> free_pages s qs \<and> kend s = kend s0
     \<and> set qs = set ps \<union> below (pmem s0) l pt k
     \<and> (\<forall>x. page x \<notin> insert pt (below (pmem s0) l pt k) \<longrightarrow> pmem s x = pmem s0 x)
     \<and> (\<forall>i. k \<le> unat i \<and> unat i < 512 \<longrightarrow> load64 (slot pt i) (pmem s) = load64 (slot pt i) (pmem s0))"

lemma fw_inv_step:
  assumes IH: "\<And>c s qs. sub_table s l c qs \<Longrightarrow> no_leaf (pmem s) l c \<Longrightarrow>
      (\<forall>p\<in>ptpages (pmem s) l c. usable_page s p) \<Longrightarrow>
      \<exists>s' rs. freewalk (Suc l) c s = Inr s' \<and> free_pages s' rs \<and> kend s' = kend s
        \<and> set rs = set qs \<union> ptpages (pmem s) l c
        \<and> (\<forall>x. page x \<notin> ptpages (pmem s) l c \<longrightarrow> pmem s' x = pmem s x)"
    and t: "sub_table s0 (Suc l) pt ps" and nl: "no_leaf (pmem s0) (Suc l) pt"
    and us: "\<forall>p\<in>ptpages (pmem s0) (Suc l) pt. usable_page s0 p"
    and k: "k < 512" and inv: "fw_inv s0 l pt ps k s qs"
  shows "\<exists>s' rs. freewalk_body (Suc l) pt k s = Inr s' \<and> fw_inv s0 l pt ps (Suc k) s' rs"
proof -
  let ?m = "pmem s0" and ?i = "of_nat k :: u64"
  have wf: "pt_wf ?m (Suc l) pt" and d: "set ps \<inter> ptpages ?m (Suc l) pt = {}"
    using t by (auto simp: sub_table_def)
  have uk: "unat ?i = k" using k by simp
  have ld: "load64 (slot pt ?i) (pmem s) = load64 (slot pt ?i) ?m"
    using inv k uk by (simp add: fw_inv_def)
  show ?thesis
  proof (cases "?i \<in> kids ?m pt")
    case False
    then have "\<not> valid (load64 (slot pt ?i) ?m)" using k by (simp add: kids_def)
    then have "freewalk_body (Suc l) pt k s = Inr s" using ld by (simp add: slot_def [symmetric] Let_def)
    moreover have "fw_inv s0 l pt ps (Suc k) s qs"
      using inv below_Suc [OF k, of ?m l pt] False by (simp add: fw_inv_def)
    ultimately show ?thesis by blast
  next
    case True
    define c where "c = kid ?m pt ?i"
    have c: "pt_wf ?m l c" "pt \<notin> ptpages ?m l c" "no_leaf ?m l c" "load64 (slot pt ?i) ?m AND 0xE = 0"
      "valid (load64 (slot pt ?i) ?m)"
      using wf nl True by (auto simp: c_def kids_def)
    have cb: "ptpages ?m l c \<inter> below ?m l pt k = {}"
    proof -
      have "ptpages ?m l c \<inter> ptpages ?m l (kid ?m pt j) = {}" if "j \<in> kids ?m pt" "unat j < k" for j
      proof -
        have "?i \<noteq> j" using that(2) k by auto
        then show ?thesis using wf True that(1) by (simp add: c_def)
      qed
      then show ?thesis by (auto simp: below_def)
    qed
    have cs: "ptpages ?m l c \<subseteq> ptpages ?m (Suc l) pt" using kid_ptpages [OF True, of l] by (simp add: c_def)
    have same: "pmem s x = ?m x" if "page x \<in> ptpages ?m l c" for x
      using inv that cb c(2) by (auto simp: fw_inv_def)
    have pc: "ptpages (pmem s) l c = ptpages ?m l c" "pt_wf (pmem s) l c" "no_leaf (pmem s) l c"
      using pt_cong [OF c(1), of "pmem s"] no_leaf_cong [OF c(1) _ c(3), of "pmem s"] same by auto
    have qs: "set qs = set ps \<union> below ?m l pt k" using inv by (simp add: fw_inv_def)
    have "set qs \<inter> ptpages ?m l c = {}" using qs cb cs d by blast
    then have "sub_table s l c qs" using inv pc by (simp add: sub_table_def fw_inv_def)
    moreover have u: "usable_page s = usable_page s0"
      using inv by (intro usable_page_cong) (simp add: fw_inv_def)
    then have "\<forall>p\<in>ptpages (pmem s) l c. usable_page s p" using us cs pc(1) by auto
    ultimately obtain s1 rs where s1: "freewalk (Suc l) c s = Inr s1" "free_pages s1 rs"
        "kend s1 = kend s" "set rs = set qs \<union> ptpages ?m l c"
        "\<forall>x. page x \<notin> ptpages ?m l c \<longrightarrow> pmem s1 x = pmem s x"
      using IH [of s c qs] pc by auto
    define s2 where "s2 = s1\<lparr>pmem := store64 (slot pt ?i) 0 (pmem s1)\<rparr>"
    have al: "4096 dvd unat pt" using wf by simp
    have sl: "8 dvd unat (slot pt ?i)" "page (slot pt ?i) = pt"
      using slot_aligned [OF al] slot_page [OF al] uk k by auto
    have out: "pmem s2 x = pmem s1 x" if "page x \<noteq> pt" for x
      using sl that by (simp add: s2_def store64_other_page)
    have bs: "below ?m l pt k \<subseteq> ptpages ?m (Suc l) pt" by (auto simp: below_def)
    have bp: "pt \<notin> below ?m l pt k" using wf by (auto simp: below_def)
    then have "pt \<notin> set rs" using s1(4) qs d c(2) by auto
    then have "pmem s2 x = pmem s1 x" if "page x \<in> set rs" for x
      using that by (intro out) auto
    then have "free_pages s2 rs" by (intro free_pages_cong [OF s1(2)]) (simp_all add: s2_def)
    moreover have "load64 (slot pt j) (pmem s2) = load64 (slot pt j) ?m"
      if j: "Suc k \<le> unat j" "unat j < 512" for j
    proof -
      have "j \<noteq> ?i" using j(1) k by auto
      then have "load64 (slot pt j) (pmem s2) = load64 (slot pt j) (pmem s1)"
        using sl slot_aligned [OF al j(2)] j(2) uk k
        by (simp add: s2_def load64_store64_other slot_inj)
      also have "\<dots> = load64 (slot pt j) (pmem s)"
        using s1(5) c(2) by (intro slots_cong [OF al _ j(2)]) auto
      finally show ?thesis using inv j by (simp add: fw_inv_def)
    qed
    moreover have "pmem s2 x = ?m x" if "page x \<notin> insert pt (below ?m l pt (Suc k))" for x
      using that out [of x] s1(5) inv True below_Suc [OF k, of ?m l pt]
      by (simp add: fw_inv_def c_def)
    moreover have "set rs = set ps \<union> below ?m l pt (Suc k)"
      using s1(4) qs True below_Suc [OF k, of ?m l pt] by (auto simp: c_def)
    ultimately have "fw_inv s0 l pt ps (Suc k) s2 rs"
      using inv s1(3) by (simp add: fw_inv_def s2_def)
    moreover have "freewalk_body (Suc l) pt k s = Inr s2"
      using c(4,5) s1(1) ld by (simp add: slot_def [symmetric] Let_def s2_def c_def kid_def)
    ultimately show ?thesis by blast
  qed
qed

lemma fw_inv_loop:
  assumes step: "\<And>k s qs. k < 512 \<Longrightarrow> fw_inv s0 l pt ps k s qs \<Longrightarrow>
      \<exists>s' rs. f k s = Inr s' \<and> fw_inv s0 l pt ps (Suc k) s' rs"
    and "fw_inv s0 l pt ps 0 s0 ps"
  shows "k \<le> 512 \<Longrightarrow> \<exists>s' rs. rfold f [0..<k] s0 = Inr s' \<and> fw_inv s0 l pt ps k s' rs"
proof (induction k)
  case 0
  then show ?case using assms(2) by auto
next
  case (Suc k)
  then obtain s1 qs where "rfold f [0..<k] s0 = Inr s1" "fw_inv s0 l pt ps k s1 qs" by auto
  moreover obtain s' rs where "f k s1 = Inr s'" "fw_inv s0 l pt ps (Suc k) s' rs"
    using step [of k s1 qs] calculation Suc.prems by auto
  ultimately show ?case by (auto simp: rfold_append)
qed

lemma fw_inv_finish:
  assumes inv: "free_pages s qs" "kend s = kend s0" "set qs = set ps \<union> P"
      "\<forall>x. page x \<notin> insert pt P \<longrightarrow> pmem s x = pmem s0 x"
    and pt: "usable_page s0 pt" "pt \<notin> set ps \<union> P"
  shows "\<exists>s' rs. kfree pt s = Inr s' \<and> free_pages s' rs \<and> kend s' = kend s0
    \<and> set rs = set ps \<union> insert pt P \<and> (\<forall>x. page x \<notin> insert pt P \<longrightarrow> pmem s' x = pmem s0 x)"
proof -
  have "usable_page s pt" "pt \<notin> set qs" using inv(2,3) pt usable_page_cong [of s s0] by auto
  from kfree_free_pages [OF inv(1) this] show ?thesis using inv(2-4) by force
qed

lemma freewalk_frees:
  "sub_table s l pt ps \<Longrightarrow> no_leaf (pmem s) l pt \<Longrightarrow> \<forall>p\<in>ptpages (pmem s) l pt. usable_page s p \<Longrightarrow>
   \<exists>s' rs. freewalk (Suc l) pt s = Inr s' \<and> free_pages s' rs \<and> kend s' = kend s
     \<and> set rs = set ps \<union> ptpages (pmem s) l pt
     \<and> (\<forall>x. page x \<notin> ptpages (pmem s) l pt \<longrightarrow> pmem s' x = pmem s x)"
proof (induction l arbitrary: pt s ps)
  case 0
  have "rfold (freewalk_body 0 pt) [0..<k] s = Inr s" if "k \<le> 512" for k
    using that
  proof (induction k)
    case (Suc k)
    then have "\<not> valid (load64 (slot pt (of_nat k)) (pmem s))"
      using 0(2) by (auto simp: kids_def)
    then have "freewalk_body 0 pt k s = Inr s" by (simp add: slot_def [symmetric] Let_def)
    with Suc show ?case by (simp add: rfold_append)
  qed simp
  then have "freewalk (Suc 0) pt s = kfree pt s" by (simp only: freewalk.simps order_refl rbind_Inr)
  moreover have "\<exists>s' rs. kfree pt s = Inr s' \<and> free_pages s' rs \<and> kend s' = kend s
    \<and> set rs = set ps \<union> insert pt {} \<and> (\<forall>x. page x \<notin> insert pt {} \<longrightarrow> pmem s' x = pmem s x)"
    using 0(1,3) by (intro fw_inv_finish) (auto simp: sub_table_def)
  ultimately show ?case by (simp only: ptpages.simps)
next
  case (Suc l)
  have wf: "pt_wf (pmem s) (Suc l) pt" and fp: "free_pages s ps"
    and d: "set ps \<inter> ptpages (pmem s) (Suc l) pt = {}"
    using Suc.prems(1) by (auto simp: sub_table_def)
  let ?B = "below (pmem s) l pt 512"
  have "fw_inv s l pt ps 0 s ps" using fp by (simp add: fw_inv_def below_def)
  then obtain s1 qs where r: "rfold (freewalk_body (Suc l) pt) [0..<512] s = Inr s1"
      and i: "fw_inv s l pt ps 512 s1 qs"
    using fw_inv_loop [of s l pt ps "freewalk_body (Suc l) pt" 512]
      fw_inv_step [OF Suc.IH Suc.prems, of _ _ _] by blast
  have "pt \<notin> ?B" using wf by (auto simp: below_def)
  then obtain s' rs where "kfree pt s1 = Inr s'" "free_pages s' rs" "kend s' = kend s"
      "set rs = set ps \<union> insert pt ?B" "\<forall>x. page x \<notin> insert pt ?B \<longrightarrow> pmem s' x = pmem s x"
    using fw_inv_finish [of s1 qs s ps ?B pt] i d Suc.prems(3) by (auto simp: fw_inv_def)
  moreover from this(1) r have "freewalk (Suc (Suc l)) pt s = Inr s'"
    by (simp only: freewalk.simps rbind_Inr)
  ultimately show ?case by (auto simp only: below_512)
qed

section \<open>Tables without leaves\<close>

lemma bit_PX: "bit (PX k va) n \<longleftrightarrow> n < 9 \<and> bit va (12 + 9 * k + n)"
proof -
  have "PX k va = take_bit 9 (drop_bit (12 + 9 * k) va)"
    by (simp add: PX_def take_bit_eq_mask mask_eq_exp_minus_1)
  then show ?thesis by (simp add: bit_take_bit_iff bit_drop_bit_eq)
qed

lemma pte_at_PX: "(\<And>k. k \<le> l \<Longrightarrow> PX k va = PX k va') \<Longrightarrow> pte_at m l pt va = pte_at m l pt va'"
  by (induction l arbitrary: pt) (simp_all add: Let_def)

lemma PX_compose:
  assumes "k \<le> Suc l" and "l \<le> 1" and "unat i < 512"
  shows "PX k (take_bit (12 + 9 * Suc l) va OR push_bit (12 + 9 * Suc l) i) =
    (if k = Suc l then i else PX k va)"
proof (rule bit_word_eqI)
  fix n
  have i: "bit i n \<Longrightarrow> n < 9" for n
  proof -
    have "i = take_bit 9 i" using assms(3) by (simp add: word_unat_eq_iff take_bit_eq_mod unat_mod)
    then show "bit i n \<Longrightarrow> n < 9" by (metis bit_take_bit_iff)
  qed
  show "bit (PX k (take_bit (12 + 9 * Suc l) va OR push_bit (12 + 9 * Suc l) i)) n =
      bit (if k = Suc l then i else PX k va) n"
    using assms(1,2) i [of n] by (auto simp: bit_PX bit_simps)
qed

lemma no_leafI:
  "l \<le> 2 \<Longrightarrow> (\<And>va. \<not> valid (pte_at m l pt va)) \<Longrightarrow> no_leaf m l pt"
proof (induction l arbitrary: pt)
  case 0
  have "PX 0 (push_bit 12 i) = i" if "unat i < 512" for i :: u64
  proof -
    have "unat (push_bit 12 i) = 4096 * unat i"
      using that by (simp add: push_bit_eq_mult unat_word_ariths)
    then show ?thesis using that by (simp add: word_unat_eq_iff unat_PX)
  qed
  with 0(2) show ?case unfolding no_leaf.simps kids_def pte_at.simps by (metis (mono_tags, lifting) empty_Collect_eq)
next
  case (Suc l)
  have "no_leaf m l (kid m pt i)" if i: "i \<in> kids m pt" for i
  proof (rule Suc.IH)
    fix va
    let ?va = "take_bit (12 + 9 * Suc l) va OR push_bit (12 + 9 * Suc l) i"
    have px: "PX k ?va = (if k = Suc l then i else PX k va)" if "k \<le> Suc l" for k
      using PX_compose [OF that] Suc.prems(1) i by (simp add: kids_def)
    then have "pte_at m l (kid m pt i) ?va = pte_at m l (kid m pt i) va" by (intro pte_at_PX) simp
    then show "\<not> valid (pte_at m l (kid m pt i) va)"
      using Suc.prems(2) [of ?va] px [of "Suc l"] i by (simp add: Let_def)
  qed (use Suc.prems(1) in simp)
  then show ?case by simp
qed

lemma no_leaf_pte_of:
  assumes "\<And>va. sv39 va \<Longrightarrow> \<not> valid (pte_of s pt va)"
  shows "no_leaf (pmem s) 2 pt"
proof (rule no_leafI)
  fix va :: addr
  let ?va = "take_bit 39 va"
  have "PX k va = PX k ?va" if "k \<le> 2" for k
    using that by (intro bit_word_eqI) (auto simp: bit_PX bit_simps)
  then have "pte_of s pt va = pte_of s pt ?va" by (rule pte_at_PX)
  moreover have "unat ?va < 2 ^ 39" by (simp only: unsigned_take_bit_eq take_bit_nat_less_exp)
  ultimately show "\<not> valid (pte_of s pt va)" using assms [of ?va] by (simp add: sv39_def)
qed simp

section \<open>Copying to and from user memory\<close>

definition pa_of :: "phys \<Rightarrow> addr \<Rightarrow> addr \<Rightarrow> addr" where
  "pa_of s pt va = PTE2PA (pte_of s pt va) + (va - page va)"

text \<open>The byte a user program sees at \<open>va\<close>, and what it may write and read.\<close>

definition ubyte :: "phys \<Rightarrow> addr \<Rightarrow> addr \<Rightarrow> byte" where
  "ubyte s pt va = pmem s (pa_of s pt va)"

definition uwritable :: "phys \<Rightarrow> addr \<Rightarrow> addr \<Rightarrow> bool" where
  "uwritable s pt va \<longleftrightarrow> va < MAXVA \<and> valid (pte_of s pt va)
     \<and> pte_of s pt va AND PTE_U \<noteq> 0 \<and> pte_of s pt va AND PTE_W \<noteq> 0"

definition ureadable :: "phys \<Rightarrow> addr \<Rightarrow> addr \<Rightarrow> bool" where
  "ureadable s pt va \<longleftrightarrow> va < MAXVA \<and> valid (pte_of s pt va) \<and> pte_of s pt va AND PTE_U \<noteq> 0
     \<and> PTE2PA (pte_of s pt va) \<noteq> 0"

text \<open>
  No user-writable page is free or part of the table, and no two virtual pages share one.
\<close>

definition separate :: "phys \<Rightarrow> addr \<Rightarrow> addr list \<Rightarrow> bool" where
  "separate s pt ps \<longleftrightarrow> table s pt ps
     \<and> (\<forall>va. uwritable s pt va \<longrightarrow> PTE2PA (pte_of s pt va) \<notin> tpages s pt \<union> set ps)
     \<and> (\<forall>va va'. uwritable s pt va \<and> ureadable s pt va' \<and> page va \<noteq> page va' \<longrightarrow>
          PTE2PA (pte_of s pt va) \<noteq> PTE2PA (pte_of s pt va'))"

lemma same_block:
  assumes "x \<le> y" and "y < x + n" and "x mod 4096 + n \<le> (4096 :: nat)"
  shows "y div 4096 = x div 4096"
proof (rule div_nat_eqI)
  have "x = 4096 * (x div 4096) + x mod 4096" by simp
  then show "4096 * (x div 4096) \<le> y" "y < 4096 * Suc (x div 4096)"
    using assms unfolding mult_Suc_right by linarith+
qed

lemma page_offset: "unat (va - page va) = unat va mod 4096"
proof -
  have "unat (page va) = unat va div 4096 * 4096" by (simp add: page_def unat_PGROUNDDOWN)
  moreover have "unat va div 4096 * 4096 \<le> unat va" by simp
  ultimately have "unat (va - page va) = unat va - unat va div 4096 * 4096"
    by (simp add: unat_sub_if')
  then show ?thesis by (simp add: minus_div_mult_eq_mod)
qed

lemma page_in:
  assumes "4096 dvd unat p" and "unat d < 4096"
  shows "page (p + d) = p"
  using in_page_iff [OF assms(1), of "p + d"] assms(2) by simp

lemma store_bytes_in_page:
  assumes p: "4096 dvd unat p" and o: "unat o1 + length bs \<le> 4096" and x: "page x \<noteq> p"
  shows "store_bytes (p + o1) bs m x = m x"
proof (rule store_bytes_other, rule ccontr)
  assume "\<not> length bs \<le> unat (x - (p + o1))"
  moreover have "unat (x - (p + o1) + o1) \<le> unat (x - (p + o1)) + unat o1"
    unfolding unat_word_ariths(1) by (rule mod_less_eq_dividend)
  ultimately have "unat (x - (p + o1) + o1) < 4096" using o by simp
  from page_in [OF p this] x show False by simp
qed

lemma page_pa_of [simp]: "page (pa_of s pt va) = PTE2PA (pte_of s pt va)"
  by (simp add: pa_of_def page_in page_offset)

lemma pte_at_page:
  assumes "sv39 va"
  shows "pte_of s pt (page va) = pte_of s pt va"
proof -
  have "unat (page va) \<le> unat va" by (simp add: page_def unat_PGROUNDDOWN)
  then have "sv39 (page va)" using assms by (simp add: sv39_def)
  then have "\<forall>k\<le>2. PX k (page va) = PX k va" using same_PX_iff [OF assms, of "page va"] by simp
  then show ?thesis by (intro pte_at_PX) simp
qed

lemma same_page_pte: "sv39 va \<Longrightarrow> sv39 va' \<Longrightarrow> page va = page va' \<Longrightarrow> pte_of s pt va = pte_of s pt va'"
  by (metis pte_at_page)

text \<open>Storing bytes within one user page, seen by the user.\<close>

lemma store_user:
  assumes d: "sv39 d" and len: "unat d mod 4096 + length bs \<le> 4096" and va: "sv39 va"
    and sep: "page va \<noteq> page d \<Longrightarrow> PTE2PA (pte_of s pt va) \<noteq> PTE2PA (pte_of s pt d)"
  shows "store_bytes (pa_of s pt d) bs (pmem s) (pa_of s pt va) =
    (if unat d \<le> unat va \<and> unat va < unat d + length bs then bs ! (unat va - unat d)
     else ubyte s pt va)"
proof (cases "page va = page d")
  case True
  have "pa_of s pt va - pa_of s pt d = va - d"
    using same_page_pte [OF va d True, of s pt] True by (simp add: pa_of_def)
  moreover have "unat (va - d) < length bs \<longleftrightarrow> unat d \<le> unat va \<and> unat va < unat d + length bs"
    using len u64_bound [of d] u64_bound [of va] True d va
    by (auto simp: unat_sub_if' sv39_def)
  moreover have "unat d \<le> unat va \<Longrightarrow> unat (va - d) = unat va - unat d"
    by (simp add: unat_sub_if')
  ultimately show ?thesis by (simp add: store_bytes_def ubyte_def)
next
  case False
  have "store_bytes (pa_of s pt d) bs (pmem s) (pa_of s pt va) = pmem s (pa_of s pt va)"
    unfolding pa_of_def [of s pt d]
    using sep [OF False] len by (intro store_bytes_in_page) (simp_all add: page_offset)
  moreover have "\<not> (unat d \<le> unat va \<and> unat va < unat d + length bs)"
    using False len same_block [of "unat d" "unat va" "length bs"] by (auto simp: page_eq_iff)
  ultimately show ?thesis by (auto simp: ubyte_def)
qed

text \<open>What a store into user memory leaves as it was.\<close>

definition user_only :: "phys \<Rightarrow> addr \<Rightarrow> addr list \<Rightarrow> phys \<Rightarrow> bool" where
  "user_only s pt ps s' \<longleftrightarrow> separate s' pt ps \<and> pte_of s' pt = pte_of s pt \<and> kend s' = kend s
     \<and> tpages s' pt = tpages s pt
     \<and> (\<forall>x. (\<forall>va. uwritable s pt va \<longrightarrow> page x \<noteq> PTE2PA (pte_of s pt va)) \<longrightarrow> pmem s' x = pmem s x)"

lemma user_only_refl: "separate s pt ps \<Longrightarrow> user_only s pt ps s"
  by (simp add: user_only_def)

lemma uwritable_cong: "pte_of s' pt = pte_of s pt \<Longrightarrow> uwritable s' pt = uwritable s pt"
  and ureadable_cong: "pte_of s' pt = pte_of s pt \<Longrightarrow> ureadable s' pt = ureadable s pt"
  and pa_of_cong: "pte_of s' pt = pte_of s pt \<Longrightarrow> pa_of s' pt = pa_of s pt"
  by (simp_all add: uwritable_def ureadable_def pa_of_def fun_eq_iff)

lemma user_only_trans:
  "user_only s pt ps s1 \<Longrightarrow> user_only s1 pt ps s2 \<Longrightarrow> user_only s pt ps s2"
  unfolding user_only_def by (metis uwritable_cong)

lemma store_user_only:
  assumes sep: "separate s pt ps" and d: "uwritable s pt d"
    and len: "unat d mod 4096 + length bs \<le> 4096"
  shows "user_only s pt ps (s\<lparr>pmem := store_bytes (pa_of s pt d) bs (pmem s)\<rparr>)"
proof -
  let ?s = "s\<lparr>pmem := store_bytes (pa_of s pt d) bs (pmem s)\<rparr>"
  let ?p = "PTE2PA (pte_of s pt d)"
  have t: "table s pt ps" and fp: "free_pages s ps" and dj: "set ps \<inter> tpages s pt = {}"
    and p: "?p \<notin> tpages s pt" "?p \<notin> set ps"
    using sep d by (auto simp: separate_def sub_table_def)
  have out: "pmem ?s x = pmem s x" if x: "page x \<noteq> ?p" for x
    using x len unfolding pa_of_def
    by (simp add: store_bytes_in_page page_offset)
  have fp': "free_pages ?s ps"
  proof (rule free_pages_cong [OF fp])
    show "pmem ?s x = pmem s x" if "page x \<in> set ps" for x using that p(2) by (intro out) auto
  qed simp_all
  have "pmem ?s x = pmem s x" if "page x \<in> tpages s pt" for x using that p(1) by (intro out) auto
  note tc = table_cong [OF t fp' dj this]
  have pte: "pte_of ?s pt = pte_of s pt" and tp: "tpages ?s pt = tpages s pt" and t': "table ?s pt ps"
    using tc by blast+
  have "separate ?s pt ps"
    unfolding separate_def uwritable_cong [OF pte] ureadable_cong [OF pte] pte tp
    using t' sep by (simp add: separate_def)
  moreover have "pmem ?s x = pmem s x"
    if "\<forall>va. uwritable s pt va \<longrightarrow> page x \<noteq> PTE2PA (pte_of s pt va)" for x
    using that d by (intro out) auto
  ultimately show ?thesis unfolding user_only_def pte tp by simp
qed

lemma unat_page_rest: "unat (PGSIZE - (va - PGROUNDDOWN va)) = 4096 - unat va mod 4096"
  using page_offset [of va] by (simp add: page_def unat_sub_if')

text \<open>One round of the loop of \<^verbatim>\<open>copyout\<close>.\<close>

lemma copyout_round:
  assumes sep: "separate s pt ps" and src: "src \<noteq> []"
    and n: "n = min (4096 - unat d mod 4096) (length src)"
  shows "copyout pt d src s =
    (if uwritable s pt d
     then copyout pt (page d + 4096) (drop n src)
            (s\<lparr>pmem := store_bytes (pa_of s pt d) (take n src) (pmem s)\<rparr>)
     else Inr (-1, s))"
proof (cases "page d < MAXVA")
  case True
  have wf: "pt_wf (pmem s) 2 pt" using sep by (simp add: separate_def sub_table_def)
  have k: "unat (page d) = unat d div 4096 * 4096" by (simp add: page_def unat_PGROUNDDOWN)
  then have d: "d < MAXVA" using True by (simp add: word_less_nat_alt)
  have pte: "pte_of s pt (page d) = pte_of s pt d" using pte_at_page [OF MAXVA_sv39 [OF d]] .
  let ?a = "leaf_addr (pmem s) 2 pt (page d)"
  have w: "walk pt (PGROUNDDOWN d) False s = Inr (?a, s)" using walk_ro [OF True] by (simp add: page_def)
  have a: "?a = 0 \<Longrightarrow> pte_of s pt d = 0" "?a \<noteq> 0 \<Longrightarrow> load64 ?a (pmem s) = pte_of s pt d"
    using leaf_addr_0 [OF wf] leaf_addr_props [OF wf] pte by auto
  have m: "\<not> 274877906944 \<le> PGROUNDDOWN d" using True by (simp add: page_def)
  show ?thesis
  proof (cases "?a = 0")
    case True
    then show ?thesis using src w a(1) unfolding copyout.simps [of pt d src] Let_def
      by (simp add: uwritable_def m)
  next
    case False
    then show ?thesis
      using src w a(2) d unfolding copyout.simps [of pt d src] Let_def unat_page_rest n [symmetric]
      by (simp add: uwritable_def pa_of_def page_def m)
  qed
next
  case False
  then have "\<not> d < MAXVA" by (simp add: word_less_nat_alt page_def unat_PGROUNDDOWN)
  moreover have "274877906944 \<le> PGROUNDDOWN d" using False by (simp add: page_def not_less)
  ultimately show ?thesis using src by (simp add: copyout.simps [of pt d] uwritable_def Let_def)
qed

lemma copyout_user_only:
  "separate s pt ps \<Longrightarrow> \<exists>r s'. copyout pt d src s = Inr (r, s') \<and> (r = 0 \<or> r = -1) \<and> user_only s pt ps s'"
proof (induction "length src" arbitrary: d src s rule: less_induct)
  case less
  show ?case
  proof (cases "src \<noteq> [] \<and> uwritable s pt d")
    case True
    define n where "n = min (4096 - unat d mod 4096) (length src)"
    let ?s = "s\<lparr>pmem := store_bytes (pa_of s pt d) (take n src) (pmem s)\<rparr>"
    have "unat d mod 4096 < 4096" by simp
    then have n: "0 < n" "unat d mod 4096 + length (take n src) \<le> 4096" using True by (auto simp: n_def)
    have u: "user_only s pt ps ?s" using store_user_only [OF less.prems _ n(2)] True by blast
    then have "separate ?s pt ps" by (simp add: user_only_def)
    moreover have "length (drop n src) < length src" using n(1) True by simp
    ultimately obtain r s' where "copyout pt (page d + 4096) (drop n src) ?s = Inr (r, s')"
        "r = 0 \<or> r = -1" "user_only ?s pt ps s'" using less.hyps by blast
    then show ?thesis
      using copyout_round [OF less.prems _ n_def] True user_only_trans [OF u] by auto
  next
    case False
    then show ?thesis using copyout_round [OF less.prems _ refl] user_only_refl [OF less.prems]
      by (cases "src = []") (auto simp: copyout.simps)
  qed
qed

definition in_buf :: "addr \<Rightarrow> nat \<Rightarrow> addr \<Rightarrow> bool" where
  "in_buf d n va \<longleftrightarrow> unat d \<le> unat va \<and> unat va < unat d + n"

lemma copyout_stores:
  "separate s pt ps \<Longrightarrow> unat d + length src \<le> unat MAXVA \<Longrightarrow>
   \<forall>va. in_buf d (length src) va \<longrightarrow> uwritable s pt va \<Longrightarrow>
   \<exists>s'. copyout pt d src s = Inr (0, s') \<and> user_only s pt ps s'
     \<and> (\<forall>va. ureadable s pt va \<longrightarrow>
          ubyte s' pt va = (if in_buf d (length src) va then src ! (unat va - unat d) else ubyte s pt va))"
proof (induction "length src" arbitrary: d src s rule: less_induct)
  case less
  show ?case
  proof (cases "src = []")
    case True
    then show ?thesis using user_only_refl [OF less.prems(1)] by (auto simp: copyout.simps in_buf_def)
  next
    case False
    define n where "n = min (4096 - unat d mod 4096) (length src)"
    let ?s = "s\<lparr>pmem := store_bytes (pa_of s pt d) (take n src) (pmem s)\<rparr>" and ?d = "page d + 4096"
    have "unat d mod 4096 < 4096" by simp
    then have n: "0 < n" "unat d mod 4096 + length (take n src) \<le> 4096" "n \<le> length src"
      using False by (auto simp: n_def)
    have w: "uwritable s pt d" using less.prems(3) False by (simp add: in_buf_def)
    have u: "user_only s pt ps ?s" using store_user_only [OF less.prems(1) w n(2)] .
    have sep: "separate ?s pt ps" and pte: "pte_of ?s pt = pte_of s pt" using u by (auto simp: user_only_def)
    have "unat d div 4096 * 4096 \<le> unat d" "unat d < 274877906944"
      using w by (simp_all add: uwritable_def word_less_nat_alt)
    then have ud: "unat ?d = unat d div 4096 * 4096 + 4096"
      by (simp add: page_def unat_PGROUNDDOWN unat_word_ariths)
    have dm: "unat d = unat d div 4096 * 4096 + unat d mod 4096" by simp
    have full: "unat ?d = unat d + n" if "drop n src \<noteq> []"
    proof -
      have "n = 4096 - unat d mod 4096" using that by (simp add: n_def)
      then show ?thesis using ud dm \<open>unat d mod 4096 < 4096\<close> by linarith
    qed
    have le: "unat ?d + length (drop n src) \<le> unat MAXVA"
    proof (cases "drop n src = []")
      case True
      have "unat d < 4096 * 67108864" using w by (simp add: uwritable_def word_less_nat_alt)
      then have "unat d div 4096 < 67108864" by (simp add: less_mult_imp_div_less mult.commute)
      then show ?thesis using True ud by simp
    qed (use full less.prems(2) n(3) in simp)
    have sub: "in_buf ?d (length (drop n src)) va \<Longrightarrow> in_buf d (length src) va \<and> unat ?d = unat d + n" for va
      using full n(3) by (cases "drop n src = []") (auto simp: in_buf_def)
    then have "\<forall>va. in_buf ?d (length (drop n src)) va \<longrightarrow> uwritable ?s pt va"
      using less.prems(3) uwritable_cong [OF pte] by auto
    moreover have "length (drop n src) < length src" using n(1) False by simp
    ultimately obtain s' where s': "copyout pt ?d (drop n src) ?s = Inr (0, s')" "user_only ?s pt ps s'"
        "\<forall>va. ureadable ?s pt va \<longrightarrow> ubyte s' pt va =
           (if in_buf ?d (length (drop n src)) va then drop n src ! (unat va - unat ?d) else ubyte ?s pt va)"
      using less.hyps [OF _ sep le] by blast
    have "ubyte s' pt va = (if in_buf d (length src) va then src ! (unat va - unat d) else ubyte s pt va)"
      if r: "ureadable s pt va" for va
    proof -
      have b: "ubyte ?s pt va = (if in_buf d n va then src ! (unat va - unat d) else ubyte s pt va)"
      proof -
        have "ubyte ?s pt va = store_bytes (pa_of s pt d) (take n src) (pmem s) (pa_of s pt va)"
          using pa_of_cong [OF pte] by (simp add: ubyte_def)
        also have "\<dots> = (if unat d \<le> unat va \<and> unat va < unat d + length (take n src)
            then take n src ! (unat va - unat d) else ubyte s pt va)"
        proof (rule store_user)
          show "sv39 d" "sv39 va" using w r by (auto simp: uwritable_def ureadable_def intro: MAXVA_sv39)
          show "page va \<noteq> page d \<Longrightarrow> PTE2PA (pte_of s pt va) \<noteq> PTE2PA (pte_of s pt d)"
            using less.prems(1) w r unfolding separate_def by metis
        qed (fact n(2))
        finally show ?thesis using n(3) by (auto simp: in_buf_def)
      qed
      have "ureadable ?s pt va" using r ureadable_cong [OF pte] by simp
      moreover have "in_buf d (length src) va \<longleftrightarrow> in_buf d n va \<or> in_buf ?d (length (drop n src)) va"
      proof (cases "drop n src = []")
        case True
        then show ?thesis using n(3) by (auto simp: in_buf_def)
      next
        case False
        then show ?thesis using n(3) unfolding in_buf_def full [OF False] length_drop by linarith
      qed
      moreover have "drop n src ! (unat va - unat ?d) = src ! (unat va - unat d)"
        if i: "in_buf ?d (length (drop n src)) va"
      proof -
        have "unat ?d = unat d + n" using sub [OF i] by simp
        with i n(3) show ?thesis by (auto simp: in_buf_def)
      qed
      ultimately show ?thesis using s'(3) b by simp
    qed
    then show ?thesis
      using s' copyout_round [OF less.prems(1) False n_def] w user_only_trans [OF u] by auto
  qed
qed

lemma walkaddr_eq:
  assumes wf: "pt_wf (pmem s) 2 pt"
  shows "walkaddr pt va s = Inr (if va < MAXVA \<and> valid (pte_of s pt va) \<and> pte_of s pt va AND PTE_U \<noteq> 0
    then PTE2PA (pte_of s pt va) else 0)"
proof (cases "va < MAXVA")
  case True
  then show ?thesis
    using walk_ro [OF True, of pt s] leaf_addr_0 [OF wf, of va] leaf_addr_props [OF wf, of va]
    by (auto simp: walkaddr_def not_le)
qed (auto simp: walkaddr_def not_less dest: leD)

lemma walkaddr_page:
  assumes wf: "pt_wf (pmem s) 2 pt"
  shows "walkaddr pt (page va) s = Inr (if ureadable s pt va then PTE2PA (pte_of s pt va) else 0)"
proof -
  have "page va < MAXVA \<longleftrightarrow> va < MAXVA"
    by (simp add: word_less_nat_alt page_def unat_PGROUNDDOWN div_less_iff_less_mult)
  then show ?thesis
    using walkaddr_eq [OF wf, of "page va"] pte_at_page [OF MAXVA_sv39, of va s pt]
    by (auto simp: ureadable_def)
qed

lemma copyin_round:
  assumes wf: "pt_wf (pmem s) 2 pt" and len: "len \<noteq> 0"
    and n: "n = min (4096 - unat va mod 4096) len"
  shows "copyin pt va len s =
    (if ureadable s pt va
     then rbind (copyin pt (page va + 4096) (len - n) s) (\<lambda>(r, bs).
            Inr (r, load_bytes (pa_of s pt va) n (pmem s) @ bs))
     else Inr (-1, []))"
proof -
  have "ureadable s pt va \<Longrightarrow> PTE2PA (pte_of s pt va) \<noteq> 0" by (simp add: ureadable_def)
  then show ?thesis
    using walkaddr_page [OF wf, of va] len
    unfolding copyin.simps [of pt va] Let_def unat_page_rest n [symmetric]
    unfolding page_def [symmetric] by (simp add: pa_of_def)
qed

text \<open>The next chunk of a buffer starts at the next page.\<close>

lemma next_chunk:
  assumes d: "unat d + len \<le> unat MAXVA" "0 < len" and n: "n = min (4096 - unat d mod 4096) len"
  shows "0 < n" and "n \<le> len" and "unat d mod 4096 + n \<le> 4096"
    and "len \<noteq> n \<Longrightarrow> unat (page d + 4096) = unat d + n"
    and "unat (page d + 4096) + (len - n) \<le> unat MAXVA"
proof -
  have md: "unat d mod 4096 < 4096" by simp
  show "0 < n" "n \<le> len" "unat d mod 4096 + n \<le> 4096" using md d(2) by (auto simp: n)
  have dm: "unat d = unat d div 4096 * 4096 + unat d mod 4096" by simp
  have "unat d div 4096 * 4096 \<le> unat d" "unat d < 274877906944" using d by simp_all
  then have ud: "unat (page d + 4096) = unat d div 4096 * 4096 + 4096"
    by (simp add: page_def unat_PGROUNDDOWN unat_word_ariths)
  show full: "unat (page d + 4096) = unat d + n" if "len \<noteq> n"
  proof -
    have "n = 4096 - unat d mod 4096" using that by (simp add: n min_def split: if_splits)
    then show ?thesis using ud dm md by linarith
  qed
  have "unat d < 4096 * 67108864" using d by simp
  then have "unat d div 4096 < 67108864" by (simp add: less_mult_imp_div_less mult.commute)
  then show "unat (page d + 4096) + (len - n) \<le> unat MAXVA"
    using ud full d \<open>n \<le> len\<close> by (cases "len = n") simp_all
qed

lemma pa_of_add:
  assumes "sv39 d" and "unat d mod 4096 + n \<le> 4096" and "i < n"
  shows "pa_of s pt (d + of_nat i) = pa_of s pt d + of_nat i"
proof -
  have i: "unat (d + of_nat i) = unat d + i"
    using assms by (simp add: sv39_def unat_word_ariths)
  then have "page (d + of_nat i) = page d"
    using same_block [of "unat d" "unat d + i" n] assms by (simp add: page_eq_iff)
  moreover have "unat d + i < 549755813888"
  proof -
    have "unat d div 4096 * 4096 + unat d mod 4096 = unat d" by simp
    moreover have "unat d div 4096 < 134217728" using assms(1) by (simp add: sv39_def less_mult_imp_div_less)
    ultimately show ?thesis using assms(2,3) by linarith
  qed
  ultimately show ?thesis
    using same_page_pte [of "d + of_nat i" d s pt] i assms(1) by (simp add: pa_of_def sv39_def)
qed

lemma copyin_loads:
  "pt_wf (pmem s) 2 pt \<Longrightarrow> unat d + len \<le> unat MAXVA \<Longrightarrow>
   \<forall>va. in_buf d len va \<longrightarrow> ureadable s pt va \<Longrightarrow>
   copyin pt d len s = Inr (0, map (\<lambda>i. ubyte s pt (d + of_nat i)) [0..<len])"
proof (induction len arbitrary: d rule: less_induct)
  case (less len)
  show ?case
  proof (cases "len = 0")
    case True
    then show ?thesis by (simp add: copyin.simps)
  next
    case False
    define n where "n = min (4096 - unat d mod 4096) len"
    note c = next_chunk [OF less.prems(2) _ n_def]
    have len: "0 < len" using False by simp
    have r: "ureadable s pt d" using less.prems(3) len by (simp add: in_buf_def)
    have sub: "in_buf (page d + 4096) (len - n) va \<Longrightarrow> in_buf d len va" for va
      using c(4) [OF len] c(2) [OF len] by (cases "len = n") (auto simp: in_buf_def)
    have IH: "copyin pt (page d + 4096) (len - n) s =
        Inr (0, map (\<lambda>i. ubyte s pt (page d + 4096 + of_nat i)) [0..<len - n])"
      using less.IH [of "len - n" "page d + 4096"] c(1,5) len less.prems sub by auto
    have "load_bytes (pa_of s pt d) n (pmem s) = map (\<lambda>i. ubyte s pt (d + of_nat i)) [0..<n]"
      using pa_of_add [OF _ c(3) [OF len]] r
      by (auto simp: load_bytes_def ubyte_def ureadable_def MAXVA_sv39)
    moreover have "page d + 4096 = d + of_nat n" if "len \<noteq> n"
    proof -
      have "unat (d + of_nat n) = unat d + n"
        using less.prems(2) c(2) [OF len] by (simp add: unat_word_ariths)
      then show ?thesis using c(4) [OF len that] by (simp add: word_unat_eq_iff)
    qed
    then have "map (\<lambda>i. ubyte s pt (page d + 4096 + of_nat i)) [0..<len - n] =
        map (\<lambda>i. ubyte s pt (d + of_nat i)) [n..<len]"
      using c(2) [OF len]
      by (cases "len = n") (auto intro!: nth_equalityI simp: add.assoc)
    moreover have "[0..<len] = [0..<n] @ [n..<len]"
      using upt_add_eq_append [of 0 n "len - n"] c(2) [OF len] by simp
    ultimately show ?thesis
      using copyin_round [OF less.prems(1) False n_def] r IH by simp
  qed
qed

section \<open>Freeing an address space\<close>

text \<open>
  \<open>uspace s pt ps n\<close>: a page table that maps the \<open>n\<close> pages from address 0 and nothing else,
  each to a physical page of its own that is neither free nor part of the table.
\<close>

definition uspace :: "phys \<Rightarrow> addr \<Rightarrow> addr list \<Rightarrow> nat \<Rightarrow> bool" where
  "uspace s pt ps n \<longleftrightarrow> table s pt ps \<and> (\<forall>p\<in>tpages s pt. usable_page s p)
     \<and> unmap_pre s pt ps 0 n True
     \<and> (\<forall>va. sv39 va \<and> valid (pte_of s pt va) \<longrightarrow> in_range 0 n va)"

lemma uvmfree_frees:
  assumes u: "uspace s pt ps n" and n: "unat (PGROUNDUP sz) = 4096 * n" "4096 * n \<le> unat MAXVA"
  shows "\<exists>s' qs. uvmfree pt sz s = Inr s' \<and> free_pages s' qs \<and> kend s' = kend s
    \<and> set qs = set ps \<union> tpages s pt \<union> data_page s pt 0 ` {..<n}"
proof -
  note u = u [unfolded uspace_def]
  have z: "sz = 0 \<Longrightarrow> n = 0"
    using n(1) by (simp add: PGROUNDUP_alt unat_PGROUNDDOWN)
  have d: "unat (PGROUNDUP sz div 4096 * 4096) = 4096 * n"
    using n by (simp add: unat_word_ariths unat_div)
  have "\<exists>s1 qs. (if sz > 0 then uvmunmap pt 0 (PGROUNDUP sz div PGSIZE) True s else Inr s) = Inr s1
      \<and> unmap_post s pt ps 0 n True s1 qs"
  proof (cases "sz > 0")
    case True
    then show ?thesis
      using uvmunmap_loop_unmaps [of s pt ps 0 n "PGROUNDUP sz div 4096 * 4096" True] u d n(2)
      by (simp add: uvmunmap_def)
  next
    case False
    then have "n = 0" using z by (simp add: word_greater_zero_iff)
    then show ?thesis using False u by (auto simp: unmap_post_def freed_def)
  qed
  then obtain s1 qs where s1: "(if sz > 0 then uvmunmap pt 0 (PGROUNDUP sz div PGSIZE) True s else Inr s) = Inr s1"
      "unmap_post s pt ps 0 n True s1 qs" by blast
  note p = s1(2) [unfolded unmap_post_def]
  have "\<not> valid (pte_of s1 pt va)" if "sv39 va" for va using p u that by auto
  then have "no_leaf (pmem s1) 2 pt" by (rule no_leaf_pte_of)
  moreover have "\<forall>q\<in>tpages s1 pt. usable_page s1 q" using p u usable_page_cong [of s1 s] by simp
  ultimately obtain s' rs where f: "freewalk (Suc 2) pt s1 = Inr s'" "free_pages s' rs"
      "kend s' = kend s1" "set rs = set qs \<union> tpages s1 pt"
    using freewalk_frees [of s1 2 pt qs] p by blast
  from f(1) have "freewalk 3 pt s1 = Inr s'" by (simp only: numeral_3_eq_3 numeral_2_eq_2)
  then have "uvmfree pt sz s = Inr s'" by (simp only: uvmfree_def s1(1) rbind_Inr)
  moreover have "set rs = set ps \<union> tpages s pt \<union> data_page s pt 0 ` {..<n}"
    using f(4) p by (auto simp: freed_def)
  ultimately show ?thesis using f p by metis
qed

section \<open>Properties\<close>

text \<open>
  C6: on a well-formed page table, \<^verbatim>\<open>mappages\<close> of a range of unmapped pages always
  returns. Either it returns 0 and exactly the pages of the range translate to consecutive
  physical pages with the given permissions, every other translation being unchanged; or
  physical memory is exhausted, it returns -1, and a proper prefix of the range is mapped.
  The table stays well formed and grows by exactly the pages taken from the free list.
\<close>

theorem mappages_maps:
  assumes t: "table s pt ps" and va: "4096 dvd unat va" "unat va + 4096 * Suc n \<le> unat MAXVA"
    and nv: "\<forall>a. sv39 a \<and> in_range va (Suc n) a \<longrightarrow> \<not> valid (pte_of s pt a)"
  shows "\<exists>r s' k j. mappages pt va (4096 * of_nat (Suc n)) pa perm s = Inr (r, s')
    \<and> mappages_post s pt ps va n pa perm r s' k j"
proof -
  let ?sz = "4096 * of_nat (Suc n) :: u64" and ?la = "va + 4096 * of_nat (Suc n) - 4096"
  have la: "?la = va + 4096 * of_nat n" by (simp add: algebra_simps)
  have u: "unat ?la = unat va + 4096 * n" unfolding la using va(2) by (simp add: unat_word_ariths)
  have sz: "unat ?sz = 4096 * Suc n" using va(2) by (simp add: unat_word_ariths del: of_nat_Suc)
  then have "?sz mod 4096 = 0" "?sz \<noteq> 0" by (auto simp: word_mod_4096 dest: arg_cong [of _ _ unat])
  moreover have "va mod 4096 = 0" using va(1) by (simp add: word_mod_4096)
  moreover have "?la < MAXVA" using u va(2) by (simp add: word_less_nat_alt)
  from mappages_loop_maps [OF t va(1) this u nv, of pa perm]
  have "\<exists>r s' k j. mappages_loop pt va ?la pa perm s = Inr (r, s')
      \<and> mappages_post s pt ps va n pa perm r s' k j" .
  ultimately show ?thesis by (simp add: mappages_def del: of_nat_Suc)
qed

text \<open>\<open>vm_root\<close>: an empty page table in the memory \<open>three_pages\<close>.\<close>

definition vm_root :: addr where
  "vm_root = 0x80400000"

lemma vm_root_table:
  "table three_pages vm_root [0x80100000, 0x80200000, 0x80300000]"
  and vm_root_pages: "tpages three_pages vm_root = {vm_root}"
  and vm_root_empty: "pte_of three_pages vm_root va = 0"
proof -
  have "page (0x80100000) = 0x80100000" "page (0x80200000) = 0x80200000"
    by (simp_all add: page_of_aligned)
  then have z: "pmem three_pages x = 0" if "page x = vm_root" for x
    using that by (simp add: three_pages_def vm_root_def store64_other_page)
  have "pt_wf (pmem three_pages) 2 vm_root \<and> tpages three_pages vm_root = {vm_root}
      \<and> pte_of three_pages vm_root va = 0" for va
    by (rule pt_zero_page) (use z in \<open>simp_all add: vm_root_def\<close>)
  then show "table three_pages vm_root [0x80100000, 0x80200000, 0x80300000]"
    "tpages three_pages vm_root = {vm_root}" "pte_of three_pages vm_root va = 0"
    using free_pages_three by (auto simp: sub_table_def vm_root_def)
qed

theorem mappages_maps_witness:
  "\<exists>r s' k j. mappages vm_root 0x1000 0x2000 0x80500000 0x16 three_pages = Inr (r, s')
    \<and> mappages_post three_pages vm_root [0x80100000, 0x80200000, 0x80300000] 0x1000 1
        0x80500000 0x16 r s' k j"
  using mappages_maps [OF vm_root_table, where va = "0x1000" and n = 1 and pa = "0x80500000" and perm = "0x16"]
  by (simp add: vm_root_empty)

text \<open>
  \<open>vm_one\<close>: the address space in which page 0 is mapped to the physical page
  \<open>0x80500000\<close>, readable and writable by the user.
\<close>

lemma vm_one_exists:
  "\<exists>s ps. uspace s vm_root ps 1 \<and> pte_of s vm_root 0 = 0x20140017
    \<and> set ps \<subseteq> {0x80100000, 0x80200000, 0x80300000}"
proof -
  let ?ps = "[0x80100000, 0x80200000, 0x80300000] :: addr list"
  obtain r s k j where post: "mappages_post three_pages vm_root ?ps 0 0 0x80500000 0x16 r s k j"
    using mappages_loop_maps [OF vm_root_table, of 0 0 0 "0x80500000" "0x16"] by (auto simp: vm_root_empty)
  note p = post [unfolded mappages_post_def]
  have "k \<le> 2" using p by simp
  then have "drop k ?ps \<noteq> []" by simp
  then have j: "j = 1" using p by auto
  have e: "map_entry 0 0x80500000 0x16 va = 0x20140017" if "in_range 0 1 va" for va
  proof -
    have "unat (page va) = unat (0 :: addr)"
      using that by (simp add: in_range_def page_def unat_PGROUNDDOWN)
    then have "page va = 0" by (simp add: word_unat_eq_iff)
    then show ?thesis by (simp add: map_entry_def PA2PTE_def)
  qed
  have pte: "pte_of s vm_root va = (if in_range 0 1 va then 0x20140017 else 0)" if "sv39 va" for va
    using p that j e vm_root_empty by simp
  have pte0: "pte_of s vm_root 0 = 0x20140017" using pte [of 0] by (simp add: sv39_def in_range_def)
  have dp: "data_page s vm_root 0 0 = 0x80500000" using pte0 by (simp add: data_page_def PTE2PA_def)
  have tp: "tpages s vm_root = insert vm_root (set (take k ?ps))" using p vm_root_pages by simp
  have sub: "set (take k ?ps) \<subseteq> set ?ps" "set (drop k ?ps) \<subseteq> set ?ps"
    by (rule set_take_subset set_drop_subset)+
  have us: "usable_page s = usable_page three_pages" using p by (intro usable_page_cong) simp
  have "\<forall>q\<in>insert vm_root (set ?ps). usable_page three_pages q"
    by (simp add: usable_page_def three_pages_def vm_root_def)
  then have u: "\<forall>q\<in>tpages s vm_root. usable_page s q" using tp sub us by auto
  have v: "valid 0x20140017" by (simp add: valid_def)
  have "0x80500000 \<notin> set (drop k ?ps) \<union> tpages s vm_root" using tp sub by (auto simp: vm_root_def)
  then have "unmap_pre s vm_root (drop k ?ps) 0 1 True"
    using pte0 dp us v
    by (auto simp: unmap_pre_def PTE_FLAGS_def usable_page_def three_pages_def inj_on_def)
  then have "uspace s vm_root (drop k ?ps) 1"
    using p u pte v by (auto simp: uspace_def split: if_splits)
  with pte0 sub(2) show ?thesis by auto
qed

text \<open>
  C7: \<^verbatim>\<open>uvmunmap\<close> of \<open>n\<close> mapped pages removes exactly their translations and, when
  asked to free, returns exactly their physical pages to the allocator; no other memory and
  no other translation changes, and the table keeps all its pages.
\<close>

theorem uvmunmap_unmaps:
  assumes t: "table s pt ps" and va: "4096 dvd unat va" "unat va + 4096 * n \<le> unat MAXVA"
    and pre: "unmap_pre s pt ps va n do_free"
  shows "\<exists>s' qs. uvmunmap pt va (of_nat n) do_free s = Inr s' \<and> unmap_post s pt ps va n do_free s' qs"
proof -
  have "unat (va + of_nat n * 4096) = unat va + 4096 * n"
    using va(2) by (simp add: unat_word_ariths)
  moreover have "va mod 4096 = 0" using va(1) by (simp add: word_mod_4096)
  ultimately show ?thesis using uvmunmap_loop_unmaps [OF t va _ pre] by (simp add: uvmunmap_def)
qed

theorem uvmunmap_unmaps_witness:
  "\<exists>s ps s' qs. uvmunmap vm_root 0 (of_nat 1) True s = Inr s'
    \<and> unmap_post s vm_root ps 0 1 True s' qs \<and> pte_of s vm_root 0 \<noteq> 0"
proof -
  obtain s ps where u: "uspace s vm_root ps 1" "pte_of s vm_root 0 = 0x20140017"
    using vm_one_exists by blast
  then have "table s vm_root ps" "unmap_pre s vm_root ps 0 1 True" by (auto simp: uspace_def)
  then have "\<exists>s' qs. uvmunmap vm_root 0 (of_nat 1) True s = Inr s'
      \<and> unmap_post s vm_root ps 0 1 True s' qs" by (intro uvmunmap_unmaps) simp_all
  moreover have "pte_of s vm_root 0 \<noteq> 0" using u(2) by simp
  ultimately show ?thesis by blast
qed

text \<open>
  C8: no page leaks when an address space is destroyed. If the table maps exactly the
  pages of \<^verbatim>\<open>sz\<close> bytes from 0, \<^verbatim>\<open>uvmfree\<close> returns, and afterwards the free pages are
  those that were free, all the user's pages and all the pages of the table itself.
\<close>

theorem uvmfree_no_leak:
  assumes "uspace s pt ps n" and "unat (PGROUNDUP sz) = 4096 * n" and "4096 * n \<le> unat MAXVA"
  shows "\<exists>s' qs. uvmfree pt sz s = Inr s' \<and> free_pages s' qs \<and> kend s' = kend s
    \<and> set qs = set ps \<union> tpages s pt \<union> data_page s pt 0 ` {..<n}"
  using assms by (rule uvmfree_frees)

theorem uvmfree_no_leak_witness:
  "\<exists>s ps s' qs. uspace s vm_root ps 1 \<and> uvmfree vm_root 1000 s = Inr s' \<and> free_pages s' qs
    \<and> set qs = set ps \<union> tpages s vm_root \<union> data_page s vm_root 0 ` {..<1}"
proof -
  obtain s ps where u: "uspace s vm_root ps 1" using vm_one_exists by blast
  have "unat (PGROUNDUP 1000) = 4096 * 1" by (simp add: unat_PGROUNDUP)
  from uvmfree_no_leak [OF u this] u show ?thesis by auto
qed

text \<open>
  C9: the kernel is isolated from user pointers. Whatever address and length a process
  passes, \<^verbatim>\<open>copyout\<close> returns 0 or -1 and changes physical memory only in pages that the
  process's page table maps valid, user-accessible and writable; the table itself, the free
  list and every other page are untouched.
\<close>

theorem copyout_isolated:
  assumes "separate s pt ps"
  shows "\<exists>r s'. copyout pt dstva src s = Inr (r, s') \<and> (r = 0 \<or> r = -1) \<and> user_only s pt ps s'"
  using assms by (rule copyout_user_only)

lemma vm_one_rw:
  assumes "pte_of s vm_root 0 = 0x20140017" and "unat va < 4096"
  shows "uwritable s vm_root va \<and> ureadable s vm_root va"
proof -
  have "page va = page 0" using assms(2) by (simp add: page_eq_iff)
  then have "pte_of s vm_root va = 0x20140017"
    using same_page_pte [of va 0 s vm_root] assms by (simp add: sv39_def)
  then show ?thesis using assms(2)
    by (simp add: uwritable_def ureadable_def valid_def word_less_nat_alt PTE2PA_def)
qed

lemma uspace_one_separate:
  assumes u: "uspace s vm_root ps 1"
  shows "separate s vm_root ps"
proof -
  have "page va = 0" if "valid (pte_of s vm_root va)" "va < MAXVA" for va
  proof -
    have "in_range 0 1 va" using u that MAXVA_sv39 by (auto simp: uspace_def)
    then have "unat (page va) = unat (0 :: addr)"
      by (simp add: in_range_def page_def unat_PGROUNDDOWN)
    then show ?thesis by (simp add: word_unat_eq_iff)
  qed
  note pg = this
  have d: "PTE2PA (pte_of s vm_root 0) \<notin> set ps \<union> tpages s vm_root"
    using u by (auto simp: uspace_def unmap_pre_def data_page_def)
  have "pte_of s vm_root va = pte_of s vm_root 0" if "uwritable s vm_root va" for va
  proof -
    have "page va = page 0" using pg [of va] that by (simp add: uwritable_def page_of_aligned)
    then show ?thesis using that same_page_pte [of va 0] MAXVA_sv39
      by (auto simp: uwritable_def sv39_def)
  qed
  then have "PTE2PA (pte_of s vm_root va) \<notin> tpages s vm_root \<union> set ps" if "uwritable s vm_root va" for va
    using d that by auto
  moreover have "page va = page va'" if "uwritable s vm_root va" "ureadable s vm_root va'" for va va'
    using that pg [of va] pg [of va'] by (simp add: uwritable_def ureadable_def)
  ultimately show ?thesis using u by (auto simp: separate_def uspace_def)
qed

theorem copyout_isolated_witness:
  "\<exists>s ps r s'. separate s vm_root ps \<and> copyout vm_root 4000 (replicate 200 7) s = Inr (r, s')
    \<and> (r = 0 \<or> r = -1) \<and> user_only s vm_root ps s'"
proof -
  obtain s ps where "uspace s vm_root ps 1" using vm_one_exists by blast
  then have "separate s vm_root ps" by (rule uspace_one_separate)
  from copyout_isolated [OF this, of 4000 "replicate 200 7"] this show ?thesis by blast
qed

text \<open>
  C10: what the kernel copies out to a writable user buffer with \<^verbatim>\<open>copyout\<close> it reads
  back unchanged with \<^verbatim>\<open>copyin\<close>, across page boundaries, and both succeed; all other
  bytes of the user's memory keep their value.
\<close>

theorem copyout_copyin:
  assumes sep: "separate s pt ps" and d: "unat dstva + length src \<le> unat MAXVA"
    and w: "\<forall>va. in_buf dstva (length src) va \<longrightarrow> uwritable s pt va \<and> ureadable s pt va"
  shows "\<exists>s'. copyout pt dstva src s = Inr (0, s') \<and> copyin pt dstva (length src) s' = Inr (0, src)
    \<and> (\<forall>va. ureadable s pt va \<and> \<not> in_buf dstva (length src) va \<longrightarrow> ubyte s' pt va = ubyte s pt va)"
proof -
  obtain s' where s': "copyout pt dstva src s = Inr (0, s')" "user_only s pt ps s'"
      "\<forall>va. ureadable s pt va \<longrightarrow> ubyte s' pt va =
        (if in_buf dstva (length src) va then src ! (unat va - unat dstva) else ubyte s pt va)"
    using copyout_stores [OF sep d] w by blast
  have pte: "pte_of s' pt = pte_of s pt" and wf: "pt_wf (pmem s') 2 pt"
    using s'(2) by (auto simp: user_only_def separate_def sub_table_def)
  have "ubyte s' pt (dstva + of_nat i) = src ! i" if i: "i < length src" for i
  proof -
    have "unat (dstva + of_nat i) = unat dstva + i" using d i by (simp add: unat_word_ariths)
    then show ?thesis using s'(3) w i by (simp add: in_buf_def)
  qed
  then have "map (\<lambda>i. ubyte s' pt (dstva + of_nat i)) [0..<length src] = src"
    by (intro nth_equalityI) simp_all
  then have "copyin pt dstva (length src) s' = Inr (0, src)"
    using copyin_loads [OF wf d] w ureadable_cong [OF pte] by simp
  then show ?thesis using s' by auto
qed

theorem copyout_copyin_witness:
  "\<exists>s s'. copyout vm_root 100 [1, 2, 3] s = Inr (0, s') \<and> copyin vm_root 100 3 s' = Inr (0, [1, 2, 3])"
proof -
  obtain s ps where u: "uspace s vm_root ps 1" "pte_of s vm_root 0 = 0x20140017"
    using vm_one_exists by blast
  have "uwritable s vm_root va \<and> ureadable s vm_root va" if "in_buf 100 (length [1, 2, 3 :: byte]) va" for va
    using that u(2) by (intro vm_one_rw) (simp_all add: in_buf_def)
  then have "\<exists>s'. copyout vm_root 100 [1, 2, 3] s = Inr (0, s')
      \<and> copyin vm_root 100 (length [1, 2, 3 :: byte]) s' = Inr (0, [1, 2, 3])
      \<and> (\<forall>va. ureadable s vm_root va \<and> \<not> in_buf 100 (length [1, 2, 3 :: byte]) va \<longrightarrow>
           ubyte s' vm_root va = ubyte s vm_root va)"
    by (intro copyout_copyin [OF uspace_one_separate [OF u(1)]]) simp_all
  then show ?thesis by (auto simp: eval_nat_numeral)
qed

end
