(* ===== verification/Sleeplock.thy ===== *)
theory Sleeplock
  imports Prelude
begin

text \<open>
  \<^verbatim>\<open>kernel/sleeplock.c\<close>: locks that are held across sleeps. The operations on one lock are
  steps under its spinlock \<^verbatim>\<open>lk->lk\<close>. \<open>acquiresleep\<close> on a held lock puts the caller to
  sleep on the lock; code that is followed sequentially stops there with \<open>Sleeps\<close>.

  The second part interleaves the calls of any number of processes: a process inside
  \<^verbatim>\<open>acquiresleep\<close> is waiting for its turn, asleep, or the holder.
\<close>

section \<open>Operations\<close>

record sleeplock =
  slocked :: bool
  slpid :: int

definition initsleeplock :: sleeplock where
  "initsleeplock = \<lparr>slocked = False, slpid = 0\<rparr>"

definition acquiresleep :: "chan \<Rightarrow> int \<Rightarrow> sleeplock \<Rightarrow> sleeplock res" where
  "acquiresleep ch pid lk =
     (if slocked lk then Inl (Sleeps ch) else Inr (lk\<lparr>slocked := True, slpid := pid\<rparr>))"

definition releasesleep :: "sleeplock \<Rightarrow> sleeplock" where
  "releasesleep lk = lk\<lparr>slocked := False, slpid := 0\<rparr>"

definition holdingsleep :: "int \<Rightarrow> sleeplock \<Rightarrow> bool" where
  "holdingsleep pid lk \<longleftrightarrow> slocked lk \<and> slpid lk = pid"

section \<open>Interleaved callers\<close>

text \<open>
  Where each process is with respect to the lock: outside, at the test of the loop, asleep in
  \<^verbatim>\<open>sleep(lk, &lk->lk)\<close>, or past \<^verbatim>\<open>acquiresleep\<close>. \<open>releasesleep\<close> wakes every sleeper,
  which then tests again.
\<close>

datatype stage = Outside | Testing | Asleep | Holding

record sl_state =
  slk :: sleeplock
  stages :: "int \<Rightarrow> stage"

definition wake_all :: "(int \<Rightarrow> stage) \<Rightarrow> int \<Rightarrow> stage" where
  "wake_all st = (\<lambda>p. if st p = Asleep then Testing else st p)"

inductive sl_step :: "sl_state \<Rightarrow> sl_state \<Rightarrow> bool" where
  call: "stages s p = Outside \<Longrightarrow> sl_step s (s\<lparr>stages := (stages s)(p := Testing)\<rparr>)"
| block: "stages s p = Testing \<Longrightarrow> acquiresleep ch p (slk s) = Inl (Sleeps ch) \<Longrightarrow>
    sl_step s (s\<lparr>stages := (stages s)(p := Asleep)\<rparr>)"
| acquire: "stages s p = Testing \<Longrightarrow> acquiresleep ch p (slk s) = Inr lk \<Longrightarrow>
    sl_step s (s\<lparr>slk := lk, stages := (stages s)(p := Holding)\<rparr>)"
| release: "stages s p = Holding \<Longrightarrow>
    sl_step s (s\<lparr>slk := releasesleep (slk s), stages := wake_all ((stages s)(p := Outside))\<rparr>)"

inductive sl_reach :: "sl_state \<Rightarrow> bool" where
  init: "slk s = initsleeplock \<Longrightarrow> \<forall>p. stages s p = Outside \<Longrightarrow> sl_reach s"
| step: "sl_reach s \<Longrightarrow> sl_step s s' \<Longrightarrow> sl_reach s'"

definition sl_inv :: "sl_state \<Rightarrow> bool" where
  "sl_inv s \<longleftrightarrow>
     (if slocked (slk s) then (\<forall>p. stages s p = Holding \<longleftrightarrow> p = slpid (slk s))
      else \<forall>p. stages s p \<noteq> Holding \<and> stages s p \<noteq> Asleep)"

lemma sl_step_inv: "sl_step s s' \<Longrightarrow> sl_inv s \<Longrightarrow> sl_inv s'"
  by (induction rule: sl_step.induct)
     (auto simp: sl_inv_def acquiresleep_def releasesleep_def wake_all_def split: if_splits,
      (metis stage.distinct)+)

lemma sl_reach_inv: "sl_reach s \<Longrightarrow> sl_inv s"
proof (induction rule: sl_reach.induct)
  case (init s)
  then show ?case by (simp add: sl_inv_def initsleeplock_def)
qed (rule sl_step_inv)

section \<open>Properties\<close>

text \<open>
  C20: a sleeplock excludes. In every reachable interleaving of calls, at most one process
  is past \<^verbatim>\<open>acquiresleep\<close>, \<^verbatim>\<open>holdingsleep\<close> is true for exactly that process, and no
  process sleeps on a lock that is free (a wakeup is never lost).
\<close>

theorem sleeplock_exclusive:
  assumes "sl_reach s"
  shows "(stages s p = Holding \<longleftrightarrow> holdingsleep p (slk s))
    \<and> (stages s p = Holding \<and> stages s q = Holding \<longrightarrow> p = q)
    \<and> (stages s p = Asleep \<longrightarrow> slocked (slk s))"
  using sl_reach_inv [OF assms] by (auto simp: sl_inv_def holdingsleep_def split: if_splits)

definition sl_example :: sl_state where
  "sl_example = \<lparr>slk = \<lparr>slocked = True, slpid = 3\<rparr>, stages = (\<lambda>_. Outside)(3 := Holding)\<rparr>"

lemma sl_example_reach: "sl_reach sl_example"
proof -
  let ?s0 = "\<lparr>slk = initsleeplock, stages = \<lambda>_. Outside\<rparr>"
  let ?s1 = "?s0\<lparr>stages := (stages ?s0)(3 := Testing)\<rparr>"
  have "sl_reach ?s0" by (rule sl_reach.init) simp_all
  moreover have "sl_step ?s0 ?s1" by (rule sl_step.call) simp
  ultimately have r1: "sl_reach ?s1" by (rule sl_reach.step)
  have "sl_step ?s1 (?s1\<lparr>slk := \<lparr>slocked = True, slpid = 3\<rparr>, stages := (stages ?s1)(3 := Holding)\<rparr>)"
    by (rule sl_step.acquire [where ch = ChLog]) (simp_all add: acquiresleep_def initsleeplock_def)
  from sl_reach.step [OF r1 this] show ?thesis by (simp add: sl_example_def)
qed

theorem sleeplock_exclusive_witness:
  "stages sl_example 3 = Holding \<and> holdingsleep 3 (slk sl_example) \<and> stages sl_example 4 \<noteq> Holding"
  using sleeplock_exclusive [OF sl_example_reach, of 3 4] by (simp add: sl_example_def)

end
