(* ===== verification/Encoding.thy ===== *)
theory Encoding
  imports Prelude
begin

text \<open>
  Integer fields inside blocks of bytes, little-endian, at a byte offset: how the kernel
  reads and writes the structures it overlays on disk blocks (\<^verbatim>\<open>struct logheader\<close>,
  \<^verbatim>\<open>struct superblock\<close>, \<^verbatim>\<open>struct dinode\<close>, \<^verbatim>\<open>struct dirent\<close>, the indirect block).
\<close>

definition put_bytes :: "nat \<Rightarrow> byte list \<Rightarrow> byte list \<Rightarrow> byte list" where
  "put_bytes off bs d = take off d @ bs @ drop (off + length bs) d"

definition get_bytes :: "nat \<Rightarrow> nat \<Rightarrow> byte list \<Rightarrow> byte list" where
  "get_bytes off n d = take n (drop off d)"

definition get32 :: "nat \<Rightarrow> byte list \<Rightarrow> u32" where
  "get32 off d = le_word (get_bytes off 4 d)"

definition put32 :: "nat \<Rightarrow> u32 \<Rightarrow> byte list \<Rightarrow> byte list" where
  "put32 off v d = put_bytes off (le_bytes 4 v) d"

definition get16 :: "nat \<Rightarrow> byte list \<Rightarrow> u16" where
  "get16 off d = le_word (get_bytes off 2 d)"

definition put16 :: "nat \<Rightarrow> u16 \<Rightarrow> byte list \<Rightarrow> byte list" where
  "put16 off v d = put_bytes off (le_bytes 2 v) d"

lemma length_put_bytes [simp]: "off + length bs \<le> length d \<Longrightarrow> length (put_bytes off bs d) = length d"
  by (simp add: put_bytes_def)

lemma length_get_bytes [simp]: "off + n \<le> length d \<Longrightarrow> length (get_bytes off n d) = n"
  by (simp add: get_bytes_def)

lemma get_put_bytes_same [simp]:
  "off + length bs \<le> length d \<Longrightarrow> n = length bs \<Longrightarrow> get_bytes off n (put_bytes off bs d) = bs"
  by (simp add: get_bytes_def put_bytes_def)

lemma nth_put_bytes:
  "off + length bs \<le> length d \<Longrightarrow> i < length d \<Longrightarrow>
   put_bytes off bs d ! i = (if off \<le> i \<and> i < off + length bs then bs ! (i - off) else d ! i)"
  by (auto simp: put_bytes_def nth_append min_def)

lemma get_put_bytes_other:
  assumes "off + length bs \<le> length d" and "off' + n \<le> length d"
    and "off' + n \<le> off \<or> off + length bs \<le> off'"
  shows "get_bytes off' n (put_bytes off bs d) = get_bytes off' n d"
  using assms by (intro nth_equalityI) (auto simp: get_bytes_def nth_put_bytes)

lemma length_put32 [simp]: "off + 4 \<le> length d \<Longrightarrow> length (put32 off v d) = length d"
  by (simp add: put32_def)

lemma length_put16 [simp]: "off + 2 \<le> length d \<Longrightarrow> length (put16 off v d) = length d"
  by (simp add: put16_def)

lemma get_put32 [simp]: "off + 4 \<le> length d \<Longrightarrow> get32 off (put32 off v d) = v"
  by (simp add: get32_def put32_def le_word_le_bytes take_bit_word_eq_self)

lemma get_put32_other:
  "off + 4 \<le> length d \<Longrightarrow> off' + 4 \<le> length d \<Longrightarrow> off' + 4 \<le> off \<or> off + 4 \<le> off' \<Longrightarrow>
   get32 off' (put32 off v d) = get32 off' d"
  by (simp add: get32_def put32_def get_put_bytes_other)

lemma get_put16 [simp]: "off + 2 \<le> length d \<Longrightarrow> get16 off (put16 off v d) = v"
  by (simp add: get16_def put16_def le_word_le_bytes take_bit_word_eq_self)

lemma get16_put16_other:
  "off + 2 \<le> length d \<Longrightarrow> off' + 2 \<le> length d \<Longrightarrow> off' + 2 \<le> off \<or> off + 2 \<le> off' \<Longrightarrow>
   get16 off' (put16 off v d) = get16 off' d"
  by (simp add: get16_def put16_def get_put_bytes_other)

lemma get16_put32_other:
  "off + 4 \<le> length d \<Longrightarrow> off' + 2 \<le> length d \<Longrightarrow> off' + 2 \<le> off \<or> off + 4 \<le> off' \<Longrightarrow>
   get16 off' (put32 off v d) = get16 off' d"
  by (simp add: get16_def put32_def get_put_bytes_other)

lemma get32_put16_other:
  "off + 2 \<le> length d \<Longrightarrow> off' + 4 \<le> length d \<Longrightarrow> off' + 4 \<le> off \<or> off + 2 \<le> off' \<Longrightarrow>
   get32 off' (put16 off v d) = get32 off' d"
  by (simp add: get32_def put16_def get_put_bytes_other)

text \<open>An array of 32-bit integers at an offset.\<close>

primrec put32s :: "nat \<Rightarrow> u32 list \<Rightarrow> byte list \<Rightarrow> byte list" where
  "put32s off [] d = d"
| "put32s off (v # vs) d = put32s (off + 4) vs (put32 off v d)"

definition get32s :: "nat \<Rightarrow> nat \<Rightarrow> byte list \<Rightarrow> u32 list" where
  "get32s off n d = map (\<lambda>i. get32 (off + 4 * i) d) [0..<n]"

lemma length_put32s [simp]:
  "off + 4 * length vs \<le> length d \<Longrightarrow> length (put32s off vs d) = length d"
  by (induction vs arbitrary: off d) auto

lemma put32s_append: "put32s off (xs @ ys) d = put32s (off + 4 * length xs) ys (put32s off xs d)"
  by (induction xs arbitrary: off d) (simp_all add: algebra_simps)

lemma get32_put32s_other:
  "off + 4 * length vs \<le> length d \<Longrightarrow> off' + 4 \<le> length d \<Longrightarrow>
   off' + 4 \<le> off \<or> off + 4 * length vs \<le> off' \<Longrightarrow> get32 off' (put32s off vs d) = get32 off' d"
  by (induction vs arbitrary: off d) (auto simp: get_put32_other)

lemma get32_put32s:
  "off + 4 * length vs \<le> length d \<Longrightarrow> i < length vs \<Longrightarrow> get32 (off + 4 * i) (put32s off vs d) = vs ! i"
proof (induction vs arbitrary: off d i)
  case (Cons v vs)
  show ?case
  proof (cases i)
    case 0
    then show ?thesis using Cons.prems by (simp add: get32_put32s_other)
  next
    case (Suc j)
    then show ?thesis using Cons.IH [of "off + 4" "put32 off v d" j] Cons.prems by (simp add: add.assoc)
  qed
qed simp

lemma get32s_put32s:
  "off + 4 * length vs \<le> length d \<Longrightarrow> n = length vs \<Longrightarrow> get32s off n (put32s off vs d) = vs"
  by (intro nth_equalityI) (simp_all add: get32s_def get32_put32s)

lemma length_get32s [simp]: "length (get32s off n d) = n"
  by (simp add: get32s_def)

end
