(* ===== verification/Ondisk.thy ===== *)
theory Ondisk
  imports Encoding Layout
begin

text \<open>
  \<^verbatim>\<open>kernel/fs.h\<close>: the on-disk format. Structures are records, with their layout in a block
  given by a reader and a writer at a byte offset. Fields of type \<^verbatim>\<open>short\<close> are kept as 16-bit
  words.
\<close>

definition ROOTINO :: u32 where [simp]: "ROOTINO = 1"
definition BSIZE :: nat where [simp]: "BSIZE = 1024"
definition FSMAGIC :: u32 where [simp]: "FSMAGIC = 0x10203040"
definition NDIRECT :: nat where [simp]: "NDIRECT = 12"
definition NINDIRECT :: nat where [simp]: "NINDIRECT = BSIZE div 4"
definition MAXFILE :: nat where [simp]: "MAXFILE = NDIRECT + NINDIRECT"
definition DIRSIZ :: nat where [simp]: "DIRSIZ = 14"
definition IPB :: nat where [simp]: "IPB = BSIZE div 64"
definition BPB :: nat where [simp]: "BPB = BSIZE * 8"

definition T_DIR :: u16 where [simp]: "T_DIR = 1"
definition T_FILE :: u16 where [simp]: "T_FILE = 2"
definition T_DEVICE :: u16 where [simp]: "T_DEVICE = 3"

record superblock =
  magic :: u32
  sb_size :: u32
  nblocks :: u32
  ninodes :: u32
  nlog :: u32
  logstart :: u32
  inodestart :: u32
  bmapstart :: u32

record dinode =
  di_type :: u16
  di_major :: u16
  di_minor :: u16
  di_nlink :: u16
  di_size :: u32
  di_addrs :: "u32 list"

record dirent =
  de_inum :: u16
  de_name :: "byte list"

definition IBLOCK :: "u32 \<Rightarrow> superblock \<Rightarrow> u32" where
  "IBLOCK i sb = i div of_nat IPB + inodestart sb"

definition BBLOCK :: "u32 \<Rightarrow> superblock \<Rightarrow> u32" where
  "BBLOCK b sb = b div of_nat BPB + bmapstart sb"

section \<open>Layout in a block\<close>

definition get_sb :: "byte list \<Rightarrow> superblock" where
  "get_sb d = \<lparr>magic = get32 0 d, sb_size = get32 4 d, nblocks = get32 8 d, ninodes = get32 12 d,
     nlog = get32 16 d, logstart = get32 20 d, inodestart = get32 24 d, bmapstart = get32 28 d\<rparr>"

definition put_sb :: "superblock \<Rightarrow> byte list \<Rightarrow> byte list" where
  "put_sb sb d = put32s 0 [magic sb, sb_size sb, nblocks sb, ninodes sb, nlog sb, logstart sb,
     inodestart sb, bmapstart sb] d"

definition get_dinode :: "nat \<Rightarrow> byte list \<Rightarrow> dinode" where
  "get_dinode off d = \<lparr>di_type = get16 off d, di_major = get16 (off + 2) d,
     di_minor = get16 (off + 4) d, di_nlink = get16 (off + 6) d, di_size = get32 (off + 8) d,
     di_addrs = get32s (off + 12) (NDIRECT + 1) d\<rparr>"

definition put_dinode :: "nat \<Rightarrow> dinode \<Rightarrow> byte list \<Rightarrow> byte list" where
  "put_dinode off di d =
     (let d = put16 off (di_type di) d;
          d = put16 (off + 2) (di_major di) d;
          d = put16 (off + 4) (di_minor di) d;
          d = put16 (off + 6) (di_nlink di) d;
          d = put32 (off + 8) (di_size di) d
      in put32s (off + 12) (di_addrs di) d)"

definition get_dirent :: "byte list \<Rightarrow> dirent" where
  "get_dirent d = \<lparr>de_inum = get16 0 d, de_name = get_bytes 2 DIRSIZ d\<rparr>"

definition dirent_bytes :: "dirent \<Rightarrow> byte list" where
  "dirent_bytes de = le_bytes 2 (de_inum de) @ de_name de"

section \<open>Round trips\<close>

lemma get16_put32s_other:
  "off + 4 * length vs \<le> length d \<Longrightarrow> off' + 2 \<le> length d \<Longrightarrow>
   off' + 2 \<le> off \<or> off + 4 * length vs \<le> off' \<Longrightarrow> get16 off' (put32s off vs d) = get16 off' d"
  by (induction vs arbitrary: off d) (auto simp: get16_put32_other)

lemma length_put_dinode [simp]:
  "off + 64 \<le> length d \<Longrightarrow> length (di_addrs di) = 13 \<Longrightarrow> length (put_dinode off di d) = length d"
  by (simp add: put_dinode_def Let_def)

lemma get_put_dinode:
  assumes "off + 64 \<le> length d" and "length (di_addrs di) = NDIRECT + 1"
  shows "get_dinode off (put_dinode off di d) = di"
  using assms
  by (simp add: get_dinode_def put_dinode_def Let_def get32s_put32s get16_put32s_other get32_put32s_other
      get16_put32_other get16_put16_other)

lemma get_put_dinode_other:
  assumes "off + 64 \<le> length d" and "off' + 64 \<le> length d" and "length (di_addrs di) = NDIRECT + 1"
    and "off' + 64 \<le> off \<or> off + 64 \<le> off'"
  shows "get_dinode off' (put_dinode off di d) = get_dinode off' d"
proof -
  have "get32s (off' + 12) (NDIRECT + 1) (put_dinode off di d) = get32s (off' + 12) (NDIRECT + 1) d"
    using assms by (auto simp: get32s_def put_dinode_def Let_def get32_put32s_other get32_put16_other
        get_put32_other)
  then show ?thesis using assms
    by (auto simp: get_dinode_def put_dinode_def Let_def get16_put32s_other get32_put32s_other
      get16_put32_other get16_put16_other get32_put16_other get_put32_other)
qed

lemma get_dirent_bytes:
  "length (de_name de) = DIRSIZ \<Longrightarrow> get_dirent (dirent_bytes de) = de"
  by (simp add: get_dirent_def dirent_bytes_def get16_def get_bytes_def le_word_le_bytes take_bit_word_eq_self)

lemma length_dirent_bytes [simp]: "length (de_name de) = 14 \<Longrightarrow> length (dirent_bytes de) = 16"
  by (simp add: dirent_bytes_def)

lemma get_put_sb: "32 \<le> length d \<Longrightarrow> get_sb (put_sb sb d) = sb"
  by (simp add: get_sb_def put_sb_def get_put32_other)

end
