(* ===== verification/Kstate.thy ===== *)
theory Kstate
  imports Vm
begin

text \<open>
  \<^verbatim>\<open>kernel/proc.h\<close> and the part of \<^verbatim>\<open>kernel/proc.c\<close> that the other components rely on: the
  process table and the record of kernel state that every component extends. \<open>cur\<close> is the
  index of \<^verbatim>\<open>myproc()\<close> in the table, or \<open>NPROC\<close> when no process runs. Pointers to files and
  inodes are indices into their tables. \<open>kout\<close> holds the bytes given to the UART, latest first, and
  \<open>trampoline\<close> is the address the linker gives to the trampoline page.
\<close>

section \<open>Model\<close>

datatype procstate = UNUSED | USED | SLEEPING | RUNNABLE | RUNNING | ZOMBIE

text \<open>Where a saved context resumes: nowhere yet, at \<^verbatim>\<open>forkret\<close>, or after its call of \<^verbatim>\<open>swtch\<close>.\<close>

datatype resume = NoCode | Forkret | AfterSwtch

record kcontext =
  ctx_ra :: resume
  ctx_sp :: u64

record proc =
  pstate :: procstate
  pchan :: "chan option"
  pkilled :: int
  xstate :: int
  pid :: int
  parent :: "nat option"
  kstack :: u64
  psz :: u64
  pagetable :: addr
  trapframe :: addr
  pcontext :: kcontext
  ofile :: "nat option list"
  cwd :: "nat option"
  pname :: "byte list"

record kern =
  phy :: phys
  procs :: "nat \<Rightarrow> proc"
  cur :: nat
  nextpid :: int
  initproc :: nat
  ticks :: u32
  trampoline :: addr
  kout :: "byte list"

definition myproc :: "'a kern_scheme \<Rightarrow> proc" where
  "myproc s = procs s (cur s)"

definition curpid :: "'a kern_scheme \<Rightarrow> int" where
  "curpid s = pid (myproc s)"

definition upd_proc :: "nat \<Rightarrow> (proc \<Rightarrow> proc) \<Rightarrow> 'a kern_scheme \<Rightarrow> 'a kern_scheme" where
  "upd_proc i f s = s\<lparr>procs := (procs s)(i := f (procs s i))\<rparr>"

definition wakeup :: "chan \<Rightarrow> 'a kern_scheme \<Rightarrow> 'a kern_scheme" where
  "wakeup ch s =
     fold (\<lambda>p s.
       if p \<noteq> cur s \<and> pstate (procs s p) = SLEEPING \<and> pchan (procs s p) = Some ch
       then upd_proc p (\<lambda>x. x\<lparr>pstate := RUNNABLE\<rparr>) s
       else s) [0..<NPROC] s"

text \<open>
  Console output of the kernel. The busy wait of \<^verbatim>\<open>uartputc_sync\<close> ends when the transmitter is
  idle; then the byte is sent.
\<close>

definition uartputc_sync :: "byte \<Rightarrow> 'a kern_scheme \<Rightarrow> 'a kern_scheme" where
  "uartputc_sync c s = s\<lparr>kout := c # kout s\<rparr>"

definition BACKSPACE :: int where [simp]: "BACKSPACE = 0x100"

definition consputc :: "int \<Rightarrow> 'a kern_scheme \<Rightarrow> 'a kern_scheme" where
  "consputc c s =
     (if c = BACKSPACE then uartputc_sync 8 (uartputc_sync 32 (uartputc_sync 8 s))
      else uartputc_sync (of_int c) s)"

definition bytes :: "string \<Rightarrow> byte list" where
  "bytes cs = map of_char cs"

text \<open>Output of a formatted message; \<open>Printf\<close> shows what \<^verbatim>\<open>printf\<close> formats.\<close>

definition kputs :: "byte list \<Rightarrow> 'a kern_scheme \<Rightarrow> 'a kern_scheme" where
  "kputs bs s = fold (\<lambda>c. consputc (uint c)) bs s"

text \<open>
  The destination or source of a copy: a user address, a kernel address (which is physical,
  by the direct map), or a local variable of the caller. Bytes copied to a local variable
  are returned; a local variable that is copied from is given by its bytes.
\<close>

datatype kdst = UserDst addr | KernDst addr | LocalDst

datatype ksrc = UserSrc addr | KernSrc addr | LocalSrc "byte list"

definition either_copyout ::
  "kdst \<Rightarrow> byte list \<Rightarrow> 'a kern_scheme \<Rightarrow> (int \<times> byte list \<times> 'a kern_scheme) res" where
  "either_copyout dst src s = (case dst of
     UserDst a \<Rightarrow>
       rbind (copyout (pagetable (myproc s)) a src (phy s)) (\<lambda>(r, m). Inr (r, [], s\<lparr>phy := m\<rparr>))
   | KernDst a \<Rightarrow> Inr (0, [], s\<lparr>phy := (phy s)\<lparr>pmem := store_bytes a src (pmem (phy s))\<rparr>\<rparr>)
   | LocalDst \<Rightarrow> Inr (0, src, s))"

definition either_copyin :: "ksrc \<Rightarrow> nat \<Rightarrow> 'a kern_scheme \<Rightarrow> (int \<times> byte list) res" where
  "either_copyin src len s = (case src of
     UserSrc a \<Rightarrow> copyin (pagetable (myproc s)) a len (phy s)
   | KernSrc a \<Rightarrow> Inr (0, load_bytes a len (pmem (phy s)))
   | LocalSrc bs \<Rightarrow>
       if len \<le> length bs then Inr (0, take len bs) else Inl OutOfBounds)"

fun dst_add :: "kdst \<Rightarrow> nat \<Rightarrow> kdst" where
  "dst_add (UserDst a) m = UserDst (a + of_nat m)"
| "dst_add (KernDst a) m = KernDst (a + of_nat m)"
| "dst_add LocalDst m = LocalDst"

fun src_add :: "ksrc \<Rightarrow> nat \<Rightarrow> ksrc" where
  "src_add (UserSrc a) m = UserSrc (a + of_nat m)"
| "src_add (KernSrc a) m = KernSrc (a + of_nat m)"
| "src_add (LocalSrc bs) m = LocalSrc (drop m bs)"

section \<open>Wakeups\<close>

text \<open>Between two tables some sleepers became runnable and nothing else changed.\<close>

definition wakes :: "(nat \<Rightarrow> proc) \<Rightarrow> (nat \<Rightarrow> proc) \<Rightarrow> bool" where
  "wakes P P' \<longleftrightarrow> (\<forall>i. P' i = P i \<or> pstate (P i) = SLEEPING \<and> P' i = (P i)\<lparr>pstate := RUNNABLE\<rparr>)"

lemma wakes_refl [simp]: "wakes P P"
  by (simp add: wakes_def)

lemma wakes_trans: "wakes P Q \<Longrightarrow> wakes Q R \<Longrightarrow> wakes P R"
  unfolding wakes_def by (metis procstate.distinct(15) proc.select_convs(1) proc.surjective proc.update_convs(1))

lemma wakesD:
  assumes "wakes P P'"
  shows "pid (P' i) = pid (P i)" and "pagetable (P' i) = pagetable (P i)" and "cwd (P' i) = cwd (P i)"
    and "ofile (P' i) = ofile (P i)" and "trapframe (P' i) = trapframe (P i)" and "psz (P' i) = psz (P i)"
    and "parent (P' i) = parent (P i)" and "pkilled (P' i) = pkilled (P i)"
  using spec [OF assms [unfolded wakes_def], of i] by auto

text \<open>The table after \<^verbatim>\<open>wakeup\<close>.\<close>

definition woken :: "chan \<Rightarrow> nat \<Rightarrow> (nat \<Rightarrow> proc) \<Rightarrow> nat \<Rightarrow> proc" where
  "woken ch c P = (\<lambda>p. if p < NPROC \<and> p \<noteq> c \<and> pstate (P p) = SLEEPING \<and> pchan (P p) = Some ch
     then (P p)\<lparr>pstate := RUNNABLE\<rparr> else P p)"

lemma wakeup_procs: "wakeup ch s = s\<lparr>procs := woken ch (cur s) (procs s)\<rparr>"
proof -
  let ?f = "\<lambda>p s. if p \<noteq> cur s \<and> pstate (procs s p) = SLEEPING \<and> pchan (procs s p) = Some ch
       then upd_proc p (\<lambda>x. x\<lparr>pstate := RUNNABLE\<rparr>) s else s"
  have "fold ?f [0..<n] s = s\<lparr>procs := \<lambda>p. if p < n \<and> p \<noteq> cur s \<and> pstate (procs s p) = SLEEPING
      \<and> pchan (procs s p) = Some ch then (procs s p)\<lparr>pstate := RUNNABLE\<rparr> else procs s p\<rparr>" for n
    by (induction n) (auto simp: upd_proc_def fun_eq_iff intro!: kern.fold_congs(2))
  then show ?thesis by (simp only: wakeup_def woken_def)
qed

lemma wakes_woken: "wakes P (woken ch c P)"
  by (simp add: wakes_def woken_def)

lemma kputs_kout: "kputs bs s = s\<lparr>kout := rev bs @ kout s\<rparr>"
proof (induction bs arbitrary: s)
  case (Cons c bs)
  have "uint c \<noteq> BACKSPACE" using unsigned_less [of c, where ?'a = int] by auto
  then show ?case using Cons by (simp add: kputs_def consputc_def uartputc_sync_def)
qed (simp add: kputs_def)

lemma curpid_upd [simp]: "curpid (s\<lparr>phy := m\<rparr>) = curpid s" "curpid (s\<lparr>kout := k\<rparr>) = curpid s"
  by (simp_all add: curpid_def myproc_def)

lemma curpid_wakes: "wakes (procs s) P \<Longrightarrow> curpid (s\<lparr>procs := P\<rparr>) = curpid s"
  by (simp add: curpid_def myproc_def wakesD)


section \<open>A state at boot\<close>

definition zero_proc :: proc where
  "zero_proc = \<lparr>pstate = UNUSED, pchan = None, pkilled = 0, xstate = 0, pid = 0, parent = None, kstack = 0,
     psz = 0, pagetable = 0, trapframe = 0, pcontext = \<lparr>ctx_ra = NoCode, ctx_sp = 0\<rparr>,
     ofile = replicate NOFILE None, cwd = None, pname = replicate 16 0\<rparr>"

definition boot_kern :: kern where
  "boot_kern = \<lparr>phy = \<lparr>pmem = \<lambda>_. 0, freelist = 0, kend = 0x80030000\<rparr>,
     procs = (\<lambda>_. zero_proc)(0 := zero_proc\<lparr>pid := 1, pstate := RUNNING\<rparr>), cur = 0, nextpid = 2,
     initproc = 0, ticks = 0, trampoline = 0x80007000, kout = []\<rparr>"

end
