(* ===== verification/Bio.thy ===== *)
theory Bio
  imports Sleeplock Ondisk Kstate
begin

text \<open>
  \<^verbatim>\<open>kernel/bio.c\<close>: the buffer cache. A \<open>struct buf*\<close> is an index; the index \<open>NBUF\<close> is
  \<^verbatim>\<open>bcache.head\<close>. The state also holds the disk as the driver presents it: the blocks, and
  the history of writes (latest first), which is what a crash can cut. \<open>disk_rw\<close> is the
  contract of the driver.

  The abstraction of the cache is transparent: \<open>con\<close>, the content of every block as readers
  see it, together with reference counts and locks per block.
\<close>

section \<open>Model\<close>

record buf =
  bvalid :: bool
  bdisk :: bool
  bdev :: u32
  blockno :: u32
  block :: sleeplock
  refcnt :: u32
  bprev :: nat
  bnext :: nat
  bdata :: "byte list"

record bio = kern +
  bufs :: "nat \<Rightarrow> buf"
  dimg :: "u32 \<Rightarrow> byte list"
  dhist :: "(u32 \<times> byte list) list"

lemma curpid_bio [simp]:
  "curpid (s\<lparr>bufs := B\<rparr>) = curpid s" "curpid (s\<lparr>dimg := D\<rparr>) = curpid s" "curpid (s\<lparr>dhist := H\<rparr>) = curpid s"
  by (simp_all add: curpid_def myproc_def)

definition upd_buf :: "nat \<Rightarrow> (buf \<Rightarrow> buf) \<Rightarrow> 'a bio_scheme \<Rightarrow> 'a bio_scheme" where
  "upd_buf b f s = s\<lparr>bufs := (bufs s)(b := f (bufs s b))\<rparr>"

text \<open>Insertion of \<open>b\<close> after the head of the list.\<close>

definition link_front :: "nat \<Rightarrow> 'a bio_scheme \<Rightarrow> 'a bio_scheme" where
  "link_front b s =
     (let s = upd_buf b (\<lambda>x. x\<lparr>bnext := bnext (bufs s NBUF)\<rparr>) s;
          s = upd_buf b (\<lambda>x. x\<lparr>bprev := NBUF\<rparr>) s;
          s = upd_buf (bnext (bufs s NBUF)) (\<lambda>x. x\<lparr>bprev := b\<rparr>) s
      in upd_buf NBUF (\<lambda>x. x\<lparr>bnext := b\<rparr>) s)"

definition binit :: "'a bio_scheme \<Rightarrow> 'a bio_scheme" where
  "binit s =
     (let s = upd_buf NBUF (\<lambda>x. x\<lparr>bprev := NBUF\<rparr>) s;
          s = upd_buf NBUF (\<lambda>x. x\<lparr>bnext := NBUF\<rparr>) s
      in fold (\<lambda>b s. link_front b (upd_buf b (\<lambda>x. x\<lparr>block := initsleeplock\<rparr>) s)) [0..<NBUF] s)"

text \<open>
  The two loops of \<^verbatim>\<open>bget\<close>, through the list forwards for the block and backwards for
  an unused buffer. They follow pointers; \<open>fuel\<close> bounds the number of steps.
\<close>

fun bget_find :: "nat \<Rightarrow> nat \<Rightarrow> u32 \<Rightarrow> u32 \<Rightarrow> (nat \<Rightarrow> buf) \<Rightarrow> nat option res" where
  "bget_find 0 b dev bno bs = Inl Diverges"
| "bget_find (Suc fuel) b dev bno bs =
     (if b = NBUF then Inr None
      else if bdev (bs b) = dev \<and> blockno (bs b) = bno then Inr (Some b)
      else bget_find fuel (bnext (bs b)) dev bno bs)"

fun bget_lru :: "nat \<Rightarrow> nat \<Rightarrow> (nat \<Rightarrow> buf) \<Rightarrow> nat option res" where
  "bget_lru 0 b bs = Inl Diverges"
| "bget_lru (Suc fuel) b bs =
     (if b = NBUF then Inr None
      else if refcnt (bs b) = 0 then Inr (Some b)
      else bget_lru fuel (bprev (bs b)) bs)"

definition lock_buf :: "nat \<Rightarrow> 'a bio_scheme \<Rightarrow> 'a bio_scheme res" where
  "lock_buf b s =
     rbind (acquiresleep (ChSleeplock b) (curpid s) (block (bufs s b))) (\<lambda>lk.
       Inr (upd_buf b (\<lambda>x. x\<lparr>block := lk\<rparr>) s))"

definition bget :: "u32 \<Rightarrow> u32 \<Rightarrow> 'a bio_scheme \<Rightarrow> (nat \<times> 'a bio_scheme) res" where
  "bget dev bno s =
     rbind (bget_find (Suc NBUF) (bnext (bufs s NBUF)) dev bno (bufs s)) (\<lambda>r. case r of
       Some b \<Rightarrow>
         rbind (lock_buf b (upd_buf b (\<lambda>x. x\<lparr>refcnt := refcnt x + 1\<rparr>) s)) (\<lambda>s. Inr (b, s))
     | None \<Rightarrow>
         rbind (bget_lru (Suc NBUF) (bprev (bufs s NBUF)) (bufs s)) (\<lambda>r. case r of
           Some b \<Rightarrow>
             rbind (lock_buf b
                 (upd_buf b (\<lambda>x. x\<lparr>bdev := dev, blockno := bno, bvalid := False, refcnt := 1\<rparr>) s))
               (\<lambda>s. Inr (b, s))
         | None \<Rightarrow> Inl (Panic ''bget: no buffers'')))"

text \<open>The contract of \<^verbatim>\<open>virtio_disk_rw\<close>: the driver looks at the block number only.\<close>

definition disk_rw :: "nat \<Rightarrow> bool \<Rightarrow> 'a bio_scheme \<Rightarrow> 'a bio_scheme" where
  "disk_rw b write s =
     (let bno = blockno (bufs s b); d = bdata (bufs s b) in
      if write then s\<lparr>dimg := (dimg s)(bno := d), dhist := (bno, d) # dhist s\<rparr>
      else upd_buf b (\<lambda>x. x\<lparr>bdata := dimg s bno\<rparr>) s)"

definition bread :: "u32 \<Rightarrow> u32 \<Rightarrow> 'a bio_scheme \<Rightarrow> (nat \<times> 'a bio_scheme) res" where
  "bread dev bno s =
     rbind (bget dev bno s) (\<lambda>(b, s).
       if \<not> bvalid (bufs s b)
       then Inr (b, upd_buf b (\<lambda>x. x\<lparr>bvalid := True\<rparr>) (disk_rw b False s))
       else Inr (b, s))"

definition bwrite :: "nat \<Rightarrow> 'a bio_scheme \<Rightarrow> 'a bio_scheme res" where
  "bwrite b s =
     (if \<not> holdingsleep (curpid s) (block (bufs s b)) then Inl (Panic ''bwrite'')
      else Inr (disk_rw b True s))"

definition brelse :: "nat \<Rightarrow> 'a bio_scheme \<Rightarrow> 'a bio_scheme res" where
  "brelse b s =
     (if \<not> holdingsleep (curpid s) (block (bufs s b)) then Inl (Panic ''brelse'')
      else
        let s = upd_buf b (\<lambda>x. x\<lparr>block := releasesleep (block x)\<rparr>) s;
            s = wakeup (ChSleeplock b) s;
            s = upd_buf b (\<lambda>x. x\<lparr>refcnt := refcnt x - 1\<rparr>) s
        in if refcnt (bufs s b) = 0
           then
             let s = upd_buf (bnext (bufs s b)) (\<lambda>x. x\<lparr>bprev := bprev (bufs s b)\<rparr>) s;
                 s = upd_buf (bprev (bufs s b)) (\<lambda>x. x\<lparr>bnext := bnext (bufs s b)\<rparr>) s
             in Inr (link_front b s)
           else Inr s)"

definition bpin :: "nat \<Rightarrow> 'a bio_scheme \<Rightarrow> 'a bio_scheme" where
  "bpin b s = upd_buf b (\<lambda>x. x\<lparr>refcnt := refcnt x + 1\<rparr>) s"

definition bunpin :: "nat \<Rightarrow> 'a bio_scheme \<Rightarrow> 'a bio_scheme" where
  "bunpin b s = upd_buf b (\<lambda>x. x\<lparr>refcnt := refcnt x - 1\<rparr>) s"

text \<open>A store of the holder to \<^verbatim>\<open>b->data\<close>.\<close>

definition set_data :: "nat \<Rightarrow> byte list \<Rightarrow> 'a bio_scheme \<Rightarrow> 'a bio_scheme" where
  "set_data b d s = upd_buf b (\<lambda>x. x\<lparr>bdata := d\<rparr>) s"

declare NBUF_def [simp del]

section \<open>The list of buffers\<close>

primrec lseg :: "(nat \<Rightarrow> nat) \<Rightarrow> nat \<Rightarrow> nat list \<Rightarrow> nat \<Rightarrow> bool" where
  "lseg f p [] q \<longleftrightarrow> p = q"
| "lseg f p (x # xs) q \<longleftrightarrow> p = x \<and> lseg f (f x) xs q"

lemma lseg_append: "lseg f p (xs @ ys) q \<longleftrightarrow> (\<exists>r. lseg f p xs r \<and> lseg f r ys q)"
  by (induction xs arbitrary: p) auto

lemma lseg_upd [simp]: "a \<notin> set xs \<Longrightarrow> lseg (f(a := v)) p xs q = lseg f p xs q"
  by (induction xs arbitrary: p) auto

lemma lseg_snoc: "lseg f p (xs @ [x]) q \<longleftrightarrow> lseg f p xs x \<and> f x = q"
  by (auto simp: lseg_append)

definition ring :: "(nat \<Rightarrow> nat) \<Rightarrow> (nat \<Rightarrow> nat) \<Rightarrow> nat \<Rightarrow> nat list \<Rightarrow> bool" where
  "ring nx pv h xs \<longleftrightarrow> distinct (h # xs) \<and> lseg nx (nx h) xs h \<and> lseg pv (pv h) (rev xs) h"

lemma ring_unlink:
  assumes r: "ring nx pv h (as @ b # bs)"
  shows "ring (nx(pv b := nx b)) (pv(nx b := pv b)) h (as @ bs)" and "nx b \<noteq> b" and "pv b \<noteq> b"
proof -
  note r = r [unfolded ring_def]
  have d: "distinct (h # as @ b # bs)" using r by simp
  have n1: "lseg nx (nx h) as b" "lseg nx (nx b) bs h" using r by (auto simp: lseg_append)
  have p1: "lseg pv (pv h) (rev bs) b" "lseg pv (pv b) (rev as) h" using r by (auto simp: lseg_append)
  have nb: "nx b = (case bs of [] \<Rightarrow> h | x # _ \<Rightarrow> x)" using n1(2) by (cases bs) auto
  have pb: "pv b = (case rev as of [] \<Rightarrow> h | x # _ \<Rightarrow> x)" using p1(2) by (cases "rev as") auto
  show "nx b \<noteq> b" "pv b \<noteq> b"
    using nb pb d by (auto split: list.splits simp: rev_eq_Cons_iff)
  have "lseg (nx(pv b := nx b)) ((nx(pv b := nx b)) h) (as @ bs) h"
  proof (cases as rule: rev_cases)
    case Nil
    then show ?thesis using pb n1 d by simp
  next
    case (snoc as' a)
    then have "pv b = a" using pb by simp
    then show ?thesis using n1 d snoc by (auto simp: lseg_append)
  qed
  moreover have "lseg (pv(nx b := pv b)) ((pv(nx b := pv b)) h) (rev (as @ bs)) h"
  proof (cases bs)
    case Nil
    then show ?thesis using nb p1 d by simp
  next
    case (Cons x bs')
    then have "nx b = x" using nb by simp
    then show ?thesis using p1 d Cons by (auto simp: lseg_append)
  qed
  ultimately show "ring (nx(pv b := nx b)) (pv(nx b := pv b)) h (as @ bs)"
    using d by (auto simp: ring_def)
qed

lemma ring_link_front:
  assumes r: "ring nx pv h xs" and b: "b \<notin> set (h # xs)"
  shows "ring (nx(b := nx h, h := b)) (pv(b := h, nx h := b)) h (b # xs)"
proof -
  note r = r [unfolded ring_def]
  have d: "distinct (h # b # xs)" using r b by auto
  have nh: "nx h = (case xs of [] \<Rightarrow> h | x # _ \<Rightarrow> x)" using r by (cases xs) auto
  have "lseg (pv(b := h, nx h := b)) ((pv(b := h, nx h := b)) h) (rev xs @ [b]) h"
  proof (cases xs)
    case Nil
    then show ?thesis using nh d by simp
  next
    case (Cons x xs')
    then have "nx h = x" using nh by simp
    then show ?thesis using r d Cons by (auto simp: lseg_append)
  qed
  then show ?thesis using r d by (simp add: ring_def)
qed

abbreviation nexts :: "(nat \<Rightarrow> buf) \<Rightarrow> nat \<Rightarrow> nat" where
  "nexts bs \<equiv> (\<lambda>i. bnext (bs i))"

abbreviation prevs :: "(nat \<Rightarrow> buf) \<Rightarrow> nat \<Rightarrow> nat" where
  "prevs bs \<equiv> (\<lambda>i. bprev (bs i))"

lemma bget_find_eq:
  "lseg (nexts bs) b xs NBUF \<Longrightarrow> NBUF \<notin> set xs \<Longrightarrow> length xs < fuel \<Longrightarrow>
   bget_find fuel b dev bno bs = Inr (find (\<lambda>i. bdev (bs i) = dev \<and> blockno (bs i) = bno) xs)"
proof (induction xs arbitrary: b fuel)
  case Nil
  then show ?case by (cases fuel) auto
next
  case (Cons x xs)
  then show ?case by (cases fuel) auto
qed

lemma bget_lru_eq:
  "lseg (prevs bs) b xs NBUF \<Longrightarrow> NBUF \<notin> set xs \<Longrightarrow> length xs < fuel \<Longrightarrow>
   bget_lru fuel b bs = Inr (find (\<lambda>i. refcnt (bs i) = 0) xs)"
proof (induction xs arbitrary: b fuel)
  case Nil
  then show ?case by (cases fuel) auto
next
  case (Cons x xs)
  then show ?case by (cases fuel) auto
qed

text \<open>\<open>lru s xs\<close>: all buffers are linked, the most recently used first.\<close>

definition lru :: "(nat \<Rightarrow> buf) \<Rightarrow> nat list \<Rightarrow> bool" where
  "lru bs xs \<longleftrightarrow> ring (nexts bs) (prevs bs) NBUF xs \<and> set xs = {..<NBUF}"

lemma lru_cong: "nexts bs' = nexts bs \<Longrightarrow> prevs bs' = prevs bs \<Longrightarrow> lru bs' xs = lru bs xs"
  unfolding lru_def by (simp only:)

lemma lru_length: "lru bs xs \<Longrightarrow> length xs = NBUF"
  by (metis lru_def ring_def distinct.simps(2) distinct_card card_lessThan)

section \<open>Transparency\<close>

text \<open>
  Between operations a buffer is unused since boot, or holds a block of the one device with
  valid contents, which equal the disk's when nobody refers to it.
\<close>

definition buf_ok :: "buf \<Rightarrow> (u32 \<Rightarrow> byte list) \<Rightarrow> bool" where
  "buf_ok x img \<longleftrightarrow>
     (bdev x = 0 \<and> refcnt x = 0 \<and> \<not> slocked (block x))
     \<or> (bdev x = ROOTDEV \<and> bvalid x \<and> length (bdata x) = BSIZE
        \<and> (slocked (block x) \<longrightarrow> refcnt x \<noteq> 0) \<and> (refcnt x = 0 \<longrightarrow> bdata x = img (blockno x)))"

definition bio_inv :: "'a bio_scheme \<Rightarrow> bool" where
  "bio_inv s \<longleftrightarrow> (\<exists>xs. lru (bufs s) xs)
     \<and> (\<forall>i<NBUF. buf_ok (bufs s i) (dimg s))
     \<and> (\<forall>i<NBUF. \<forall>j<NBUF. bdev (bufs s i) = ROOTDEV \<and> bdev (bufs s j) = ROOTDEV
          \<and> blockno (bufs s i) = blockno (bufs s j) \<longrightarrow> i = j)
     \<and> (\<forall>b. length (dimg s b) = BSIZE)"

definition holds :: "'a bio_scheme \<Rightarrow> nat \<Rightarrow> u32 \<Rightarrow> bool" where
  "holds s i bno \<longleftrightarrow> i < NBUF \<and> bdev (bufs s i) = ROOTDEV \<and> blockno (bufs s i) = bno"

text \<open>The content of a block, its reference count, the locked blocks, and held buffers.\<close>

definition con :: "'a bio_scheme \<Rightarrow> u32 \<Rightarrow> byte list" where
  "con s bno = (case find (\<lambda>i. holds s i bno) [0..<NBUF] of
     Some i \<Rightarrow> bdata (bufs s i) | None \<Rightarrow> dimg s bno)"

definition rc :: "'a bio_scheme \<Rightarrow> u32 \<Rightarrow> nat" where
  "rc s bno = (case find (\<lambda>i. holds s i bno) [0..<NBUF] of
     Some i \<Rightarrow> unat (refcnt (bufs s i)) | None \<Rightarrow> 0)"

definition lk :: "'a bio_scheme \<Rightarrow> u32 set" where
  "lk s = {bno. \<exists>i. holds s i bno \<and> slocked (block (bufs s i))}"

definition handle :: "'a bio_scheme \<Rightarrow> nat \<Rightarrow> u32 \<Rightarrow> bool" where
  "handle s i bno \<longleftrightarrow> holds s i bno \<and> holdingsleep (curpid s) (block (bufs s i))"

lemma holds_unique: "bio_inv s \<Longrightarrow> holds s i bno \<Longrightarrow> holds s j bno \<Longrightarrow> i = j"
  by (simp add: bio_inv_def holds_def)

lemma find_holds:
  assumes "bio_inv s"
  shows "holds s i bno \<Longrightarrow> find (\<lambda>i. holds s i bno) [0..<NBUF] = Some i"
    and "(\<nexists>i. holds s i bno) \<Longrightarrow> find (\<lambda>i. holds s i bno) [0..<NBUF] = None"
proof -
  show "find (\<lambda>i. holds s i bno) [0..<NBUF] = Some i" if h: "holds s i bno"
  proof (cases "find (\<lambda>i. holds s i bno) [0..<NBUF]")
    case None
    moreover have "i \<in> set [0..<NBUF]" using h by (simp add: holds_def)
    ultimately show ?thesis using h unfolding find_None_iff by blast
  next
    case (Some j)
    then have "holds s j bno" unfolding find_Some_iff by blast
    then show ?thesis using Some holds_unique [OF assms _ h] by blast
  qed
  show "(\<nexists>i. holds s i bno) \<Longrightarrow> find (\<lambda>i. holds s i bno) [0..<NBUF] = None"
    by (simp add: find_None_iff)
qed

lemma con_holds [simp]:
  "bio_inv s \<Longrightarrow> holds s i bno \<Longrightarrow> con s bno = bdata (bufs s i)"
  "bio_inv s \<Longrightarrow> (\<nexists>i. holds s i bno) \<Longrightarrow> con s bno = dimg s bno"
  unfolding con_def using find_holds [of s] by auto

lemma rc_holds [simp]:
  "bio_inv s \<Longrightarrow> holds s i bno \<Longrightarrow> rc s bno = unat (refcnt (bufs s i))"
  "bio_inv s \<Longrightarrow> (\<nexists>i. holds s i bno) \<Longrightarrow> rc s bno = 0"
  unfolding rc_def using find_holds [of s] by auto

lemma bio_invI:
  assumes "lru (bufs s) xs" and "\<And>i. i < NBUF \<Longrightarrow> buf_ok (bufs s i) (dimg s)"
    and "\<And>i j bno. holds s i bno \<Longrightarrow> holds s j bno \<Longrightarrow> i = j" and "\<And>b. length (dimg s b) = BSIZE"
  shows "bio_inv s"
  using assms unfolding bio_inv_def holds_def by blast

lemma bio_invD:
  assumes "bio_inv s"
  shows "i < NBUF \<Longrightarrow> buf_ok (bufs s i) (dimg s)" and "length (dimg s b) = BSIZE"
  using assms by (auto simp: bio_inv_def)

lemma holds_ok:
  assumes "bio_inv s" and "holds s i bno"
  shows "bvalid (bufs s i)" and "length (bdata (bufs s i)) = BSIZE"
    and "slocked (block (bufs s i)) \<Longrightarrow> refcnt (bufs s i) \<noteq> 0"
    and "refcnt (bufs s i) = 0 \<Longrightarrow> bdata (bufs s i) = dimg s bno"
  using bio_invD(1) [OF assms(1), of i] assms(2) by (auto simp: buf_ok_def holds_def)

lemma length_con: "bio_inv s \<Longrightarrow> length (con s bno) = BSIZE"
  by (cases "\<exists>i. holds s i bno") (auto simp: holds_ok bio_invD simp del: BSIZE_def)

lemma rc_0_con: "bio_inv s \<Longrightarrow> rc s bno = 0 \<Longrightarrow> con s bno = dimg s bno"
  by (cases "\<exists>i. holds s i bno") (auto simp: holds_ok unsigned_eq_0_iff)

lemma lk_rc: "bio_inv s \<Longrightarrow> bno \<in> lk s \<Longrightarrow> 0 < rc s bno"
  by (auto simp: lk_def unat_gt_0 dest: holds_ok)

lemma handle_lk: "handle s i bno \<Longrightarrow> bno \<in> lk s"
  by (auto simp: handle_def lk_def holdingsleep_def)

lemma handle_unique: "bio_inv s \<Longrightarrow> handle s i b \<Longrightarrow> handle s i b' \<Longrightarrow> b = b'"
  by (simp add: handle_def holds_def)

lemma bufs_only:
  assumes "s' = s\<lparr>bufs := bufs s'\<rparr>"
  shows "dimg s' = dimg s" and "dhist s' = dhist s" and "bio.more s' = bio.more s"
  by (subst assms, simp)+

text \<open>The state after \<^verbatim>\<open>bread\<close>, seen through the abstraction.\<close>

definition bread_post :: "'a bio_scheme \<Rightarrow> u32 \<Rightarrow> nat \<Rightarrow> 'a bio_scheme \<Rightarrow> bool" where
  "bread_post s bno i s' \<longleftrightarrow> bio_inv s' \<and> s' = s\<lparr>bufs := bufs s'\<rparr> \<and> handle s' i bno
     \<and> bdata (bufs s' i) = con s bno \<and> con s' = con s
     \<and> rc s' = (rc s)(bno := Suc (rc s bno)) \<and> lk s' = insert bno (lk s)
     \<and> (\<forall>j b. handle s j b \<longrightarrow> handle s' j b)"

lemma bread_postI:
  assumes inv: "bio_inv s" and i: "i < NBUF"
    and x: "bdev x = ROOTDEV" "blockno x = bno" "bvalid x" "unat (refcnt x) = Suc (rc s bno)"
      "block x = \<lparr>slocked = True, slpid = curpid s\<rparr>" "bdata x = con s bno"
      "bnext x = bnext (bufs s i)" "bprev x = bprev (bufs s i)"
    and h: "holds s i bno \<or> refcnt (bufs s i) = 0 \<and> (\<nexists>j. holds s j bno)" and nl: "bno \<notin> lk s"
  shows "bread_post s bno i (s\<lparr>bufs := (bufs s)(i := x)\<rparr>)"
proof -
  let ?s = "s\<lparr>bufs := (bufs s)(i := x)\<rparr>"
  have hs: "holds ?s j b \<longleftrightarrow> (if j = i then b = bno else holds s j b)" for j b
    using i x by (auto simp: holds_def)
  have uq: "holds s j bno \<Longrightarrow> j = i" for j using h holds_unique [OF inv] by blast
  obtain xs where xs: "lru (bufs s) xs" using inv by (auto simp: bio_inv_def)
  have inv': "bio_inv ?s"
  proof (rule bio_invI)
    show "lru (bufs ?s) xs" using xs lru_cong [of "bufs ?s" "bufs s" xs] x(7,8) by (simp add: fun_eq_iff)
    show "buf_ok (bufs ?s j) (dimg ?s)" if "j < NBUF" for j
      using bio_invD(1) [OF inv that] x length_con [OF inv, of bno]
      by (auto simp: buf_ok_def dest: arg_cong [of _ _ unat])
    show "j = k" if "holds ?s j b" "holds ?s k b" for j k b
      using that hs uq holds_unique [OF inv] by (auto split: if_splits)
    show "length (dimg ?s b) = BSIZE" for b using bio_invD(2) [OF inv, of b] by simp
  qed
  have hb: "holds ?s i bno" using hs by simp
  have oth: "con ?s b = con s b \<and> rc ?s b = rc s b" if b: "b \<noteq> bno" for b
  proof (cases "\<exists>j. holds ?s j b")
    case True
    then obtain j where j: "holds ?s j b" by blast
    then have "j \<noteq> i" "holds s j b" using hs b by (auto split: if_splits)
    then show ?thesis using con_holds(1) [OF inv' j] con_holds(1) [OF inv] rc_holds(1) [OF inv' j] rc_holds(1) [OF inv]
      by simp
  next
    case False
    then have c: "con ?s b = dimg s b" "rc ?s b = 0" using con_holds(2) [OF inv'] rc_holds(2) [OF inv'] by auto
    show ?thesis
    proof (cases "holds s i b")
      case True
      then have "refcnt (bufs s i) = 0" using h b by (auto simp: holds_def)
      then show ?thesis using c True con_holds(1) [OF inv True] rc_holds(1) [OF inv True] holds_ok(4) [OF inv True] by simp
    next
      case nh: False
      then have "\<nexists>j. holds s j b" using False hs by metis
      then show ?thesis using c con_holds(2) [OF inv] rc_holds(2) [OF inv] by simp
    qed
  qed
  have "con ?s bno = con s bno" using con_holds(1) [OF inv' hb] x(6) by simp
  then have "con ?s = con s" using oth by (auto simp: fun_eq_iff) (metis)
  moreover have "rc ?s = (rc s)(bno := Suc (rc s bno))"
    using oth rc_holds(1) [OF inv' hb] x(4) by (auto simp: fun_eq_iff)
  moreover have "lk ?s = insert bno (lk s)"
  proof -
    have "\<not> slocked (block (bufs s i))"
      using h nl bio_invD(1) [OF inv i] by (auto simp: lk_def buf_ok_def)
    then show ?thesis using hs x(5) by (auto simp: lk_def split: if_splits) (metis)+
  qed
  moreover have "handle ?s j b" if hd: "handle s j b" for j b
  proof -
    have "j \<noteq> i" using h nl hd handle_lk [OF hd] bio_invD(1) [OF inv i]
      by (auto simp: handle_def holds_def buf_ok_def holdingsleep_def)
    then show ?thesis using hd hs by (simp add: handle_def)
  qed
  moreover have "handle ?s i bno" using hb x(5) by (simp add: handle_def holdingsleep_def)
  ultimately show ?thesis using inv' x(6) by (simp add: bread_post_def)
qed

definition refd :: "'a bio_scheme \<Rightarrow> u32 set" where
  "refd s = {bno. 0 < rc s bno}"

lemma refd_image:
  assumes "bio_inv s"
  shows "refd s \<subseteq> (\<lambda>i. blockno (bufs s i)) ` {..<NBUF}"
proof
  fix bno assume "bno \<in> refd s"
  then obtain i where "holds s i bno" using rc_holds(2) [OF assms, of bno] by (auto simp: refd_def)
  then show "bno \<in> (\<lambda>i. blockno (bufs s i)) ` {..<NBUF}" by (auto simp: holds_def)
qed

lemma finite_refd: "bio_inv s \<Longrightarrow> finite (refd s)"
  by (rule finite_subset [OF refd_image]) simp_all

lemma unused_buffer:
  assumes inv: "bio_inv s" and few: "card (refd s) < NBUF"
  shows "\<exists>i<NBUF. refcnt (bufs s i) = 0"
proof (rule ccontr)
  assume no: "\<not> (\<exists>i<NBUF. refcnt (bufs s i) = 0)"
  let ?f = "\<lambda>i. blockno (bufs s i)"
  have h: "holds s i (?f i)" if "i < NBUF" for i
    using no that bio_invD(1) [OF inv that] by (auto simp: buf_ok_def holds_def)
  have "inj_on ?f {..<NBUF}" using h holds_unique [OF inv] by (auto simp: inj_on_def) (metis)
  then have "card (?f ` {..<NBUF}) = NBUF" by (simp add: card_image)
  moreover have "0 < rc s (?f i)" if "i < NBUF" for i
    using rc_holds(1) [OF inv h [OF that]] no that by (simp add: unat_gt_0)
  then have "?f ` {..<NBUF} \<subseteq> refd s" by (auto simp: refd_def)
  from card_mono [OF finite_refd [OF inv] this] calculation few show False by simp
qed

lemma bget_cached:
  assumes inv: "bio_inv s" and h: "holds s i bno" and nl: "bno \<notin> lk s"
  shows "bget ROOTDEV bno s =
    Inr (i, s\<lparr>bufs := (bufs s)(i := (bufs s i)\<lparr>refcnt := refcnt (bufs s i) + 1,
      block := (block (bufs s i))\<lparr>slocked := True, slpid := curpid s\<rparr>\<rparr>)\<rparr>)"
proof -
  obtain xs where xs: "lru (bufs s) xs" using inv by (auto simp: bio_inv_def)
  then have r: "lseg (nexts (bufs s)) (bnext (bufs s NBUF)) xs NBUF" "NBUF \<notin> set xs" "set xs = {..<NBUF}"
    by (auto simp: lru_def ring_def)
  let ?P = "\<lambda>i. bdev (bufs s i) = ROOTDEV \<and> blockno (bufs s i) = bno"
  have "find ?P xs = Some i"
  proof (cases "find ?P xs")
    case None
    moreover have "i \<in> set xs" "?P i" using h r(3) by (auto simp: holds_def)
    ultimately show ?thesis unfolding find_None_iff by blast
  next
    case (Some j)
    then have "j \<in> set xs \<and> ?P j" by (rule find_SomeD)
    then have "holds s j bno" using r(3) by (auto simp: holds_def)
    then show ?thesis using Some holds_unique [OF inv _ h] by blast
  qed
  then have f: "bget_find (Suc NBUF) (bnext (bufs s NBUF)) ROOTDEV bno (bufs s) = Inr (Some i)"
    using bget_find_eq [OF r(1,2), of "Suc NBUF"] lru_length [OF xs] by simp
  moreover have "\<not> slocked (block (bufs s i))" using nl h by (auto simp: lk_def)
  ultimately show ?thesis
    unfolding bget_def f by (simp add: lock_buf_def acquiresleep_def upd_buf_def)
qed

lemma bget_miss:
  assumes inv: "bio_inv s" and h: "\<nexists>i. holds s i bno" and few: "\<exists>i<NBUF. refcnt (bufs s i) = 0"
  shows "\<exists>i<NBUF. refcnt (bufs s i) = 0 \<and> bget ROOTDEV bno s =
    Inr (i, s\<lparr>bufs := (bufs s)(i := (bufs s i)\<lparr>bdev := ROOTDEV, blockno := bno, bvalid := False,
      refcnt := 1, block := (block (bufs s i))\<lparr>slocked := True, slpid := curpid s\<rparr>\<rparr>)\<rparr>)"
proof -
  obtain xs where xs: "lru (bufs s) xs" using inv by (auto simp: bio_inv_def)
  then have r: "lseg (nexts (bufs s)) (bnext (bufs s NBUF)) xs NBUF" "NBUF \<notin> set xs" "set xs = {..<NBUF}"
      "lseg (prevs (bufs s)) (bprev (bufs s NBUF)) (rev xs) NBUF"
    by (auto simp: lru_def ring_def)
  have "find (\<lambda>i. bdev (bufs s i) = ROOTDEV \<and> blockno (bufs s i) = bno) xs = None"
    unfolding find_None_iff using h r(3) by (auto simp: holds_def)
  then have f: "bget_find (Suc NBUF) (bnext (bufs s NBUF)) ROOTDEV bno (bufs s) = Inr None"
    using bget_find_eq [OF r(1,2), of "Suc NBUF"] lru_length [OF xs] by simp
  obtain i where i: "find (\<lambda>i. refcnt (bufs s i) = 0) (rev xs) = Some i"
    using few r(3) by (cases "find (\<lambda>i. refcnt (bufs s i) = 0) (rev xs)") (auto simp: find_None_iff)
  have "i \<in> set (rev xs) \<and> refcnt (bufs s i) = 0" using i by (rule find_SomeD)
  then have i': "i < NBUF" "refcnt (bufs s i) = 0" using r(3) by auto
  have g: "bget_lru (Suc NBUF) (bprev (bufs s NBUF)) (bufs s) = Inr (Some i)"
    using bget_lru_eq [OF r(4), of "Suc NBUF"] r(2) lru_length [OF xs] i by simp
  have "\<not> slocked (block (bufs s i))" using bio_invD(1) [OF inv i'(1)] i'(2) by (auto simp: buf_ok_def)
  then show ?thesis
    unfolding bget_def f using i' g by (auto simp: lock_buf_def acquiresleep_def upd_buf_def)
qed

lemma bread_spec:
  assumes inv: "bio_inv s" and nl: "bno \<notin> lk s" and cap: "0 < rc s bno \<or> card (refd s) < NBUF"
    and ov: "Suc (rc s bno) < 2 ^ 32"
  shows "\<exists>i s'. bread ROOTDEV bno s = Inr (i, s') \<and> bread_post s bno i s'"
proof (cases "\<exists>i. holds s i bno")
  case True
  then obtain i where i: "holds s i bno" by blast
  let ?x = "(bufs s i)\<lparr>refcnt := refcnt (bufs s i) + 1,
      block := (block (bufs s i))\<lparr>slocked := True, slpid := curpid s\<rparr>\<rparr>"
  have rc: "rc s bno = unat (refcnt (bufs s i))" using rc_holds(1) [OF inv i] .
  have "bread_post s bno i (s\<lparr>bufs := (bufs s)(i := ?x)\<rparr>)"
    using i holds_ok [OF inv i] rc ov nl inv
    by (intro bread_postI) (auto simp: holds_def unat_word_ariths)
  moreover have "bread ROOTDEV bno s = Inr (i, s\<lparr>bufs := (bufs s)(i := ?x)\<rparr>)"
    unfolding bread_def bget_cached [OF inv i nl] using holds_ok(1) [OF inv i] by simp
  ultimately show ?thesis by blast
next
  case False
  then have "rc s bno = 0" using rc_holds(2) [OF inv] by simp
  then have "\<exists>i<NBUF. refcnt (bufs s i) = 0" using cap unused_buffer [OF inv] by simp
  then obtain i where i: "i < NBUF" "refcnt (bufs s i) = 0" and g: "bget ROOTDEV bno s =
      Inr (i, s\<lparr>bufs := (bufs s)(i := (bufs s i)\<lparr>bdev := ROOTDEV, blockno := bno, bvalid := False,
        refcnt := 1, block := (block (bufs s i))\<lparr>slocked := True, slpid := curpid s\<rparr>\<rparr>)\<rparr>)"
    using bget_miss [OF inv False] by blast
  let ?x = "(bufs s i)\<lparr>bdev := ROOTDEV, blockno := bno, refcnt := 1,
      block := (block (bufs s i))\<lparr>slocked := True, slpid := curpid s\<rparr>, bdata := dimg s bno,
      bvalid := True\<rparr>"
  have "bread_post s bno i (s\<lparr>bufs := (bufs s)(i := ?x)\<rparr>)"
    using i False \<open>rc s bno = 0\<close> con_holds(2) [OF inv False] nl inv
    by (intro bread_postI) auto
  moreover have "bread ROOTDEV bno s = Inr (i, s\<lparr>bufs := (bufs s)(i := ?x)\<rparr>)"
    unfolding bread_def g by (simp add: disk_rw_def upd_buf_def Let_def)
  ultimately show ?thesis by blast
qed

text \<open>A change of one buffer that stays with its block.\<close>

lemma upd_one:
  assumes inv: "bio_inv s" and h: "holds s i bno"
    and x: "bdev x = ROOTDEV" "blockno x = bno" "bvalid x" "length (bdata x) = BSIZE"
      "slocked (block x) \<longrightarrow> refcnt x \<noteq> 0" "refcnt x = 0 \<longrightarrow> bdata x = dimg s bno"
      "bnext x = bnext (bufs s i)" "bprev x = bprev (bufs s i)"
    and s': "s' = s\<lparr>bufs := (bufs s)(i := x)\<rparr>"
  shows "bio_inv s'" and "holds s' = holds s" and "con s' = (con s)(bno := bdata x)"
    and "rc s' = (rc s)(bno := unat (refcnt x))"
    and "lk s' = (if slocked (block x) then insert bno (lk s) else lk s - {bno})"
    and "b \<noteq> bno \<Longrightarrow> handle s' j b = handle s j b"
proof -
  have i: "i < NBUF" using h by (simp add: holds_def)
  show hs: "holds s' = holds s"
    using h x(1,2) by (auto simp: holds_def s' fun_eq_iff)
  obtain xs where xs: "lru (bufs s) xs" using inv by (auto simp: bio_inv_def)
  show inv': "bio_inv s'"
  proof (rule bio_invI)
    show "lru (bufs s') xs" using xs lru_cong [of "bufs s'" "bufs s" xs] x(7,8) by (simp add: fun_eq_iff s')
    show "buf_ok (bufs s' j) (dimg s')" if "j < NBUF" for j
      using bio_invD(1) [OF inv that] x by (auto simp: buf_ok_def s')
    show "j = k" if "holds s' j b" "holds s' k b" for j k b
      using that hs holds_unique [OF inv] by simp
    show "length (dimg s' b) = BSIZE" for b using bio_invD(2) [OF inv, of b] by (simp add: s')
  qed
  have ne: "j \<noteq> i" if "holds s j b" "b \<noteq> bno" for j b using that h by (auto simp: holds_def)
  have "con s' b = ((con s)(bno := bdata x)) b \<and> rc s' b = ((rc s)(bno := unat (refcnt x))) b" for b
  proof (cases "b = bno")
    case True
    then show ?thesis using con_holds(1) [OF inv', of i bno] rc_holds(1) [OF inv', of i bno] hs h by (simp add: s')
  next
    case False
    show ?thesis
    proof (cases "\<exists>j. holds s j b")
      case True
      then obtain j where j: "holds s j b" by blast
      then show ?thesis
        using False ne [OF j False] con_holds(1) [OF inv', of j b] rc_holds(1) [OF inv', of j b] hs
          con_holds(1) [OF inv j] rc_holds(1) [OF inv j] by (simp add: s')
    next
      case nh: False
      then show ?thesis
        using False con_holds(2) [OF inv', of b] rc_holds(2) [OF inv', of b] hs
          con_holds(2) [OF inv nh] rc_holds(2) [OF inv nh] by (simp add: s')
    qed
  qed
  then show "con s' = (con s)(bno := bdata x)" "rc s' = (rc s)(bno := unat (refcnt x))" by blast+
  have "(\<exists>j. holds s j bno \<and> slocked (block (bufs s' j))) \<longleftrightarrow> slocked (block (bufs s' i))"
    using h holds_unique [OF inv _ h] by blast
  then have "bno \<in> lk s' \<longleftrightarrow> slocked (block (bufs s' i))" unfolding lk_def hs by simp
  then have "bno \<in> lk s' \<longleftrightarrow> slocked (block x)" by (simp add: s')
  moreover have "b \<in> lk s' \<longleftrightarrow> b \<in> lk s" if "b \<noteq> bno" for b
    unfolding lk_def hs using ne [OF _ that] by (auto simp: s')
  ultimately have "b \<in> lk s' \<longleftrightarrow> b \<in> (if slocked (block x) then insert bno (lk s) else lk s - {bno})" for b
    by (cases "b = bno") simp_all
  then show "lk s' = (if slocked (block x) then insert bno (lk s) else lk s - {bno})" by blast
  show "b \<noteq> bno \<Longrightarrow> handle s' j b = handle s j b"
    using ne hs by (auto simp: handle_def s')
qed

lemma set_data_spec:
  assumes inv: "bio_inv s" and h: "handle s i bno" and d: "length d = BSIZE"
  shows "bio_inv (set_data i d s)" and "con (set_data i d s) = (con s)(bno := d)"
    and "rc (set_data i d s) = rc s" and "lk (set_data i d s) = lk s"
    and "handle (set_data i d s) = handle s" and "bdata (bufs (set_data i d s) i) = d"
    and "set_data i d s = s\<lparr>bufs := bufs (set_data i d s)\<rparr>"
proof -
  have hs: "holds s i bno" and l: "slocked (block (bufs s i))" using h by (auto simp: handle_def holdingsleep_def)
  let ?x = "(bufs s i)\<lparr>bdata := d\<rparr>"
  have e: "set_data i d s = s\<lparr>bufs := (bufs s)(i := ?x)\<rparr>" by (simp add: set_data_def upd_buf_def)
  have x: "bdev ?x = ROOTDEV" "blockno ?x = bno" "bvalid ?x" "length (bdata ?x) = BSIZE"
      "slocked (block ?x) \<longrightarrow> refcnt ?x \<noteq> 0" "refcnt ?x = 0 \<longrightarrow> bdata ?x = dimg s bno"
      "bnext ?x = bnext (bufs s i)" "bprev ?x = bprev (bufs s i)"
    using holds_ok [OF inv hs] hs d l by (auto simp: holds_def)
  note u = upd_one [OF inv hs x e]
  show "bio_inv (set_data i d s)" by (rule u)
  show "con (set_data i d s) = (con s)(bno := d)" using u(3) by simp
  show "rc (set_data i d s) = rc s" using u(4) rc_holds(1) [OF inv hs] by (simp add: fun_eq_iff)
  show "lk (set_data i d s) = lk s" using u(5) l handle_lk [OF h] by auto
  show "handle (set_data i d s) = handle s"
    using hs by (auto simp: fun_eq_iff handle_def holds_def e)
  show "bdata (bufs (set_data i d s) i) = d" "set_data i d s = s\<lparr>bufs := bufs (set_data i d s)\<rparr>"
    by (simp_all add: e)
qed

lemma bwrite_spec:
  assumes inv: "bio_inv s" and h: "handle s i bno"
  shows "\<exists>s'. bwrite i s = Inr s' \<and> bio_inv s' \<and> con s' = con s \<and> rc s' = rc s \<and> lk s' = lk s
    \<and> handle s' = handle s
    \<and> s' = s\<lparr>dimg := (dimg s)(bno := con s bno), dhist := (bno, con s bno) # dhist s\<rparr>"
proof -
  have hs: "holds s i bno" using h by (simp add: handle_def)
  have bn: "blockno (bufs s i) = bno" and cd: "con s bno = bdata (bufs s i)"
    using hs con_holds(1) [OF inv hs] by (auto simp: holds_def)
  let ?s = "s\<lparr>dimg := (dimg s)(bno := con s bno), dhist := (bno, con s bno) # dhist s\<rparr>"
  have w: "bwrite i s = Inr ?s" using h bn cd by (simp add: bwrite_def handle_def disk_rw_def Let_def)
  have hh: "holds ?s = holds s" by (simp add: holds_def fun_eq_iff)
  obtain xs where xs: "lru (bufs s) xs" using inv by (auto simp: bio_inv_def)
  have inv': "bio_inv ?s"
  proof (rule bio_invI)
    show "lru (bufs ?s) xs" using xs by simp
    show "buf_ok (bufs ?s j) (dimg ?s)" if j: "j < NBUF" for j
    proof (cases "j = i")
      case True
      then show ?thesis using bio_invD(1) [OF inv j] bn cd by (auto simp: buf_ok_def)
    next
      case False
      then have "\<not> holds s j bno" using holds_unique [OF inv _ hs] by blast
      then show ?thesis using bio_invD(1) [OF inv j] j by (auto simp: buf_ok_def holds_def)
    qed
    show "j = k" if "holds ?s j b" "holds ?s k b" for j k b
      using that hh holds_unique [OF inv] by simp
    show "length (dimg ?s b) = BSIZE" for b
      using bio_invD(2) [OF inv, of b] length_con [OF inv, of bno] by simp
  qed
  have "con ?s b = con s b \<and> rc ?s b = rc s b" for b
  proof (cases "\<exists>j. holds s j b")
    case True
    then obtain j where j: "holds s j b" by blast
    then show ?thesis using con_holds(1) [OF inv', of j b] rc_holds(1) [OF inv', of j b] hh
      con_holds(1) [OF inv j] rc_holds(1) [OF inv j] by simp
  next
    case nh: False
    then have "b \<noteq> bno" using hs by auto
    then show ?thesis using con_holds(2) [OF inv', of b] rc_holds(2) [OF inv', of b] hh
      con_holds(2) [OF inv nh] rc_holds(2) [OF inv nh] nh by simp
  qed
  then have "con ?s = con s" "rc ?s = rc s" by blast+
  moreover have "lk ?s = lk s" "handle ?s = handle s" using hh by (simp_all add: lk_def handle_def fun_eq_iff)
  ultimately show ?thesis using w inv' by blast
qed

lemma bpin_spec:
  assumes inv: "bio_inv s" and h: "handle s i bno" and ov: "Suc (rc s bno) < 2 ^ 32"
  shows "bio_inv (bpin i s)" and "con (bpin i s) = con s"
    and "rc (bpin i s) = (rc s)(bno := Suc (rc s bno))" and "lk (bpin i s) = lk s"
    and "handle (bpin i s) = handle s" and "bpin i s = s\<lparr>bufs := bufs (bpin i s)\<rparr>"
proof -
  have hs: "holds s i bno" and l: "slocked (block (bufs s i))" using h by (auto simp: handle_def holdingsleep_def)
  let ?x = "(bufs s i)\<lparr>refcnt := refcnt (bufs s i) + 1\<rparr>"
  have e: "bpin i s = s\<lparr>bufs := (bufs s)(i := ?x)\<rparr>" by (simp add: bpin_def upd_buf_def)
  have r: "unat (refcnt ?x) = Suc (rc s bno)"
    using ov rc_holds(1) [OF inv hs] by (simp add: unat_word_ariths)
  then have nz: "refcnt ?x \<noteq> 0" by (metis unsigned_0 nat.distinct(1))
  have x: "bdev ?x = ROOTDEV" "blockno ?x = bno" "bvalid ?x" "length (bdata ?x) = BSIZE"
      "slocked (block ?x) \<longrightarrow> refcnt ?x \<noteq> 0" "refcnt ?x = 0 \<longrightarrow> bdata ?x = dimg s bno"
      "bnext ?x = bnext (bufs s i)" "bprev ?x = bprev (bufs s i)"
    using holds_ok [OF inv hs] hs l nz by (auto simp: holds_def)
  note u = upd_one [OF inv hs x e]
  show "bio_inv (bpin i s)" by (rule u)
  show "con (bpin i s) = con s" using u(3) con_holds(1) [OF inv hs] by (simp add: fun_eq_iff)
  show "rc (bpin i s) = (rc s)(bno := Suc (rc s bno))" using u(4) r by simp
  show "lk (bpin i s) = lk s" using u(5) l handle_lk [OF h] by auto
  show "handle (bpin i s) = handle s" using hs by (auto simp: fun_eq_iff handle_def holds_def e)
  show "bpin i s = s\<lparr>bufs := bufs (bpin i s)\<rparr>" by (simp add: e)
qed

lemma bunpin_spec:
  assumes inv: "bio_inv s" and h: "handle s i bno" and r1: "1 < rc s bno"
  shows "bio_inv (bunpin i s)" and "con (bunpin i s) = con s"
    and "rc (bunpin i s) = (rc s)(bno := rc s bno - 1)" and "lk (bunpin i s) = lk s"
    and "handle (bunpin i s) = handle s" and "bunpin i s = s\<lparr>bufs := bufs (bunpin i s)\<rparr>"
proof -
  have hs: "holds s i bno" and l: "slocked (block (bufs s i))" using h by (auto simp: handle_def holdingsleep_def)
  let ?x = "(bufs s i)\<lparr>refcnt := refcnt (bufs s i) - 1\<rparr>"
  have e: "bunpin i s = s\<lparr>bufs := (bufs s)(i := ?x)\<rparr>" by (simp add: bunpin_def upd_buf_def)
  have r: "unat (refcnt ?x) = rc s bno - 1"
    using r1 rc_holds(1) [OF inv hs] by (simp add: unat_sub_if')
  then have nz: "refcnt ?x \<noteq> 0" using r1 by (metis unsigned_0 zero_less_diff less_not_refl)
  have x: "bdev ?x = ROOTDEV" "blockno ?x = bno" "bvalid ?x" "length (bdata ?x) = BSIZE"
      "slocked (block ?x) \<longrightarrow> refcnt ?x \<noteq> 0" "refcnt ?x = 0 \<longrightarrow> bdata ?x = dimg s bno"
      "bnext ?x = bnext (bufs s i)" "bprev ?x = bprev (bufs s i)"
    using holds_ok [OF inv hs] hs l nz by (auto simp: holds_def)
  note u = upd_one [OF inv hs x e]
  show "bio_inv (bunpin i s)" by (rule u)
  show "con (bunpin i s) = con s" using u(3) con_holds(1) [OF inv hs] by (simp add: fun_eq_iff)
  show "rc (bunpin i s) = (rc s)(bno := rc s bno - 1)" using u(4) r by simp
  show "lk (bunpin i s) = lk s" using u(5) l handle_lk [OF h] by auto
  show "handle (bunpin i s) = handle s" using hs by (auto simp: fun_eq_iff handle_def holds_def e)
  show "bunpin i s = s\<lparr>bufs := bufs (bunpin i s)\<rparr>" by (simp add: e)
qed

text \<open>Moving a buffer to the front changes the links only.\<close>

definition move_front :: "nat \<Rightarrow> 'a bio_scheme \<Rightarrow> 'a bio_scheme" where
  "move_front b s =
     (let s = upd_buf (bnext (bufs s b)) (\<lambda>x. x\<lparr>bprev := bprev (bufs s b)\<rparr>) s;
          s = upd_buf (bprev (bufs s b)) (\<lambda>x. x\<lparr>bnext := bnext (bufs s b)\<rparr>) s
      in link_front b s)"

definition same_data :: "buf \<Rightarrow> buf \<Rightarrow> bool" where
  "same_data x y \<longleftrightarrow> bvalid x = bvalid y \<and> bdev x = bdev y \<and> blockno x = blockno y
     \<and> block x = block y \<and> refcnt x = refcnt y \<and> bdata x = bdata y"

lemma same_data_simps [simp]:
  "same_data (x\<lparr>bnext := n\<rparr>) y = same_data x y" "same_data (x\<lparr>bprev := n\<rparr>) y = same_data x y"
  "same_data x x"
  by (simp_all add: same_data_def)

lemma same_data_upd_links:
  "(\<And>j. same_data (bufs s' j) (bufs s j)) \<Longrightarrow> same_data (bufs (upd_buf b (\<lambda>x. x\<lparr>bnext := n\<rparr>) s') j) (bufs s j)"
  "(\<And>j. same_data (bufs s' j) (bufs s j)) \<Longrightarrow> same_data (bufs (upd_buf b (\<lambda>x. x\<lparr>bprev := n\<rparr>) s') j) (bufs s j)"
  by (simp_all add: upd_buf_def)

lemma move_front_data: "same_data (bufs (move_front b s) j) (bufs s j)"
  unfolding move_front_def link_front_def Let_def
  by (intro same_data_upd_links) simp

lemma move_front_only: "move_front b s = s\<lparr>bufs := bufs (move_front b s)\<rparr>"
  by (simp add: move_front_def link_front_def upd_buf_def Let_def)

lemma upd_links [simp]:
  "bnext (bufs (upd_buf b (\<lambda>x. x\<lparr>bnext := n\<rparr>) s) i) = (if i = b then n else bnext (bufs s i))"
  "bprev (bufs (upd_buf b (\<lambda>x. x\<lparr>bnext := n\<rparr>) s) i) = bprev (bufs s i)"
  "bprev (bufs (upd_buf b (\<lambda>x. x\<lparr>bprev := n\<rparr>) s) i) = (if i = b then n else bprev (bufs s i))"
  "bnext (bufs (upd_buf b (\<lambda>x. x\<lparr>bprev := n\<rparr>) s) i) = bnext (bufs s i)"
  by (simp_all add: upd_buf_def)

lemma move_front_lru:
  assumes "lru (bufs s) (as @ b # bs)"
  shows "lru (bufs (move_front b s)) (b # as @ bs)"
proof -
  let ?nx = "nexts (bufs s)" and ?pv = "prevs (bufs s)"
  have r: "ring ?nx ?pv NBUF (as @ b # bs)" and st: "set (as @ b # bs) = {..<NBUF}"
    using assms by (auto simp: lru_def)
  note un = ring_unlink [OF r]
  let ?nx1 = "?nx(?pv b := ?nx b)" and ?pv1 = "?pv(?nx b := ?pv b)"
  have b: "b \<notin> set (NBUF # as @ bs)" using r by (auto simp: ring_def)
  have "ring (?nx1(b := ?nx1 NBUF, NBUF := b)) (?pv1(b := NBUF, ?nx1 NBUF := b)) NBUF (b # as @ bs)"
    by (rule ring_link_front [OF un(1) b])
  moreover have "nexts (bufs (move_front b s)) = ?nx1(b := ?nx1 NBUF, NBUF := b)"
    using un(2,3) b by (simp add: move_front_def link_front_def Let_def fun_eq_iff)
  moreover have "prevs (bufs (move_front b s)) = ?pv1(b := NBUF, ?nx1 NBUF := b)"
    using un(2,3) b by (simp add: move_front_def link_front_def Let_def fun_eq_iff)
  ultimately show ?thesis using st unfolding lru_def by auto
qed

lemma same_data_cong:
  assumes inv: "bio_inv s" and d: "\<And>j. same_data (bufs s' j) (bufs s j)"
    and e: "dimg s' = dimg s" "curpid s' = curpid s" and l: "lru (bufs s') xs"
  shows "bio_inv s'" and "con s' = con s" and "rc s' = rc s" and "lk s' = lk s"
    and "handle s' = handle s"
proof -
  have f: "bdev (bufs s' j) = bdev (bufs s j)" "blockno (bufs s' j) = blockno (bufs s j)"
      "bdata (bufs s' j) = bdata (bufs s j)" "refcnt (bufs s' j) = refcnt (bufs s j)"
      "block (bufs s' j) = block (bufs s j)" "bvalid (bufs s' j) = bvalid (bufs s j)" for j
    using d [of j] by (auto simp: same_data_def)
  have h: "holds s' = holds s" by (simp add: holds_def f fun_eq_iff)
  show "con s' = con s" "rc s' = rc s" "lk s' = lk s" "handle s' = handle s"
    by (auto simp: con_def rc_def lk_def handle_def h f e fun_eq_iff split: option.split)
  show "bio_inv s'"
  proof (rule bio_invI [OF l])
    show "buf_ok (bufs s' i) (dimg s')" if "i < NBUF" for i
      using bio_invD(1) [OF inv that] by (simp add: buf_ok_def f e)
    show "i = j" if "holds s' i b" "holds s' j b" for i j b using that h holds_unique [OF inv] by simp
    show "length (dimg s' b) = BSIZE" for b using bio_invD(2) [OF inv] e by simp
  qed
qed

lemma upd_buf_upd: "upd_buf b g (upd_buf b f s) = upd_buf b (\<lambda>x. g (f x)) s"
  by (simp add: upd_buf_def)

text \<open>Wakeups and the cache do not see each other.\<close>

lemma bufs_wakeup [simp]: "bufs (wakeup ch s) = bufs s" "dimg (wakeup ch s) = dimg s" "dhist (wakeup ch s) = dhist s"
  by (simp_all add: wakeup_procs)

lemma upd_buf_wakeup: "upd_buf b f (wakeup ch s) = wakeup ch (upd_buf b f s)"
  by (simp add: wakeup_procs upd_buf_def)

lemma move_front_wakeup: "move_front b (wakeup ch s) = wakeup ch (move_front b s)"
  by (simp add: move_front_def link_front_def Let_def upd_buf_wakeup)

lemma curpid_wakeup [simp]: "curpid (wakeup ch s) = curpid s"
  by (simp add: wakeup_procs curpid_wakes wakes_woken)

lemma abs_wakeup [simp]:
  "holds (wakeup ch s) = holds s" "con (wakeup ch s) = con s" "rc (wakeup ch s) = rc s" "lk (wakeup ch s) = lk s"
  "handle (wakeup ch s) = handle s" "bio_inv (wakeup ch s) = bio_inv s"
proof -
  show h: "holds (wakeup ch s) = holds s" by (simp add: holds_def fun_eq_iff)
  show "con (wakeup ch s) = con s" "rc (wakeup ch s) = rc s" "lk (wakeup ch s) = lk s"
    "handle (wakeup ch s) = handle s"
    by (simp_all add: con_def rc_def lk_def handle_def h fun_eq_iff split: option.split)
  show "bio_inv (wakeup ch s) = bio_inv s" by (simp add: bio_inv_def)
qed

text \<open>Only the buffers changed, and some sleepers were woken.\<close>

definition bchg :: "'a bio_scheme \<Rightarrow> 'a bio_scheme \<Rightarrow> bool" where
  "bchg s s' \<longleftrightarrow> (\<exists>B P. wakes (procs s) P \<and> s' = s\<lparr>procs := P, bufs := B\<rparr>)"

lemma bchgI: "s' = s\<lparr>bufs := B\<rparr> \<Longrightarrow> bchg s s'"
  unfolding bchg_def by (rule exI [of _ B], rule exI [of _ "procs s"]) simp

lemma bchg_refl [simp]: "bchg s s"
  by (rule bchgI [where B = "bufs s"]) simp

lemma bchg_trans: "bchg s t \<Longrightarrow> bchg t u \<Longrightarrow> bchg s u"
proof -
  assume "bchg s t" "bchg t u"
  then obtain B P B' P' where "wakes (procs s) P" "t = s\<lparr>procs := P, bufs := B\<rparr>"
    "wakes (procs t) P'" "u = t\<lparr>procs := P', bufs := B'\<rparr>" unfolding bchg_def by blast
  then have "wakes (procs s) P'" "u = s\<lparr>procs := P', bufs := B'\<rparr>" using wakes_trans by auto
  then show ?thesis unfolding bchg_def by blast
qed

lemma bchg_wakeup: "bchg s t \<Longrightarrow> bchg s (wakeup ch t)"
proof (erule bchg_trans)
  show "bchg t (wakeup ch t)"
    unfolding bchg_def wakeup_procs by (rule exI [of _ "bufs t"], rule exI) (auto intro: wakes_woken)
qed

lemma brelse_eq:
  assumes "holdingsleep (curpid s) (block (bufs s i))"
    and s1: "s1 = upd_buf i (\<lambda>x. x\<lparr>block := releasesleep (block x), refcnt := refcnt x - 1\<rparr>) s"
  shows "brelse i s = Inr (wakeup (ChSleeplock i) (if refcnt (bufs s i) = 1 then move_front i s1 else s1))"
proof -
  have "refcnt (bufs s1 i) = 0 \<longleftrightarrow> refcnt (bufs s i) = 1" by (simp add: s1 upd_buf_def)
  then show ?thesis
    using assms(1) unfolding brelse_def Let_def upd_buf_wakeup upd_buf_upd
    by (simp add: s1 [symmetric] move_front_wakeup [symmetric]) (simp add: move_front_def Let_def upd_buf_wakeup)
qed

definition brelse_post :: "'a bio_scheme \<Rightarrow> u32 \<Rightarrow> 'a bio_scheme \<Rightarrow> bool" where
  "brelse_post s bno s' \<longleftrightarrow> bio_inv s' \<and> bchg s s' \<and> con s' = con s
     \<and> rc s' = (rc s)(bno := rc s bno - 1) \<and> lk s' = lk s - {bno}
     \<and> (\<forall>j b. b \<noteq> bno \<longrightarrow> handle s' j b = handle s j b)"

lemma brelse_spec:
  assumes inv: "bio_inv s" and h: "handle s i bno" and cl: "1 < rc s bno \<or> con s bno = dimg s bno"
  shows "\<exists>s'. brelse i s = Inr s' \<and> brelse_post s bno s'"
proof -
  have hs: "holds s i bno" and l: "holdingsleep (curpid s) (block (bufs s i))" using h by (auto simp: handle_def)
  define x where "x = (bufs s i)\<lparr>block := releasesleep (block (bufs s i)), refcnt := refcnt (bufs s i) - 1\<rparr>"
  define s1 where "s1 = s\<lparr>bufs := (bufs s)(i := x)\<rparr>"
  have nz: "refcnt (bufs s i) \<noteq> 0" using holds_ok(3) [OF inv hs] l by (simp add: holdingsleep_def)
  have "0 < unat (refcnt (bufs s i))" using nz by (simp add: unat_gt_0)
  then have r: "unat (refcnt x) = rc s bno - 1"
    using rc_holds(1) [OF inv hs] by (simp add: x_def unat_sub_if')
  have x: "bdev x = ROOTDEV" "blockno x = bno" "bvalid x" "length (bdata x) = BSIZE"
      "slocked (block x) \<longrightarrow> refcnt x \<noteq> 0" "refcnt x = 0 \<longrightarrow> bdata x = dimg s bno"
      "bnext x = bnext (bufs s i)" "bprev x = bprev (bufs s i)"
    using holds_ok [OF inv hs] hs r cl con_holds(1) [OF inv hs]
    by (auto simp: holds_def x_def releasesleep_def)
  note u = upd_one [OF inv hs x s1_def]
  have p1: "brelse_post s bno s1"
    using u r con_holds(1) [OF inv hs]
    by (auto simp: brelse_post_def fun_eq_iff x_def releasesleep_def s1_def intro: bchgI)
  have "brelse_post s bno (move_front i s1)"
  proof -
    obtain xs where xs: "lru (bufs s1) xs" using u(1) by (auto simp: bio_inv_def)
    have "i \<in> set xs" using xs hs by (auto simp: lru_def holds_def)
    then obtain as bs where "xs = as @ i # bs" by (meson split_list)
    then have l': "lru (bufs (move_front i s1)) (i # as @ bs)" using move_front_lru xs by blast
    have e: "dimg (move_front i s1) = dimg s1" "curpid (move_front i s1) = curpid s1"
      "move_front i s1 = s\<lparr>bufs := bufs (move_front i s1)\<rparr>"
      using move_front_only [of i s1] by (simp_all add: s1_def move_front_def link_front_def upd_buf_def Let_def)
    note c = same_data_cong [OF u(1) move_front_data e(1,2) l']
    show ?thesis using p1 c bchgI [OF e(3)] by (simp add: brelse_post_def)
  qed
  moreover have "brelse i s = Inr (wakeup (ChSleeplock i) (if refcnt (bufs s i) = 1 then move_front i s1 else s1))"
    by (rule brelse_eq [OF l]) (simp add: s1_def x_def upd_buf_def)
  moreover have "brelse_post s bno t \<Longrightarrow> brelse_post s bno (wakeup ch t)" for t ch
    by (simp add: brelse_post_def bchg_wakeup)
  ultimately show ?thesis using p1 by auto
qed

section \<open>Initialisation\<close>

lemma ring_single: "nx h = h \<Longrightarrow> pv h = h \<Longrightarrow> ring nx pv h []"
  by (simp add: ring_def)

lemma link_front_ring:
  assumes r: "ring (nexts (bufs s)) (prevs (bufs s)) NBUF xs" and b: "b \<notin> set (NBUF # xs)"
  shows "ring (nexts (bufs (link_front b s))) (prevs (bufs (link_front b s))) NBUF (b # xs)"
proof -
  let ?nx = "nexts (bufs s)" and ?pv = "prevs (bufs s)"
  have "nexts (bufs (link_front b s)) = ?nx(b := ?nx NBUF, NBUF := b)"
    using b by (simp add: link_front_def Let_def fun_eq_iff)
  moreover have "prevs (bufs (link_front b s)) = ?pv(b := NBUF, ?nx NBUF := b)"
    using b by (simp add: link_front_def Let_def fun_eq_iff)
  ultimately show ?thesis using ring_link_front [OF r b] by simp
qed

abbreviation binit_step :: "nat \<Rightarrow> 'a bio_scheme \<Rightarrow> 'a bio_scheme" where
  "binit_step b s \<equiv> link_front b (upd_buf b (\<lambda>x. x\<lparr>block := initsleeplock\<rparr>) s)"

lemma binit_step_links:
  "nexts (bufs (upd_buf b (\<lambda>x. x\<lparr>block := k\<rparr>) s)) = nexts (bufs s)"
  "prevs (bufs (upd_buf b (\<lambda>x. x\<lparr>block := k\<rparr>) s)) = prevs (bufs s)"
  by (simp_all add: upd_buf_def fun_eq_iff)

lemma binit_fold:
  assumes "ring (nexts (bufs s)) (prevs (bufs s)) NBUF []"
  shows "k \<le> NBUF \<Longrightarrow> ring (nexts (bufs (fold binit_step [0..<k] s)))
    (prevs (bufs (fold binit_step [0..<k] s))) NBUF (rev [0..<k])"
proof (induction k)
  case 0
  then show ?case using assms by simp
next
  case (Suc k)
  let ?s = "fold binit_step [0..<k] s"
  have "ring (nexts (bufs (upd_buf k (\<lambda>x. x\<lparr>block := initsleeplock\<rparr>) ?s)))
      (prevs (bufs (upd_buf k (\<lambda>x. x\<lparr>block := initsleeplock\<rparr>) ?s))) NBUF (rev [0..<k])"
    unfolding binit_step_links using Suc by simp
  from link_front_ring [OF this, of k] Suc.prems show ?case by simp
qed

lemma fold_inv: "P s \<Longrightarrow> (\<And>x s. x \<in> set xs \<Longrightarrow> P s \<Longrightarrow> P (f x s)) \<Longrightarrow> P (fold f xs s)"
  by (induction xs arbitrary: s) auto

lemma binit_inv:
  assumes z: "\<forall>i<NBUF. bdev (bufs s i) = 0 \<and> refcnt (bufs s i) = 0 \<and> \<not> slocked (block (bufs s i))"
    and d: "\<forall>b. length (dimg s b) = BSIZE"
  shows "bio_inv (binit s)" and "con (binit s) = dimg s" and "rc (binit s) = (\<lambda>_. 0)"
    and "lk (binit s) = {}" and "binit s = s\<lparr>bufs := bufs (binit s)\<rparr>"
proof -
  define s1 where "s1 = upd_buf NBUF (\<lambda>x. x\<lparr>bnext := NBUF\<rparr>) (upd_buf NBUF (\<lambda>x. x\<lparr>bprev := NBUF\<rparr>) s)"
  have e: "binit s = fold binit_step [0..<NBUF] s1" by (simp add: binit_def s1_def Let_def)
  have "ring (nexts (bufs s1)) (prevs (bufs s1)) NBUF []" by (rule ring_single) (simp_all add: s1_def)
  from binit_fold [OF this, of NBUF] have l: "lru (bufs (binit s)) (rev [0..<NBUF])"
    by (simp add: e lru_def atLeast0LessThan)
  define P :: "'a bio_scheme \<Rightarrow> bool" where "P = (\<lambda>t. \<exists>B. t = s\<lparr>bufs := B\<rparr> \<and>
    (\<forall>i<NBUF. bdev (B i) = 0 \<and> refcnt (B i) = 0 \<and> \<not> slocked (block (B i))))"
  have "P (binit s)"
    unfolding e
  proof (rule fold_inv)
    have P0: "P s" using z by (auto simp: P_def intro: exI [of _ "bufs s"])
    have Pu: "P (upd_buf b f t)" if "P t" and "\<And>x. bdev (f x) = bdev x \<and> refcnt (f x) = refcnt x
        \<and> (slocked (block (f x)) \<longrightarrow> slocked (block x))" for b f t
    proof -
      obtain B where B: "t = s\<lparr>bufs := B\<rparr>"
          "\<forall>i<NBUF. bdev (B i) = 0 \<and> refcnt (B i) = 0 \<and> \<not> slocked (block (B i))"
        using \<open>P t\<close> by (auto simp: P_def)
      then show ?thesis using that(2) [of "B b"]
        by (auto simp: P_def upd_buf_def intro!: exI [of _ "B(b := f (B b))"] split: if_splits)
    qed
    show "P s1" unfolding s1_def by (intro Pu P0) simp_all
    show "P (binit_step b t)" if "P t" for b t
      unfolding link_front_def Let_def by (intro Pu that) (simp_all add: initsleeplock_def)
  qed
  then have p: "binit s = s\<lparr>bufs := bufs (binit s)\<rparr>" and zz: "\<forall>i<NBUF. bdev (bufs (binit s) i) = 0
      \<and> refcnt (bufs (binit s) i) = 0 \<and> \<not> slocked (block (bufs (binit s) i))"
    unfolding P_def by auto
  show "binit s = s\<lparr>bufs := bufs (binit s)\<rparr>" by (rule p)
  have dm: "dimg (binit s) = dimg s" by (subst p) simp
  have nh: "\<not> holds (binit s) i b" for i b using zz by (auto simp: holds_def)
  show inv: "bio_inv (binit s)"
  proof (rule bio_invI [OF l])
    show "buf_ok (bufs (binit s) i) (dimg (binit s))" if "i < NBUF" for i using zz that by (simp add: buf_ok_def)
  qed (use nh dm d in auto)
  show "con (binit s) = dimg s" using con_holds(2) [OF inv] nh dm by (simp add: fun_eq_iff)
  show "rc (binit s) = (\<lambda>_. 0)" using rc_holds(2) [OF inv] nh by (simp add: fun_eq_iff)
  show "lk (binit s) = {}" using nh by (simp add: lk_def)
qed

section \<open>Properties\<close>

text \<open>
  C18: the cache is transparent. On a well-formed cache with the block unlocked and a
  buffer to spare, \<^verbatim>\<open>bread\<close> returns a buffer locked by the caller whose data is the
  current content of the block: the latest data stored through the cache, the disk's
  otherwise. Recycling a buffer loses nothing: the content of every block is as before.
\<close>

theorem bread_transparent:
  assumes "bio_inv s" and "bno \<notin> lk s" and "0 < rc s bno \<or> card (refd s) < NBUF"
    and "Suc (rc s bno) < 2 ^ 32"
  shows "\<exists>i s'. bread ROOTDEV bno s = Inr (i, s') \<and> bread_post s bno i s'"
  using assms by (rule bread_spec)

definition boot_bio :: bio where
  "boot_bio = \<lparr>phy = \<lparr>pmem = \<lambda>_. 0, freelist = 0, kend = 0x80030000\<rparr>,
     procs = (\<lambda>_. zero_proc)(0 := zero_proc\<lparr>pid := 1, pstate := RUNNING\<rparr>), cur = 0, nextpid = 2,
     initproc = 0, ticks = 0, trampoline = 0x80007000, kout = [], bufs = \<lambda>_. \<lparr>bvalid = False, bdisk = False, bdev = 0, blockno = 0, block = initsleeplock, refcnt = 0,
     bprev = 0, bnext = 0, bdata = []\<rparr>, dimg = \<lambda>b. replicate BSIZE (ucast b), dhist = []\<rparr>"

lemma boot_bio_inv:
  "bio_inv (binit boot_bio)" "con (binit boot_bio) = dimg boot_bio" "rc (binit boot_bio) = (\<lambda>_. 0)"
  "lk (binit boot_bio) = {}"
  using binit_inv [of boot_bio] by (simp_all add: boot_bio_def initsleeplock_def)

theorem bread_transparent_witness:
  "\<exists>i s'. bread ROOTDEV 7 (binit boot_bio) = Inr (i, s') \<and> bread_post (binit boot_bio) 7 i s'"
  by (rule bread_transparent) (simp_all add: boot_bio_inv refd_def NBUF_def)

text \<open>
  C19: after \<^verbatim>\<open>binit\<close> the cache is well formed and shows the disk, and \<^verbatim>\<open>brelse\<close> keeps
  it so: when the holder of a buffer whose content is on disk, or that is pinned, releases
  it, the lock and one reference are gone, no content changes, and all buffers stay linked
  in one ring with an unreferenced buffer moved to its front.
\<close>

theorem brelse_preserves:
  assumes z: "\<forall>i<NBUF. bdev (bufs s0 i) = 0 \<and> refcnt (bufs s0 i) = 0 \<and> \<not> slocked (block (bufs s0 i))"
      "\<forall>b. length (dimg s0 b) = BSIZE"
    and "bio_inv s" and "handle s i bno" and "1 < rc s bno \<or> con s bno = dimg s bno"
  shows "bio_inv (binit s0) \<and> con (binit s0) = dimg s0
    \<and> (\<exists>s'. brelse i s = Inr s' \<and> brelse_post s bno s')"
  using binit_inv [OF z] brelse_spec [OF assms(3-5)] by simp

theorem brelse_preserves_witness:
  "\<exists>i s s'. bread ROOTDEV 7 (binit boot_bio) = Inr (i, s) \<and> brelse i s = Inr s' \<and> brelse_post s 7 s'"
proof -
  obtain i s where r: "bread ROOTDEV 7 (binit boot_bio) = Inr (i, s)" and p: "bread_post (binit boot_bio) 7 i s"
    using bread_spec [of "binit boot_bio" 7] by (auto simp: boot_bio_inv refd_def NBUF_def)
  have "binit boot_bio = boot_bio\<lparr>bufs := bufs (binit boot_bio)\<rparr>"
    by (rule binit_inv(5)) (simp_all add: boot_bio_def initsleeplock_def)
  note d = bufs_only(1) [OF this]
  have "s = (binit boot_bio)\<lparr>bufs := bufs s\<rparr>" "con s = con (binit boot_bio)"
    using p by (auto simp: bread_post_def)
  then have "con s 7 = dimg s 7" using d bufs_only(1) [of s "binit boot_bio"] boot_bio_inv(2) by simp
  then have "\<exists>s'. brelse i s = Inr s' \<and> brelse_post s 7 s'"
    using brelse_preserves [of boot_bio s i 7] p
    by (auto simp: boot_bio_def initsleeplock_def bread_post_def)
  with r show ?thesis by blast
qed

end
