(* ===== verification/Log.thy ===== *)
theory Log
  imports Bio
begin

text \<open>
  \<^verbatim>\<open>kernel/log.c\<close>: the write-ahead log. The in-memory log extends the state of the buffer
  cache. \<^verbatim>\<open>log.start\<close> and the entries of \<^verbatim>\<open>block[]\<close>, of type \<^verbatim>\<open>int\<close> in the source, are only
  used as block numbers and are kept as 32-bit words; the counters are integers. A wait in
  \<^verbatim>\<open>begin_op\<close> is the outcome \<open>Sleeps ChLog\<close>.
\<close>

section \<open>Model\<close>

record logheader =
  lh_n :: int
  lh_block :: "u32 list"

record log =
  lg_start :: u32
  lg_size :: int
  lg_outstanding :: int
  lg_committing :: bool
  lg_dev :: u32
  lg_lh :: logheader

record logst = bio +
  lg :: log

definition install_body :: "bool \<Rightarrow> nat \<Rightarrow> 'a logst_scheme \<Rightarrow> 'a logst_scheme res" where
  "install_body recovering tail s =
     rbind (bread (lg_dev (lg s)) (lg_start (lg s) + of_nat tail + 1) s) (\<lambda>(lbuf, s).
     rbind (aget (lh_block (lg_lh (lg s))) tail) (\<lambda>bno.
     rbind (bread (lg_dev (lg s)) bno s) (\<lambda>(dbuf, s).
     rbind (bwrite dbuf (set_data dbuf (bdata (bufs s lbuf)) s)) (\<lambda>s.
     rbind (brelse lbuf (if \<not> recovering then bunpin dbuf s else s)) (\<lambda>s.
       brelse dbuf s)))))"

definition install_trans :: "bool \<Rightarrow> 'a logst_scheme \<Rightarrow> 'a logst_scheme res" where
  "install_trans recovering s =
     rfold (install_body recovering) [0..<nat (lh_n (lg_lh (lg s)))] s"

definition set_lh_n :: "int \<Rightarrow> 'a logst_scheme \<Rightarrow> 'a logst_scheme" where
  "set_lh_n n s = s\<lparr>lg := (lg s)\<lparr>lg_lh := (lg_lh (lg s))\<lparr>lh_n := n\<rparr>\<rparr>\<rparr>"

definition set_lh_block :: "nat \<Rightarrow> u32 \<Rightarrow> 'a logst_scheme \<Rightarrow> 'a logst_scheme res" where
  "set_lh_block i v s =
     rbind (aset (lh_block (lg_lh (lg s))) i v) (\<lambda>bl.
       Inr (s\<lparr>lg := (lg s)\<lparr>lg_lh := (lg_lh (lg s))\<lparr>lh_block := bl\<rparr>\<rparr>\<rparr>))"

text \<open>The header block read as a \<^verbatim>\<open>struct logheader\<close>.\<close>

definition get_logheader :: "byte list \<Rightarrow> logheader" where
  "get_logheader d = \<lparr>lh_n = sint (get32 0 d), lh_block = get32s 4 LOGSIZE d\<rparr>"

definition read_head :: "'a logst_scheme \<Rightarrow> 'a logst_scheme res" where
  "read_head s =
     rbind (bread (lg_dev (lg s)) (lg_start (lg s)) s) (\<lambda>(buf, s).
       let lh = get_logheader (bdata (bufs s buf));
           s = set_lh_n (lh_n lh) s
       in rbind (rfold (\<lambda>i s. rbind (aget (lh_block lh) i) (\<lambda>v. set_lh_block i v s))
                  [0..<nat (lh_n lh)] s)
            (\<lambda>s. brelse buf s))"

definition write_head :: "'a logst_scheme \<Rightarrow> 'a logst_scheme res" where
  "write_head s =
     rbind (bread (lg_dev (lg s)) (lg_start (lg s)) s) (\<lambda>(buf, s).
       let s = set_data buf (put32 0 (of_int (lh_n (lg_lh (lg s)))) (bdata (bufs s buf))) s
       in rbind (rfold (\<lambda>i s. rbind (aget (lh_block (lg_lh (lg s))) i) (\<lambda>v.
                         Inr (set_data buf (put32 (4 + 4 * i) v (bdata (bufs s buf))) s)))
                  [0..<nat (lh_n (lg_lh (lg s)))] s) (\<lambda>s.
          rbind (bwrite buf s) (\<lambda>s. brelse buf s)))"

definition recover_from_log :: "'a logst_scheme \<Rightarrow> 'a logst_scheme res" where
  "recover_from_log s =
     rbind (read_head s) (\<lambda>s.
     rbind (install_trans True s) (\<lambda>s.
     write_head (set_lh_n 0 s)))"

definition initlog :: "u32 \<Rightarrow> superblock \<Rightarrow> 'a logst_scheme \<Rightarrow> 'a logst_scheme res" where
  "initlog dev sb s =
     (if 4 + 4 * LOGSIZE \<ge> BSIZE then Inl (Panic ''initlog: too big logheader'')
      else recover_from_log (s\<lparr>lg := (lg s)\<lparr>lg_start := logstart sb, lg_size := sint (nlog sb),
             lg_dev := dev\<rparr>\<rparr>))"

definition begin_op :: "'a logst_scheme \<Rightarrow> 'a logst_scheme res" where
  "begin_op s =
     (if lg_committing (lg s) then Inl (Sleeps ChLog)
      else if lh_n (lg_lh (lg s)) + (lg_outstanding (lg s) + 1) * int MAXOPBLOCKS > int LOGSIZE
      then Inl (Sleeps ChLog)
      else Inr (s\<lparr>lg := (lg s)\<lparr>lg_outstanding := lg_outstanding (lg s) + 1\<rparr>\<rparr>))"

definition write_log_body :: "nat \<Rightarrow> 'a logst_scheme \<Rightarrow> 'a logst_scheme res" where
  "write_log_body tail s =
     rbind (bread (lg_dev (lg s)) (lg_start (lg s) + of_nat tail + 1) s) (\<lambda>(to, s).
     rbind (aget (lh_block (lg_lh (lg s))) tail) (\<lambda>bno.
     rbind (bread (lg_dev (lg s)) bno s) (\<lambda>(from, s).
     rbind (bwrite to (set_data to (bdata (bufs s from)) s)) (\<lambda>s.
     rbind (brelse from s) (\<lambda>s.
       brelse to s)))))"

definition write_log :: "'a logst_scheme \<Rightarrow> 'a logst_scheme res" where
  "write_log s = rfold write_log_body [0..<nat (lh_n (lg_lh (lg s)))] s"

definition commit :: "'a logst_scheme \<Rightarrow> 'a logst_scheme res" where
  "commit s =
     (if lh_n (lg_lh (lg s)) > 0
      then
        rbind (write_log s) (\<lambda>s.
        rbind (write_head s) (\<lambda>s.
        rbind (install_trans False s) (\<lambda>s.
        write_head (set_lh_n 0 s))))
      else Inr s)"

definition end_op :: "'a logst_scheme \<Rightarrow> 'a logst_scheme res" where
  "end_op s =
     (let s = s\<lparr>lg := (lg s)\<lparr>lg_outstanding := lg_outstanding (lg s) - 1\<rparr>\<rparr> in
      if lg_committing (lg s) then Inl (Panic ''log.committing'')
      else if lg_outstanding (lg s) = 0
      then
        rbind (commit (s\<lparr>lg := (lg s)\<lparr>lg_committing := True\<rparr>\<rparr>)) (\<lambda>s.
          Inr (wakeup ChLog (s\<lparr>lg := (lg s)\<lparr>lg_committing := False\<rparr>\<rparr>)))
      else Inr (wakeup ChLog s))"

text \<open>The search loop of \<^verbatim>\<open>log_write\<close>: the index of the block in the log, or \<^verbatim>\<open>log.lh.n\<close>.\<close>

primrec log_find :: "u32 \<Rightarrow> u32 list \<Rightarrow> nat" where
  "log_find bno [] = 0"
| "log_find bno (x # xs) = (if x = bno then 0 else Suc (log_find bno xs))"

definition log_write :: "nat \<Rightarrow> 'a logst_scheme \<Rightarrow> 'a logst_scheme res" where
  "log_write b s =
     (let n = lh_n (lg_lh (lg s)) in
      if n \<ge> int LOGSIZE \<or> n \<ge> lg_size (lg s) - 1 then Inl (Panic ''too big a transaction'')
      else if lg_outstanding (lg s) < 1 then Inl (Panic ''log_write outside of trans'')
      else
        let i = log_find (blockno (bufs s b)) (take (nat n) (lh_block (lg_lh (lg s)))) in
        rbind (set_lh_block i (blockno (bufs s b)) s) (\<lambda>s.
          if int i = n then Inr (set_lh_n (n + 1) (bpin b s)) else Inr s))"

section \<open>Buffers pinned and locked\<close>

text \<open>Every block of \<open>P\<close> is pinned once, every block of \<open>L\<close> is locked by one holder.\<close>

definition pins :: "'a bio_scheme \<Rightarrow> u32 set \<Rightarrow> u32 set \<Rightarrow> bool" where
  "pins s P L \<longleftrightarrow> bio_inv s \<and> lk s = L \<and> (\<forall>b. rc s b = of_bool (b \<in> P) + of_bool (b \<in> L))"

lemma pins_refd: "pins s P L \<Longrightarrow> refd s = P \<union> L"
  by (auto simp: pins_def refd_def split: if_splits)

lemma pins_con: "pins s P L \<Longrightarrow> b \<notin> P \<Longrightarrow> b \<notin> L \<Longrightarrow> con s b = dimg s b"
  by (simp add: pins_def rc_0_con)

lemma pins_finite: "pins s P L \<Longrightarrow> finite P \<and> finite L"
  using finite_refd [of s] pins_refd [of s P L] by (auto simp: pins_def)

text \<open>Only the cache and the disk changed, and some sleepers were woken.\<close>

definition chg :: "'a bio_scheme \<Rightarrow> 'a bio_scheme \<Rightarrow> bool" where
  "chg s s' \<longleftrightarrow> (\<exists>P B D H. wakes (procs s) P \<and> s' = s\<lparr>procs := P, bufs := B, dimg := D, dhist := H\<rparr>)"

lemma chg_refl [simp]: "chg s s"
  unfolding chg_def
  by (intro exI [of _ "procs s"] exI [of _ "bufs s"] exI [of _ "dimg s"] exI [of _ "dhist s"]) simp

lemma chg_trans: "chg s t \<Longrightarrow> chg t u \<Longrightarrow> chg s u"
proof -
  assume "chg s t" "chg t u"
  then obtain P B D H P' B' D' H' where "wakes (procs s) P" "t = s\<lparr>procs := P, bufs := B, dimg := D, dhist := H\<rparr>"
    "wakes (procs t) P'" "u = t\<lparr>procs := P', bufs := B', dimg := D', dhist := H'\<rparr>" unfolding chg_def by blast
  then have "wakes (procs s) P'" "u = s\<lparr>procs := P', bufs := B', dimg := D', dhist := H'\<rparr>"
    using wakes_trans by auto
  then show ?thesis unfolding chg_def by blast
qed

lemma chg_disk: "chg s (s\<lparr>dimg := D, dhist := H\<rparr>)"
  unfolding chg_def
  by (intro exI [of _ "procs s"] exI [of _ "bufs s"] exI [of _ D] exI [of _ H]) simp

lemma bchg_chg: "bchg s s' \<Longrightarrow> chg s s'"
proof -
  assume "bchg s s'"
  then obtain B P where "wakes (procs s) P" "s' = s\<lparr>procs := P, bufs := B, dimg := dimg s, dhist := dhist s\<rparr>"
    unfolding bchg_def by auto
  then show ?thesis unfolding chg_def by blast
qed

lemma bchgD:
  assumes "bchg s s'"
  shows "dimg s' = dimg s" and "dhist s' = dhist s" and "chg s s'"
  using assms bchg_chg by (auto simp: bchg_def)

lemma bchg_lg: "bchg s s' \<Longrightarrow> lg s' = lg s"
  by (auto simp: bchg_def)

lemma chg_lg: "chg s s' \<Longrightarrow> lg s' = lg s"
  unfolding chg_def by auto

lemma pins_bread:
  assumes p: "pins s P L" and b: "b \<notin> L" and c: "b \<in> P \<or> card (P \<union> L) < NBUF"
  shows "\<exists>i s'. bread ROOTDEV b s = Inr (i, s') \<and> pins s' P (insert b L) \<and> bchg s s'
    \<and> con s' = con s \<and> handle s' i b \<and> bdata (bufs s' i) = con s b
    \<and> (\<forall>j c. handle s j c \<longrightarrow> handle s' j c)"
proof -
  have "\<exists>i s'. bread ROOTDEV b s = Inr (i, s') \<and> bread_post s b i s'"
    using p b c pins_refd [OF p] by (intro bread_spec) (auto simp: pins_def)
  then obtain i s' where r: "bread ROOTDEV b s = Inr (i, s')" "bread_post s b i s'" by blast
  then have "pins s' P (insert b L)" using p b by (auto simp: bread_post_def pins_def)
  then show ?thesis using r by (auto simp: bread_post_def intro: bchgI)
qed

lemma pins_set_data:
  assumes "pins s P L" and "handle s i b" and "length d = BSIZE"
  shows "pins (set_data i d s) P L" and "con (set_data i d s) = (con s)(b := d)"
    and "handle (set_data i d s) = handle s" and "bchg s (set_data i d s)"
    and "bdata (bufs (set_data i d s) i) = d"
  using assms set_data_spec [of s i b d] by (simp_all add: pins_def bchgI)

lemma pins_bwrite:
  assumes "pins s P L" and "handle s i b"
  shows "\<exists>s'. bwrite i s = Inr s' \<and> pins s' P L \<and> con s' = con s \<and> handle s' = handle s
    \<and> s' = s\<lparr>dimg := (dimg s)(b := con s b), dhist := (b, con s b) # dhist s\<rparr>"
  using assms bwrite_spec [of s i b] by (auto simp: pins_def)

lemma pins_bpin:
  assumes "pins s P L" and "handle s i b" and "b \<notin> P"
  shows "pins (bpin i s) (insert b P) L" and "con (bpin i s) = con s"
    and "handle (bpin i s) = handle s" and "bchg s (bpin i s)"
  using assms bpin_spec [of s i b] handle_lk [of s i b] by (auto simp: pins_def intro: bchgI)

lemma pins_bunpin:
  assumes "pins s P L" and "handle s i b" and "b \<in> P"
  shows "pins (bunpin i s) (P - {b}) L" and "con (bunpin i s) = con s"
    and "handle (bunpin i s) = handle s" and "bchg s (bunpin i s)"
  using assms bunpin_spec [of s i b] handle_lk [of s i b] by (auto simp: pins_def intro: bchgI)

lemma pins_brelse:
  assumes p: "pins s P L" and h: "handle s i b" and c: "b \<in> P \<or> con s b = dimg s b"
  shows "\<exists>s'. brelse i s = Inr s' \<and> pins s' P (L - {b}) \<and> bchg s s' \<and> con s' = con s
    \<and> (\<forall>j c. c \<noteq> b \<longrightarrow> handle s' j c = handle s j c)"
proof -
  have bL: "b \<in> L" using p handle_lk [OF h] by (simp add: pins_def)
  have "\<exists>s'. brelse i s = Inr s' \<and> brelse_post s b s'"
    using p h c bL by (intro brelse_spec) (auto simp: pins_def)
  then obtain s' where r: "brelse i s = Inr s'" "brelse_post s b s'" by blast
  then have "pins s' P (L - {b})" using p bL by (auto simp: brelse_post_def pins_def)
  then show ?thesis using r by (auto simp: brelse_post_def intro: bchgI)
qed

section \<open>The loops of the log\<close>

text \<open>The blocks of the log on disk: the header and the slots.\<close>

definition slot :: "log \<Rightarrow> nat \<Rightarrow> u32" where
  "slot l t = lg_start l + of_nat t + 1"

definition log_blocks :: "log \<Rightarrow> u32 set" where
  "log_blocks l = (\<lambda>i. lg_start l + of_nat i) ` {..<nat (lg_size l)}"

text \<open>\<open>ds\<close> are the blocks recorded in the in-memory log.\<close>

definition log_wf :: "log \<Rightarrow> u32 list \<Rightarrow> bool" where
  "log_wf l ds \<longleftrightarrow> lg_dev l = ROOTDEV \<and> lh_n (lg_lh l) = int (length ds)
     \<and> length (lh_block (lg_lh l)) = LOGSIZE \<and> take (length ds) (lh_block (lg_lh l)) = ds
     \<and> distinct ds \<and> int (length ds) < lg_size l \<and> lg_size l \<le> int LOGSIZE
     \<and> set ds \<inter> log_blocks l = {}"

lemma log_wfD:
  assumes "log_wf l ds"
  shows "lg_dev l = ROOTDEV" and "lh_n (lg_lh l) = int (length ds)" and "length (lh_block (lg_lh l)) = 30"
    and "distinct ds" and "length ds < 30" and "card (set ds) < NBUF" and "int (length ds) < lg_size l"
    and "\<And>t. t < length ds \<Longrightarrow> aget (lh_block (lg_lh l)) t = Inr (ds ! t)"
    and "\<And>b. b \<in> set ds \<Longrightarrow> b \<notin> log_blocks l"
proof -
  show "aget (lh_block (lg_lh l)) t = Inr (ds ! t)" if "t < length ds" for t
    using assms that nth_take [of t "length ds" "lh_block (lg_lh l)"] by (auto simp: log_wf_def)
qed (use assms in \<open>auto simp: log_wf_def distinct_card NBUF_def\<close>)

lemma slot_in: "Suc t < nat (lg_size l) \<Longrightarrow> slot l t \<in> log_blocks l"
  by (auto simp: slot_def log_blocks_def intro: image_eqI [of _ _ "Suc t"])

lemma start_in: "0 < lg_size l \<Longrightarrow> lg_start l \<in> log_blocks l"
  by (auto simp: log_blocks_def intro: image_eqI [of _ _ 0])

lemma slot_eq: "t < 30 \<Longrightarrow> u < 30 \<Longrightarrow> slot l t = slot l u \<longleftrightarrow> t = u"
  by (auto simp: slot_def dest: arg_cong [where f = unat])

lemma slot_start: "t < 30 \<Longrightarrow> slot l t \<noteq> lg_start l"
proof
  assume t: "t < 30" and "slot l t = lg_start l"
  then have "of_nat (Suc t) = (0 :: u32)" by (simp add: slot_def add.commute)
  then have "unat (of_nat (Suc t) :: u32) = 0" by simp
  moreover have "unat (of_nat (Suc t) :: u32) = Suc t" by (rule unat_of_nat_id) (use t in simp)
  ultimately show False by simp
qed

lemma write_log_body_ok:
  assumes p: "pins s (set ds) {}" and w: "log_wf (lg s) ds" and t: "t < length ds"
  defines "a \<equiv> slot (lg s) t" and "v \<equiv> con s (ds ! t)"
  shows "\<exists>s'. write_log_body t s = Inr s' \<and> pins s' (set ds) {} \<and> chg s s'
    \<and> dimg s' = (dimg s)(a := v) \<and> dhist s' = (a, v) # dhist s \<and> con s' = (con s)(a := v)"
proof -
  note W = log_wfD [OF w]
  have aL: "a \<notin> set ds" using W(9) slot_in [of t "lg s"] t W(7) unfolding a_def by force
  have bP: "ds ! t \<in> set ds" using t by simp
  have ab: "a \<noteq> ds ! t" using aL bP by auto
  obtain i s1 where 1: "bread ROOTDEV a s = Inr (i, s1)" "pins s1 (set ds) {a}" "bchg s s1"
    "con s1 = con s" "handle s1 i a"
    using pins_bread [OF p, of a] W(6) by auto
  obtain j s2 where 2: "bread ROOTDEV (ds ! t) s1 = Inr (j, s2)" "pins s2 (set ds) {ds ! t, a}"
    "bchg s1 s2" "con s2 = con s" "handle s2 j (ds ! t)" "bdata (bufs s2 j) = v" "handle s2 i a"
    using pins_bread [OF 1(2), of "ds ! t"] 1(4,5) bP aL v_def by auto
  have lv: "length v = BSIZE" using length_con [of s "ds ! t"] p by (simp add: pins_def v_def)
  define s3 where "s3 = set_data i v s2"
  note 3 = pins_set_data [OF 2(2,7) lv, folded s3_def]
  obtain s4 where 4: "bwrite i s3 = Inr s4" "pins s4 (set ds) {ds ! t, a}" "con s4 = (con s)(a := v)"
    "handle s4 = handle s2" "s4 = s3\<lparr>dimg := (dimg s3)(a := v), dhist := (a, v) # dhist s3\<rparr>"
    using pins_bwrite [OF 3(1), of i a] 2(4,7) 3(2,3) by auto
  obtain s5 where 5: "brelse j s4 = Inr s5" "pins s5 (set ds) {a}" "con s5 = (con s)(a := v)"
    "bchg s4 s5" "handle s5 i a"
    using pins_brelse [OF 4(2), of j "ds ! t"] 4(3,4) 2(5,7) bP ab by (auto simp: insert_Diff_if)
  have img: "dimg s3 = dimg s" "dhist s3 = dhist s" "chg s s3"
    using bchgD [OF bchg_trans [OF bchg_trans [OF 1(3) 2(3)] 3(4)]] by auto
  have s4: "chg s s4" "dimg s5 = (dimg s)(a := v)" "dhist s5 = (a, v) # dhist s"
    using chg_trans [OF img(3) chg_disk] 4(5) bchgD [OF 5(4)] img by auto
  obtain s6 where 6: "brelse i s5 = Inr s6" "pins s6 (set ds) {}" "con s6 = (con s)(a := v)" "bchg s5 s6"
    using pins_brelse [OF 5(2), of i a] 5(3,5) s4 by auto
  have "write_log_body t s = Inr s6"
    using 1(1) 2(1,6) 4(1) 5(1) 6(1) W(1,8) t bchg_lg [OF 1(3)] bchg_lg [OF 2(3)]
    by (simp add: write_log_body_def a_def [symmetric, unfolded slot_def] s3_def [symmetric])
  moreover have "chg s s6" using chg_trans s4(1) bchgD(3) [OF 5(4)] bchgD(3) [OF 6(4)] by blast
  moreover have "dimg s6 = (dimg s)(a := v)" "dhist s6 = (a, v) # dhist s" using s4 bchgD [OF 6(4)] by auto
  ultimately show ?thesis using 6 by blast
qed


lemma install_body_ok:
  assumes p: "pins s P {}" and w: "log_wf (lg s) ds" and t: "t < length ds"
    and P: "P \<subseteq> set ds" "\<not> r \<Longrightarrow> ds ! t \<in> P" "r \<Longrightarrow> P = {}"
  defines "a \<equiv> slot (lg s) t" and "b \<equiv> ds ! t"
  defines "v \<equiv> con s a"
  shows "\<exists>s'. install_body r t s = Inr s' \<and> pins s' (P - {b}) {} \<and> chg s s'
    \<and> dimg s' = (dimg s)(b := v) \<and> dhist s' = (b, v) # dhist s \<and> con s' = (con s)(b := v)"
proof -
  note W = log_wfD [OF w]
  have aL: "a \<notin> set ds" using W(9) slot_in [of t "lg s"] t W(7) unfolding a_def by force
  have ab: "a \<noteq> b" "b \<in> set ds" using aL t unfolding b_def by auto
  have cP: "card P < NBUF" using W(6) card_mono [OF _ P(1)] by simp
  have cP2: "b \<in> P \<or> card (insert a P) < NBUF"
    using P(2,3) unfolding b_def [symmetric] by (cases r) (auto simp: NBUF_def)
  obtain i s1 where 1: "bread ROOTDEV a s = Inr (i, s1)" "pins s1 P {a}" "bchg s s1"
    "con s1 = con s" "handle s1 i a" "bdata (bufs s1 i) = v"
    using pins_bread [OF p, of a] cP unfolding v_def by auto
  obtain j s2 where 2: "bread ROOTDEV b s1 = Inr (j, s2)" "pins s2 P {b, a}"
    "bchg s1 s2" "con s2 = con s" "handle s2 j b" "handle s2 i a"
    using pins_bread [OF 1(2), of b] 1(4,5) cP2 ab by auto
  have iv: "bdata (bufs s2 i) = v"
    using con_holds(1) [of s2 i a] 2(2,4,6) by (simp add: pins_def handle_def v_def)
  have lv: "length v = BSIZE" using length_con [of s a] p by (simp add: pins_def v_def)
  define s3 where "s3 = set_data j v s2"
  note 3 = pins_set_data [OF 2(2,5) lv, folded s3_def]
  obtain s4 where 4: "bwrite j s3 = Inr s4" "pins s4 P {b, a}" "con s4 = (con s)(b := v)"
    "handle s4 = handle s2" "s4 = s3\<lparr>dimg := (dimg s3)(b := v), dhist := (b, v) # dhist s3\<rparr>"
    using pins_bwrite [OF 3(1), of j b] 2(4,5) 3(2,3) by auto
  have img: "dimg s3 = dimg s" "dhist s3 = dhist s" "chg s s3"
    using bchgD [OF bchg_trans [OF bchg_trans [OF 1(3) 2(3)] 3(4)]] by auto
  have s4: "chg s s4" "dimg s4 = (dimg s)(b := v)" "dhist s4 = (b, v) # dhist s"
    using chg_trans [OF img(3) chg_disk] 4(5) img by auto
  define s5 where "s5 = (if \<not> r then bunpin j s4 else s4)"
  have 5: "pins s5 (P - {b}) {b, a}" "con s5 = (con s)(b := v)" "handle s5 = handle s2" "bchg s4 s5"
  proof -
    show "pins s5 (P - {b}) {b, a}" "con s5 = (con s)(b := v)" "handle s5 = handle s2" "bchg s4 s5"
      using pins_bunpin [OF 4(2), of j b] 4(2,3,4) 2(5) P(2,3)
      unfolding s5_def b_def by auto
  qed
  have i5: "dimg s5 = (dimg s)(b := v)" "dhist s5 = (b, v) # dhist s" using bchgD [OF 5(4)] s4 by auto
  have "con s5 a = dimg s5 a" using pins_con [OF p, of a] aL P(1) i5 5(2) ab by auto
  then obtain s6 where 6: "brelse i s5 = Inr s6" "pins s6 (P - {b}) {b}" "con s6 = (con s)(b := v)"
    "bchg s5 s6" "handle s6 j b"
    using pins_brelse [OF 5(1), of i a] 5(2,3) 2(5,6) ab by (auto simp: insert_Diff_if)
  have "con s6 b = dimg s6 b" using 6(3) i5 bchgD [OF 6(4)] by simp
  then obtain s7 where 7: "brelse j s6 = Inr s7" "pins s7 (P - {b}) {}" "con s7 = (con s)(b := v)"
    "bchg s6 s7"
    using pins_brelse [OF 6(2), of j b] 6(3,5) by auto
  have "install_body r t s = Inr s7"
    using 1(1) 2(1) iv 4(1) 6(1) 7(1) W(1,8) t bchg_lg [OF 1(3)] bchg_lg [OF 2(3)]
    by (simp add: install_body_def a_def [symmetric, unfolded slot_def] s3_def [symmetric]
        s5_def [symmetric] b_def [symmetric])
  moreover have b5: "bchg s4 s7" using bchg_trans 5(4) 6(4) 7(4) by blast
  have "chg s s7" "dimg s7 = (dimg s)(b := v)" "dhist s7 = (b, v) # dhist s"
    using chg_trans [OF s4(1)] bchgD [OF b5] s4 by auto
  ultimately show ?thesis using 7 by blast
qed


text \<open>A sequence of block writes, in order, and a state that has performed it.\<close>

definition writes :: "(u32 \<times> byte list) list \<Rightarrow> (u32 \<Rightarrow> byte list) \<Rightarrow> u32 \<Rightarrow> byte list" where
  "writes ws D = fold (\<lambda>(b, v) D. D(b := v)) ws D"

definition wrote :: "(u32 \<times> byte list) list \<Rightarrow> 'a bio_scheme \<Rightarrow> 'a bio_scheme \<Rightarrow> bool" where
  "wrote ws s s' \<longleftrightarrow> dimg s' = writes ws (dimg s) \<and> con s' = writes ws (con s) \<and> dhist s' = rev ws @ dhist s"

lemma writes_Nil [simp]: "writes [] D = D"
  by (simp add: writes_def)

lemma writes_Cons [simp]: "writes (w # ws) D = writes ws (D(fst w := snd w))"
  by (simp add: writes_def case_prod_unfold)

lemma writes_append [simp]: "writes (ws @ ws') D = writes ws' (writes ws D)"
  by (simp add: writes_def)

lemma writes_other: "b \<notin> fst ` set ws \<Longrightarrow> writes ws D b = D b"
  by (induction ws arbitrary: D) auto

lemma writes_in:
  "b \<in> fst ` set ws \<Longrightarrow> writes ws D b = writes ws D' b"
proof (induction ws arbitrary: D D')
  case (Cons w ws)
  then show ?case
    by (cases "b \<in> fst ` set ws") (auto simp: writes_other)
qed simp

lemma writes_map:
  assumes "distinct (map f xs)" and "x \<in> set xs"
  shows "writes (map (\<lambda>x. (f x, g x)) xs) D (f x) = g x"
  using assms
proof (induction xs arbitrary: D)
  case (Cons y xs)
  show ?case
  proof (cases "x \<in> set xs")
    case False
    then have "f x \<notin> f ` set xs" using Cons.prems by auto
    then show ?thesis using Cons.prems False by (auto simp: writes_other image_image)
  qed (use Cons in auto)
qed simp

lemma wrote_Nil [simp]: "wrote [] s s"
  by (simp add: wrote_def)

lemma wrote_trans: "wrote ws s t \<Longrightarrow> wrote ws' t u \<Longrightarrow> wrote (ws @ ws') s u"
  by (simp add: wrote_def)

lemma write_log_loop:
  assumes p: "pins s (set ds) {}" and w: "log_wf (lg s) ds" and k: "k \<le> length ds"
  shows "\<exists>s'. rfold write_log_body [0..<k] s = Inr s' \<and> pins s' (set ds) {} \<and> chg s s'
    \<and> wrote (map (\<lambda>t. (slot (lg s) t, con s (ds ! t))) [0..<k]) s s'"
  using k
proof (induction k)
  case 0
  then show ?case using p by simp
next
  case (Suc k)
  let ?ws = "map (\<lambda>t. (slot (lg s) t, con s (ds ! t))) [0..<k]"
  note W = log_wfD [OF w]
  obtain s1 where 1: "rfold write_log_body [0..<k] s = Inr s1" "pins s1 (set ds) {}" "chg s s1" "wrote ?ws s s1"
    using Suc by auto
  have "slot (lg s) t \<noteq> ds ! k" if "t < k" for t
    using that Suc.prems W(7) slot_in [of t "lg s"] W(9) [of "ds ! k"] by force
  then have "ds ! k \<notin> fst ` set ?ws" unfolding set_map image_image by fastforce
  then have ck: "con s1 (ds ! k) = con s (ds ! k)" using 1(4) by (simp add: wrote_def writes_other)
  have l: "lg s1 = lg s" using chg_lg [OF 1(3)] .
  obtain s2 where 2: "write_log_body k s1 = Inr s2" "pins s2 (set ds) {}" "chg s1 s2"
    "wrote [(slot (lg s) k, con s (ds ! k))] s1 s2"
    using write_log_body_ok [OF 1(2), of k] w l Suc.prems ck by (auto simp: wrote_def)
  have "rfold write_log_body [0..<Suc k] s = Inr s2" using 1(1) 2(1) by (simp add: rfold_append)
  then show ?case using wrote_trans [OF 1(4) 2(4)] chg_trans [OF 1(3) 2(3)] 2(2) by auto
qed

lemma install_loop:
  assumes p: "pins s P {}" and w: "log_wf (lg s) ds" and k: "k \<le> length ds"
    and P: "P = (if r then {} else set ds)"
  shows "\<exists>s'. rfold (install_body r) [0..<k] s = Inr s' \<and> pins s' (P - set (take k ds)) {} \<and> chg s s'
    \<and> wrote (map (\<lambda>t. (ds ! t, con s (slot (lg s) t))) [0..<k]) s s'"
  using k
proof (induction k)
  case 0
  then show ?case using p by simp
next
  case (Suc k)
  let ?ws = "map (\<lambda>t. (ds ! t, con s (slot (lg s) t))) [0..<k]"
  note W = log_wfD [OF w]
  obtain s1 where 1: "rfold (install_body r) [0..<k] s = Inr s1" "pins s1 (P - set (take k ds)) {}" "chg s s1"
    "wrote ?ws s s1"
    using Suc by auto
  have "slot (lg s) k \<notin> set ds" using slot_in [of k "lg s"] W(7,9) Suc.prems by force
  then have "slot (lg s) k \<notin> fst ` set ?ws" using Suc.prems by (auto simp: image_image)
  then have ck: "con s1 (slot (lg s) k) = con s (slot (lg s) k)" using 1(4) by (simp add: wrote_def writes_other)
  have l: "lg s1 = lg s" using chg_lg [OF 1(3)] .
  have "ds ! k \<notin> set (take k ds)"
    using W(4) Suc.prems by (auto simp: in_set_conv_nth nth_eq_iff_index_eq)
  moreover have "P - set (take k ds) \<subseteq> set ds" using P by auto
  ultimately obtain s2 where 2: "install_body r k s1 = Inr s2" "pins s2 (P - set (take k ds) - {ds ! k}) {}"
    "chg s1 s2" "wrote [(ds ! k, con s (slot (lg s) k))] s1 s2"
    using install_body_ok [OF 1(2), of ds k r] w l Suc.prems ck P by (auto simp: wrote_def)
  have "rfold (install_body r) [0..<Suc k] s = Inr s2" using 1(1) 2(1) by (simp add: rfold_append)
  moreover have "P - set (take k ds) - {ds ! k} = P - set (take (Suc k) ds)"
    using Suc.prems by (auto simp: take_Suc_conv_app_nth)
  ultimately show ?case using wrote_trans [OF 1(4) 2(4)] chg_trans [OF 1(3) 2(3)] 2(2) by auto
qed


section \<open>The header block\<close>

lemma put_loop:
  assumes p: "pins s P L" and h: "handle s i b" and bl: "take n bl = ds" and n: "n \<le> length bl" "n \<le> 30"
    and l: "lh_block (lg_lh (lg s)) = bl"
  shows "\<exists>s'. rfold (\<lambda>k s. rbind (aget (lh_block (lg_lh (lg s))) k) (\<lambda>v.
      Inr (set_data i (put32 (4 + 4 * k) v (bdata (bufs s i))) s))) [0..<n] s = Inr s'
    \<and> pins s' P L \<and> bchg s s' \<and> con s' = (con s)(b := put32s 4 ds (con s b)) \<and> handle s' = handle s"
    (is "\<exists>s'. rfold ?f _ _ = _ \<and> _")
  using bl n
proof (induction n arbitrary: ds)
  case 0
  then show ?case using p by simp
next
  case (Suc n)
  obtain s1 where 1: "rfold ?f [0..<n] s = Inr s1" "pins s1 P L" "bchg s s1"
    "con s1 = (con s)(b := put32s 4 (take n bl) (con s b))" "handle s1 = handle s"
    using Suc.IH [OF refl Suc_leD [OF Suc.prems(2)] Suc_leD [OF Suc.prems(3)]] by blast
  have ds: "ds = take n bl @ [bl ! n]" using Suc.prems by (simp add: take_Suc_conv_app_nth)
  have h1: "handle s1 i b" using h 1(5) by simp
  have d1: "bdata (bufs s1 i) = put32s 4 (take n bl) (con s b)"
    using con_holds(1) [of s1 i b] h1 1(2,4) by (simp add: pins_def handle_def)
  let ?d = "put32 (4 + 4 * n) (bl ! n) (bdata (bufs s1 i))"
  have lc: "length (con s b) = 1024" using length_con [of s b] p by (simp add: pins_def)
  then have ld: "length ?d = BSIZE" using Suc.prems unfolding d1 by simp
  have pd: "?d = put32s 4 ds (con s b)" unfolding d1 ds using Suc.prems by (simp add: put32s_append)
  note 2 = pins_set_data [OF 1(2) h1 ld]
  have "lh_block (lg_lh (lg s1)) = bl" using bchg_lg [OF 1(3)] l by simp
  then have "rfold ?f [0..<Suc n] s = Inr (set_data i ?d s1)"
    using 1(1) Suc.prems by (simp add: rfold_append)
  then show ?case using 2 pd 1(4,5) bchg_trans [OF 1(3) 2(4)] by auto
qed

definition header :: "u32 list \<Rightarrow> byte list \<Rightarrow> byte list" where
  "header ds d = put32s 4 ds (put32 0 (of_nat (length ds)) d)"

lemma write_head_ok:
  assumes p: "pins s P {}" and w: "log_wf (lg s) ds" and P: "card P < NBUF"
  shows "\<exists>s'. write_head s = Inr s' \<and> pins s' P {} \<and> chg s s'
    \<and> wrote [(lg_start (lg s), header ds (con s (lg_start (lg s))))] s s'"
proof -
  note W = log_wfD [OF w]
  let ?b = "lg_start (lg s)"
  obtain i s1 where 1: "bread ROOTDEV ?b s = Inr (i, s1)" "pins s1 P {?b}" "bchg s s1"
    "con s1 = con s" "handle s1 i ?b" "bdata (bufs s1 i) = con s ?b"
    using pins_bread [OF p, of ?b] P by auto
  let ?d = "put32 0 (of_int (lh_n (lg_lh (lg s1)))) (bdata (bufs s1 i))"
  have lc: "length (con s ?b) = 1024" using length_con [of s ?b] p by (simp add: pins_def)
  have ld: "length ?d = BSIZE" using lc by (simp add: 1(6))
  define s2 where "s2 = set_data i ?d s1"
  note 2 = pins_set_data [OF 1(2,5) ld, folded s2_def]
  have l2: "lg s2 = lg s" using bchg_lg [OF bchg_trans [OF 1(3) 2(4)]] .
  have tk: "take (length ds) (lh_block (lg_lh (lg s))) = ds" using w by (simp add: log_wf_def)
  have h2: "handle s2 i ?b" using 1(5) 2(3) by simp
  have hd: "header ds (con s ?b) = put32s 4 ds (con s2 ?b)"
    using 2(2) bchg_lg [OF 1(3)] W(2) 1(6) by (simp add: header_def)
  from put_loop [OF 2(1) h2 tk _ _ arg_cong [OF l2, of "\<lambda>l. lh_block (lg_lh l)"]]
  obtain s3 where 3: "rfold (\<lambda>k s. rbind (aget (lh_block (lg_lh (lg s))) k) (\<lambda>v.
      Inr (set_data i (put32 (4 + 4 * k) v (bdata (bufs s i))) s))) [0..<length ds] s2 = Inr s3"
    "pins s3 P {?b}" "bchg s2 s3" "con s3 = (con s)(?b := header ds (con s ?b))" "handle s3 i ?b"
    using W(3,5) 2(2) h2 1(4) unfolding hd by auto
  obtain s4 where 4: "bwrite i s3 = Inr s4" "pins s4 P {?b}" "con s4 = con s3"
    "handle s4 = handle s3" "s4 = s3\<lparr>dimg := (dimg s3)(?b := con s3 ?b), dhist := (?b, con s3 ?b) # dhist s3\<rparr>"
    using pins_bwrite [OF 3(2,5)] by auto
  have "con s4 ?b = dimg s4 ?b" using 4(5) 4(3) by simp
  then obtain s5 where 5: "brelse i s4 = Inr s5" "pins s5 P {}" "con s5 = con s4" "bchg s4 s5"
    using pins_brelse [OF 4(2), of i ?b] 3(5) 4(4) by auto
  have b3: "bchg s s3" using bchg_trans 1(3) 2(4) 3(3) by blast
  have "set_data i (put32 0 (of_nat (length ds)) (bdata (bufs s1 i))) s1 = s2"
    using W(2) bchg_lg [OF 1(3)] by (simp add: s2_def)
  then have "write_head s = Inr s5"
    using 1(1) 3(1) 4(1) 5(1) W(1,2) bchg_lg [OF 1(3)] l2 by (simp add: write_head_def Let_def)
  moreover have "chg s3 s4" unfolding 4(5) by (rule chg_disk)
  then have "chg s s5" using chg_trans bchgD(3) [OF b3] bchgD(3) [OF 5(4)] by blast
  moreover have "wrote [(?b, header ds (con s ?b))] s s5"
    using bchgD [OF 5(4)] bchgD [OF b3] 3(4) 4(3,5) 5(3) by (simp add: wrote_def)
  ultimately show ?thesis using 5(2) by blast
qed


text \<open>The cache does not depend on the log.\<close>

lemma curpid_lg [simp]: "curpid (s\<lparr>lg := l\<rparr>) = curpid s"
  by (simp add: curpid_def myproc_def)

lemma lg_upd [simp]:
  "holds (s\<lparr>lg := l\<rparr>) = holds s" "con (s\<lparr>lg := l\<rparr>) = con s" "rc (s\<lparr>lg := l\<rparr>) = rc s"
  "lk (s\<lparr>lg := l\<rparr>) = lk s" "handle (s\<lparr>lg := l\<rparr>) = handle s" "bio_inv (s\<lparr>lg := l\<rparr>) = bio_inv s"
proof -
  show h: "holds (s\<lparr>lg := l\<rparr>) = holds s" by (simp add: holds_def fun_eq_iff)
  show "con (s\<lparr>lg := l\<rparr>) = con s" "rc (s\<lparr>lg := l\<rparr>) = rc s" "lk (s\<lparr>lg := l\<rparr>) = lk s"
    "handle (s\<lparr>lg := l\<rparr>) = handle s"
    by (simp_all add: con_def rc_def lk_def handle_def h fun_eq_iff split: option.split)
  show "bio_inv (s\<lparr>lg := l\<rparr>) = bio_inv s" by (simp add: bio_inv_def)
qed

lemma bchg_lg_upd: "bchg s t \<Longrightarrow> bchg (s\<lparr>lg := l\<rparr>) (t\<lparr>lg := l\<rparr>)"
proof -
  assume "bchg s t"
  then obtain B P where "wakes (procs s) P" "t = s\<lparr>procs := P, bufs := B\<rparr>" unfolding bchg_def by blast
  then have "wakes (procs (s\<lparr>lg := l\<rparr>)) P" "t\<lparr>lg := l\<rparr> = s\<lparr>lg := l\<rparr>\<lparr>procs := P, bufs := B\<rparr>" by simp_all
  then show ?thesis unfolding bchg_def by blast
qed

lemma pins_lg [simp]: "pins (s\<lparr>lg := l\<rparr>) P L = pins s P L"
  by (simp add: pins_def)

lemma wrote_lg [simp]: "wrote ws (s\<lparr>lg := l\<rparr>) t = wrote ws s t" "wrote ws t (s\<lparr>lg := l\<rparr>) = wrote ws t s"
  by (simp_all add: wrote_def)

lemma read_loop:
  assumes l: "length (lh_block (lg_lh (lg s))) = 30" and b: "take n b = ds" "n \<le> length b" "n \<le> 30"
  shows "rfold (\<lambda>i s. rbind (aget b i) (\<lambda>v. set_lh_block i v s)) [0..<n] s
    = Inr (s\<lparr>lg := (lg s)\<lparr>lg_lh := (lg_lh (lg s))\<lparr>lh_block := ds @ drop n (lh_block (lg_lh (lg s)))\<rparr>\<rparr>\<rparr>)"
  using b
proof (induction n arbitrary: ds)
  case (Suc n)
  have "ds = take n b @ [b ! n]" using Suc.prems by (simp add: take_Suc_conv_app_nth)
  moreover have "drop n (lh_block (lg_lh (lg s))) = lh_block (lg_lh (lg s)) ! n # drop (Suc n) (lh_block (lg_lh (lg s)))"
    using Suc.prems l by (simp add: Cons_nth_drop_Suc)
  ultimately show ?case using Suc.IH [OF refl Suc_leD [OF Suc.prems(2)] Suc_leD [OF Suc.prems(3)]] Suc.prems l
    by (simp add: rfold_append set_lh_block_def list_update_append)
qed simp

text \<open>The transaction recorded on disk.\<close>

definition disk_log :: "log \<Rightarrow> (u32 \<Rightarrow> byte list) \<Rightarrow> u32 list \<Rightarrow> bool" where
  "disk_log l D ds \<longleftrightarrow> lh_n (get_logheader (D (lg_start l))) = int (length ds)
     \<and> take (length ds) (lh_block (get_logheader (D (lg_start l)))) = ds"

lemma get_logheader_header:
  assumes "length d = 1024" and "length ds \<le> 30"
  shows "lh_n (get_logheader (header ds d)) = int (length ds)"
    and "take (length ds) (lh_block (get_logheader (header ds d))) = ds"
proof -
  have "sint (of_nat (length ds) :: u32) = int (length ds)"
    using assms by (simp add: signed_of_nat signed_take_bit_int_eq_self)
  then show "lh_n (get_logheader (header ds d)) = int (length ds)"
    using assms by (simp add: get_logheader_def header_def get32_put32s_other)
  have "get32 (4 + 4 * i) (header ds d) = ds ! i" if "i < length ds" for i
    unfolding header_def by (rule get32_put32s) (use assms that in auto)
  then show "take (length ds) (lh_block (get_logheader (header ds d))) = ds"
    using assms by (intro nth_equalityI) (auto simp: get_logheader_def get32s_def)
qed

lemma read_head_ok:
  assumes p: "pins s {} {}" and d: "lg_dev (lg s) = ROOTDEV" and l: "length (lh_block (lg_lh (lg s))) = 30"
    and ds: "disk_log (lg s) (dimg s) ds" "length ds \<le> 30"
  shows "\<exists>s'. read_head s = Inr s' \<and> pins s' {} {} \<and> wrote [] s s'
    \<and> chg (s\<lparr>lg := (lg s)\<lparr>lg_lh := \<lparr>lh_n = int (length ds),
          lh_block = ds @ drop (length ds) (lh_block (lg_lh (lg s)))\<rparr>\<rparr>\<rparr>) s'"
proof -
  let ?b = "lg_start (lg s)"
  obtain i s1 where 1: "bread ROOTDEV ?b s = Inr (i, s1)" "pins s1 {} {?b}" "bchg s s1"
    "con s1 = con s" "handle s1 i ?b" "bdata (bufs s1 i) = con s ?b"
    using pins_bread [OF p, of ?b] by (auto simp: NBUF_def)
  have c: "con s ?b = dimg s ?b" using pins_con [OF p] by simp
  define h where "h = get_logheader (dimg s ?b)"
  have h: "lh_n h = int (length ds)" "take (length ds) (lh_block h) = ds" "length (lh_block h) = 30"
    using ds(1) by (simp_all add: disk_log_def h_def get_logheader_def)
  define s2 where "s2 = set_lh_n (int (length ds)) s1"
  define s3 where "s3 = s2\<lparr>lg := (lg s2)\<lparr>lg_lh := (lg_lh (lg s2))\<lparr>lh_block := ds @ drop (length ds) (lh_block (lg_lh (lg s2)))\<rparr>\<rparr>\<rparr>"
  have l1: "lg s1 = lg s" using bchg_lg [OF 1(3)] .
  have "rfold (\<lambda>i s. rbind (aget (lh_block h) i) (\<lambda>v. set_lh_block i v s)) [0..<length ds] s2 = Inr s3"
    unfolding s3_def using l l1 h ds(2) by (intro read_loop) (simp_all add: s2_def set_lh_n_def)
  moreover have "s3 = s1\<lparr>lg := (lg s)\<lparr>lg_lh := \<lparr>lh_n = int (length ds),
      lh_block = ds @ drop (length ds) (lh_block (lg_lh (lg s)))\<rparr>\<rparr>\<rparr>" (is "_ = s1\<lparr>lg := ?l\<rparr>")
    by (simp add: s3_def s2_def set_lh_n_def l1)
  ultimately have rd: "rfold (\<lambda>i s. rbind (aget (lh_block h) i) (\<lambda>v. set_lh_block i v s)) [0..<length ds] s2
      = Inr (s1\<lparr>lg := ?l\<rparr>)" by simp
  have "con s1 ?b = dimg s1 ?b" using 1(4) c bchgD [OF 1(3)] by simp
  then obtain s4 where 4: "brelse i (s1\<lparr>lg := ?l\<rparr>) = Inr s4" "pins s4 {} {}" "bchg (s1\<lparr>lg := ?l\<rparr>) s4" "con s4 = con s1"
    using pins_brelse [of "s1\<lparr>lg := ?l\<rparr>" "{}" "{?b}" i ?b] 1(2,5) by auto
  have "read_head s = Inr s4"
    using 1(1) d rd 4(1) 1(6) h(1) by (simp add: read_head_def Let_def c h_def [symmetric] s2_def)
  moreover have "wrote [] s s4" using bchgD [OF 4(3)] bchgD [OF 1(3)] 4(4) 1(4) by (simp add: wrote_def)
  moreover have "bchg (s\<lparr>lg := ?l\<rparr>) (s1\<lparr>lg := ?l\<rparr>)" using 1(3) by (rule bchg_lg_upd)
  then have "chg (s\<lparr>lg := ?l\<rparr>) s4" using bchgD(3) [OF bchg_trans [OF _ 4(3)]] by blast
  ultimately show ?thesis using 4(2) by blast
qed


section \<open>Commit and recovery\<close>

text \<open>The cache, the disk and the log changed.\<close>

definition lchg :: "'a logst_scheme \<Rightarrow> 'a logst_scheme \<Rightarrow> bool" where
  "lchg s s' \<longleftrightarrow> (\<exists>P B D H l. wakes (procs s) P
     \<and> s' = s\<lparr>procs := P, bufs := B, dimg := D, dhist := H, lg := l\<rparr>)"

lemma lchgI: "chg s s' \<Longrightarrow> lchg s (s'\<lparr>lg := l\<rparr>)"
proof -
  assume "chg s s'"
  then obtain P B D H where "wakes (procs s) P" "s'\<lparr>lg := l\<rparr> = s\<lparr>procs := P, bufs := B, dimg := D, dhist := H, lg := l\<rparr>"
    unfolding chg_def by auto
  then show ?thesis unfolding lchg_def by blast
qed

lemma chg_lchg: "chg s s' \<Longrightarrow> lchg s s'"
proof -
  assume "chg s s'"
  from lchgI [OF this, of "lg s'"] show ?thesis by simp
qed

lemma lchg_lg: "lchg s (s\<lparr>lg := l\<rparr>)"
  by (rule lchgI) simp

lemma lchg_trans: "lchg s t \<Longrightarrow> lchg t u \<Longrightarrow> lchg s u"
proof -
  assume "lchg s t" "lchg t u"
  then obtain P B D H l P' B' D' H' l' where
    "wakes (procs s) P" "t = s\<lparr>procs := P, bufs := B, dimg := D, dhist := H, lg := l\<rparr>"
    "wakes (procs t) P'" "u = t\<lparr>procs := P', bufs := B', dimg := D', dhist := H', lg := l'\<rparr>"
    unfolding lchg_def by blast
  then have "wakes (procs s) P'" "u = s\<lparr>procs := P', bufs := B', dimg := D', dhist := H', lg := l'\<rparr>"
    using wakes_trans by auto
  then show ?thesis unfolding lchg_def by blast
qed

lemma lchg_wakeup: "lchg s t \<Longrightarrow> lchg s (wakeup ch t)"
  by (erule lchg_trans) (rule chg_lchg [OF bchg_chg [OF bchg_wakeup [OF bchg_refl]]])

lemma lg_wakeup [simp]: "lg (wakeup ch s) = lg s" "wakeup ch (s\<lparr>lg := l\<rparr>) = (wakeup ch s)\<lparr>lg := l\<rparr>"
  by (simp_all add: wakeup_procs)

lemma pins_wakeup [simp]: "pins (wakeup ch s) P L = pins s P L"
  by (simp add: pins_def)

definition commit_writes :: "log \<Rightarrow> (u32 \<Rightarrow> byte list) \<Rightarrow> u32 list \<Rightarrow> (u32 \<times> byte list) list" where
  "commit_writes l C ds =
     map (\<lambda>t. (slot l t, C (ds ! t))) [0..<length ds]
     @ (lg_start l, header ds (C (lg_start l)))
     # map (\<lambda>t. (ds ! t, C (ds ! t))) [0..<length ds]
     @ [(lg_start l, header [] (header ds (C (lg_start l))))]"

definition recover_writes :: "log \<Rightarrow> (u32 \<Rightarrow> byte list) \<Rightarrow> u32 list \<Rightarrow> (u32 \<times> byte list) list" where
  "recover_writes l C ds =
     map (\<lambda>t. (ds ! t, C (slot l t))) [0..<length ds] @ [(lg_start l, header [] (C (lg_start l)))]"

lemma log_wf_empty: "log_wf l ds \<Longrightarrow> log_wf (l\<lparr>lg_lh := (lg_lh l)\<lparr>lh_n := 0\<rparr>\<rparr>) []"
  by (auto simp: log_wf_def)

lemma start_not_in: "log_wf l ds \<Longrightarrow> lg_start l \<notin> set ds"
  using log_wfD(7,9) [of l ds] start_in [of l] by fastforce

lemma slot_map_facts:
  assumes "log_wf l ds" and "t < length ds"
  shows "writes (map (\<lambda>t. (slot l t, g t)) [0..<length ds]) D (slot l t) = g t"
    and "writes (map (\<lambda>t. (slot l t, g t)) [0..<length ds]) D (lg_start l) = D (lg_start l)"
    and "slot l t \<notin> set ds" and "slot l t \<noteq> lg_start l"
proof -
  have n: "length ds < 30" using log_wfD(5) [OF assms(1)] .
  have "distinct (map (slot l) [0..<length ds])" using n by (auto simp: distinct_map inj_on_def slot_eq)
  from writes_map [OF this, of t g] show "writes (map (\<lambda>t. (slot l t, g t)) [0..<length ds]) D (slot l t) = g t"
    using assms by simp
  show "slot l t \<noteq> lg_start l" using slot_start [of t l] assms n by simp
  have "lg_start l \<noteq> slot l u" if "u < length ds" for u using slot_start [of u l] n that by (metis order_less_trans)
  then show "writes (map (\<lambda>t. (slot l t, g t)) [0..<length ds]) D (lg_start l) = D (lg_start l)"
    by (intro writes_other) (force simp: image_image)
  show "slot l t \<notin> set ds"
    using slot_in [of t l] log_wfD(7,9) [OF assms(1)] assms(2) by force
qed

lemma commit_ok:
  assumes p: "pins s (set ds) {}" and w: "log_wf (lg s) ds" and ne: "ds \<noteq> []"
  shows "\<exists>s'. commit s = Inr s' \<and> pins s' {} {} \<and> lchg s s'
    \<and> lg s' = (lg s)\<lparr>lg_lh := (lg_lh (lg s))\<lparr>lh_n := 0\<rparr>\<rparr>
    \<and> wrote (commit_writes (lg s) (con s) ds) s s'"
proof -
  note W = log_wfD [OF w]
  let ?b = "lg_start (lg s)" and ?W1 = "map (\<lambda>t. (slot (lg s) t, con s (ds ! t))) [0..<length ds]"
  have n0: "0 < length ds" using ne by simp
  obtain s1 where 1: "write_log s = Inr s1" "pins s1 (set ds) {}" "chg s s1" "wrote ?W1 s s1"
    using write_log_loop [OF p w order_refl] W(2) by (auto simp: write_log_def)
  have l1: "lg s1 = lg s" using chg_lg [OF 1(3)] .
  have c1: "con s1 ?b = con s ?b" using 1(4) slot_map_facts(2) [OF w n0] by (simp add: wrote_def)
  let ?W2 = "[(?b, header ds (con s ?b))]"
  obtain s2 where 2: "write_head s1 = Inr s2" "pins s2 (set ds) {}" "chg s1 s2" "wrote ?W2 s1 s2"
    using write_head_ok [OF 1(2), of ds] w l1 W(6) c1 by auto
  have l2: "lg s2 = lg s" using chg_lg [OF 2(3)] l1 by simp
  have "con s2 (slot (lg s) t) = con s (ds ! t)" if "t < length ds" for t
    using 1(4) 2(4) slot_map_facts(1,4) [OF w that] by (simp add: wrote_def)
  then have W3: "map (\<lambda>t. (ds ! t, con s2 (slot (lg s) t))) [0..<length ds] = map (\<lambda>t. (ds ! t, con s (ds ! t))) [0..<length ds]"
    (is "_ = ?W3") by simp
  obtain s3 where 3: "install_trans False s2 = Inr s3" "pins s3 {} {}" "chg s2 s3" "wrote ?W3 s2 s3"
    using install_loop [of s2 "set ds" ds "length ds" False] 2(2) w l2 W(2) W3 by (auto simp: install_trans_def)
  have l3: "lg s3 = lg s" using chg_lg [OF 3(3)] l2 by simp
  have c3: "con s3 ?b = header ds (con s ?b)"
  proof -
    have "?b \<notin> fst ` set ?W3" using start_not_in [OF w] by (force simp: image_image)
    then have "con s3 ?b = con s2 ?b" using 3(4) by (simp add: wrote_def writes_other)
    then show ?thesis using 2(4) by (simp add: wrote_def)
  qed
  define s4 where "s4 = set_lh_n 0 s3"
  have s4: "s4 = s3\<lparr>lg := (lg s)\<lparr>lg_lh := (lg_lh (lg s))\<lparr>lh_n := 0\<rparr>\<rparr>\<rparr>" (is "_ = s3\<lparr>lg := ?l\<rparr>")
    by (simp add: s4_def set_lh_n_def l3)
  have w4: "log_wf (lg s4) []" using log_wf_empty [OF w] by (simp add: s4)
  obtain s5 where 5: "write_head s4 = Inr s5" "pins s5 {} {}" "chg s4 s5"
    "wrote [(?b, header [] (header ds (con s ?b)))] s3 s5"
    using write_head_ok [OF _ w4, of "{}"] 3(2) c3 by (auto simp: s4 NBUF_def)
  have "commit s = Inr s5"
    using 1(1) 2(1) 3(1) 5(1) W(2) ne by (simp add: commit_def s4_def)
  moreover have "wrote (commit_writes (lg s) (con s) ds) s s5"
    using wrote_trans [OF wrote_trans [OF wrote_trans [OF 1(4) 2(4)] 3(4)] 5(4)] by (simp add: commit_writes_def)
  moreover have "chg s s3" using chg_trans 1(3) 2(3) 3(3) by blast
  from lchgI [OF this] have "lchg s s5" using lchg_trans chg_lchg [OF 5(3)] unfolding s4 by blast
  moreover have "lg s5 = ?l" using chg_lg [OF 5(3)] s4 by simp
  ultimately show ?thesis using 5(2) by blast
qed

text \<open>What \<^verbatim>\<open>initlog\<close> finds at boot: a clean cache and a log on disk.\<close>

definition recoverable :: "log \<Rightarrow> (u32 \<Rightarrow> byte list) \<Rightarrow> u32 list \<Rightarrow> bool" where
  "recoverable l D ds \<longleftrightarrow> disk_log l D ds \<and> distinct ds \<and> int (length ds) < lg_size l \<and> lg_size l \<le> int LOGSIZE
     \<and> set ds \<inter> log_blocks l = {}"

lemma recover_ok:
  assumes p: "pins s {} {}" and d: "lg_dev (lg s) = ROOTDEV" and l: "length (lh_block (lg_lh (lg s))) = 30"
    and r: "recoverable (lg s) (dimg s) ds"
  shows "\<exists>s'. recover_from_log s = Inr s' \<and> pins s' {} {} \<and> lchg s s' \<and> log_wf (lg s') []
    \<and> lg_start (lg s') = lg_start (lg s) \<and> lg_size (lg s') = lg_size (lg s)
    \<and> lg_outstanding (lg s') = lg_outstanding (lg s) \<and> lg_committing (lg s') = lg_committing (lg s)
    \<and> wrote (recover_writes (lg s) (dimg s) ds) s s'"
proof -
  let ?b = "lg_start (lg s)"
  let ?l1 = "(lg s)\<lparr>lg_lh := \<lparr>lh_n = int (length ds), lh_block = ds @ drop (length ds) (lh_block (lg_lh (lg s)))\<rparr>\<rparr>"
  have n: "length ds \<le> 30" using r by (simp add: recoverable_def)
  obtain s1 where 1: "read_head s = Inr s1" "pins s1 {} {}" "wrote [] s s1" "chg (s\<lparr>lg := ?l1\<rparr>) s1"
    using read_head_ok [OF p d l _ n] r by (auto simp: recoverable_def)
  have l1: "lg s1 = ?l1" using chg_lg [OF 1(4)] by simp
  have w1: "log_wf (lg s1) ds" using r d l n unfolding l1
    by (auto simp: log_wf_def recoverable_def log_blocks_def)
  have c1: "con s1 = dimg s" using 1(3) pins_con [OF p] by (simp add: wrote_def fun_eq_iff)
  have sl: "slot (lg s1) = slot (lg s)" by (simp add: l1 slot_def fun_eq_iff)
  let ?W = "map (\<lambda>t. (ds ! t, dimg s (slot (lg s) t))) [0..<length ds]"
  obtain s2 where 2: "install_trans True s1 = Inr s2" "pins s2 {} {}" "chg s1 s2" "wrote ?W s1 s2"
    using install_loop [OF 1(2) w1 order_refl, of True] log_wfD(2) [OF w1] c1 sl by (auto simp: install_trans_def)
  have l2: "lg s2 = ?l1" using chg_lg [OF 2(3)] l1 by simp
  have st1: "lg_start (lg s1) = ?b" by (simp add: l1)
  have c2: "con s2 ?b = dimg s ?b"
  proof -
    have "?b \<notin> fst ` set ?W" using start_not_in [OF w1, unfolded st1] by (force simp: image_image)
    then show ?thesis using 2(4) c1 by (simp add: wrote_def writes_other)
  qed
  define s3 where "s3 = set_lh_n 0 s2"
  have s3: "s3 = s2\<lparr>lg := ?l1\<lparr>lg_lh := (lg_lh ?l1)\<lparr>lh_n := 0\<rparr>\<rparr>\<rparr>" (is "_ = s2\<lparr>lg := ?l3\<rparr>")
    by (simp add: s3_def set_lh_n_def l2)
  have w3: "log_wf (lg s3) []" using log_wf_empty [OF w1] unfolding l1 by (simp add: s3)
  obtain s4 where 4: "write_head s3 = Inr s4" "pins s4 {} {}" "chg s3 s4"
    "wrote [(?b, header [] (dimg s ?b))] s2 s4"
    using write_head_ok [OF _ w3, of "{}"] 2(2) c2 by (auto simp: s3 NBUF_def)
  have l4: "lg s4 = ?l3" using chg_lg [OF 4(3)] s3 by simp
  have "recover_from_log s = Inr s4" using 1(1) 2(1) 4(1) by (simp add: recover_from_log_def s3_def)
  moreover have "wrote (recover_writes (lg s) (dimg s) ds) s s4"
    using wrote_trans [OF wrote_trans [OF 1(3) 2(4)] 4(4)] by (simp add: recover_writes_def)
  moreover have "lchg s s1" using lchg_trans [OF lchg_lg chg_lchg [OF 1(4)]] .
  then have "lchg s s4"
    using lchg_trans chg_lchg [OF 4(3)] lchgI [OF 2(3), of ?l3] unfolding s3 by blast
  moreover have "log_wf (lg s4) []" using w3 chg_lg [OF 4(3)] by simp
  ultimately show ?thesis using 4(2) l4 by auto
qed


text \<open>The home blocks after recovery from an image.\<close>

lemma recovered_home:
  assumes "recoverable l D ds" and "b \<notin> log_blocks l"
  shows "b \<notin> set ds \<Longrightarrow> writes (recover_writes l D ds) D b = D b"
    and "t < length ds \<Longrightarrow> b = ds ! t \<Longrightarrow> writes (recover_writes l D ds) D b = D (slot l t)"
proof -
  let ?W = "map (\<lambda>t. (ds ! t, D (slot l t))) [0..<length ds]"
  have "b \<noteq> lg_start l" using assms start_in [of l] by (auto simp: recoverable_def)
  then have e: "writes (recover_writes l D ds) D b = writes ?W D b" by (simp add: recover_writes_def)
  show "writes (recover_writes l D ds) D b = D b" if "b \<notin> set ds"
    using that unfolding e by (intro writes_other) (auto simp: image_image)
  have "distinct (map ((!) ds) [0..<length ds])" using assms(1) by (simp add: recoverable_def map_nth)
  from writes_map [OF this, of t "\<lambda>t. D (slot l t)" D]
  show "writes (recover_writes l D ds) D b = D (slot l t)" if "t < length ds" "b = ds ! t"
    using that unfolding e by simp
qed

lemma map_fst_nth: "map fst (map (\<lambda>t. (ds ! t, g t)) [0..<length ds]) = ds"
  by (simp add: comp_def map_nth)

text \<open>
  The state of the disk after a prefix of the writes of \<^verbatim>\<open>commit\<close>: no transaction is on
  disk until the header is written, the whole one is until the header is erased.
\<close>

definition disk_txn :: "nat \<Rightarrow> u32 list \<Rightarrow> u32 list" where
  "disk_txn k ds = (if k \<le> length ds \<or> Suc (length ds + length ds) < k then [] else ds)"

lemma commit_prefix:
  assumes w: "log_wf l ds" and e: "disk_log l D []" and len: "\<forall>b. length (C b) = BSIZE"
    and clean: "\<forall>b. b \<notin> set ds \<longrightarrow> C b = D b" and k: "k \<le> length (commit_writes l C ds)" and b: "b \<notin> log_blocks l"
  defines "D' \<equiv> writes (take k (commit_writes l C ds)) D"
  shows "recoverable l D' (disk_txn k ds)
    \<and> writes (recover_writes l D' (disk_txn k ds)) D' b = (if k \<le> length ds then D b else C b)"
proof -
  note W = log_wfD [OF w]
  let ?n = "length ds" and ?st = "lg_start l"
  let ?W1 = "map (\<lambda>t. (slot l t, C (ds ! t))) [0..<?n]" and ?W3 = "map (\<lambda>t. (ds ! t, C (ds ! t))) [0..<?n]"
  have hdr: "length (header xs (C ?st)) = 1024" if "length xs \<le> 30" for xs
    using that len by (simp add: header_def)
  have rec: "recoverable l E xs \<longleftrightarrow> disk_log l E xs" if "xs = [] \<or> xs = ds" for E xs
    using that w by (auto simp: recoverable_def log_wf_def)
  have bst: "b \<noteq> ?st" "b \<notin> slot l ` {..<?n}"
    using b start_in [of l] slot_in [of _ l] W(7) by force+
  have w1b: "writes ?W1 D b = D b" using bst(2) by (intro writes_other) (auto simp: image_image)
  have other: "writes ws E c = E c" if "set ws \<subseteq> set ws'" "c \<notin> fst ` set ws'" for ws ws' :: "(u32 \<times> byte list) list" and E c
    using that by (intro writes_other) auto
  consider (before) "k \<le> ?n" | (during) j where "k = Suc (?n + j)" "j \<le> ?n" | (after) "k = Suc (Suc (?n + ?n))"
  proof -
    have "k \<le> Suc (Suc (?n + ?n))" using k by (simp add: commit_writes_def)
    then have "k \<le> ?n \<or> k = Suc (?n + (k - Suc ?n)) \<and> k - Suc ?n \<le> ?n \<or> k = Suc (Suc (?n + ?n))" by linarith
    then show ?thesis using that by blast
  qed
  then show ?thesis
  proof cases
    case before
    then have D': "D' = writes (take k ?W1) D" by (simp add: D'_def commit_writes_def)
    have sub: "set (take k ?W1) \<subseteq> set ?W1" by (rule set_take_subset)
    have "?st \<noteq> slot l t" if "t < ?n" for t using slot_start [of t l] W(5) that by force
    then have "?st \<notin> fst ` set ?W1" by (force simp: image_image)
    then have "D' ?st = D ?st" unfolding D' by (rule other [OF sub])
    then have "recoverable l D' []" using e rec by (simp add: disk_log_def)
    moreover have "D' b = D b" unfolding D' using bst(2) by (intro other [OF sub]) (auto simp: image_image)
    ultimately show ?thesis using recovered_home(1) [OF _ b, of D' "[]"] before by (auto simp: disk_txn_def)
  next
    case during
    define E where "E = (writes ?W1 D)(?st := header ds (C ?st))"
    have D': "D' = writes (take j ?W3) E" using during by (simp add: D'_def commit_writes_def E_def)
    have sub: "set (take j ?W3) \<subseteq> set ?W3" by (rule set_take_subset)
    have f3: "fst ` set ?W3 = set ds" using arg_cong [OF map_fst_nth, of set] by (simp only: set_map)
    have out: "D' c = E c" if "c \<notin> set ds" for c unfolding D' using that f3 by (intro other [OF sub]) simp
    have "D' ?st = header ds (C ?st)" using out [OF start_not_in [OF w]] by (simp add: E_def)
    then have r: "recoverable l D' ds"
      using rec [of ds D'] get_logheader_header [of "C ?st" ds] len W(5) by (simp add: disk_log_def)
    have "writes (recover_writes l D' ds) D' b = C b"
    proof (cases "b \<in> set ds")
      case True
      then obtain t where t: "t < ?n" "b = ds ! t" by (auto simp: in_set_conv_nth)
      have "D' (slot l t) = C b"
        using out [OF slot_map_facts(3) [OF w t(1)]] slot_map_facts(1,4) [OF w t(1)] t by (simp add: E_def)
      then show ?thesis using recovered_home(2) [OF r b t] by simp
    next
      case False
      have "E b = D b" using bst(1) w1b by (simp add: E_def)
      then show ?thesis using recovered_home(1) [OF r b False] out [OF False] clean False by simp
    qed
    then show ?thesis using r during by (auto simp: disk_txn_def)
  next
    case after
    define E where "E = (writes ?W1 D)(?st := header ds (C ?st))"
    have D': "D' = (writes ?W3 E)(?st := header [] (header ds (C ?st)))"
      using after by (simp add: D'_def commit_writes_def E_def)
    have r: "recoverable l D' []"
      using rec [of "[]" D'] get_logheader_header [of "header ds (C ?st)" "[]"] hdr [of ds] W(5)
      by (simp add: disk_log_def D')
    have "D' b = C b"
    proof (cases "b \<in> set ds")
      case True
      then obtain t where t: "t < ?n" "b = ds ! t" by (auto simp: in_set_conv_nth)
      have "distinct (map ((!) ds) [0..<?n])" using W(4) by (simp add: map_nth)
      from writes_map [OF this, of t] show ?thesis using t bst by (simp add: D')
    next
      case False
      then have "writes ?W3 E b = E b" by (intro writes_other) (auto simp: image_image)
      moreover have "E b = D b" using bst(1) w1b by (simp add: E_def)
      ultimately show ?thesis using clean False bst by (simp add: D')
    qed
    then show ?thesis using recovered_home(1) [OF r b] r after by (auto simp: disk_txn_def)
  qed
qed


section \<open>Transactions\<close>

text \<open>
  The state inside a transaction: the blocks \<open>ds\<close> are logged and pinned, the blocks \<open>L\<close> are
  locked, and no committed transaction waits on disk.
\<close>

definition txs :: "'a logst_scheme \<Rightarrow> u32 list \<Rightarrow> u32 set \<Rightarrow> bool" where
  "txs s ds L \<longleftrightarrow> pins s (set ds) L \<and> log_wf (lg s) ds \<and> 1 \<le> lg_outstanding (lg s)
     \<and> \<not> lg_committing (lg s) \<and> disk_log (lg s) (dimg s) []"

text \<open>Nothing but the buffers and the log header in memory changed.\<close>

definition tchg :: "'a logst_scheme \<Rightarrow> 'a logst_scheme \<Rightarrow> bool" where
  "tchg s s' \<longleftrightarrow> (\<exists>P B h. wakes (procs s) P \<and> s' = s\<lparr>procs := P, bufs := B, lg := (lg s)\<lparr>lg_lh := h\<rparr>\<rparr>)"

lemma tchgI: "bchg s t \<Longrightarrow> tchg s (t\<lparr>lg := (lg s)\<lparr>lg_lh := h\<rparr>\<rparr>)"
  unfolding tchg_def bchg_def by auto

lemma bchg_tchg: "bchg s s' \<Longrightarrow> tchg s s'"
proof -
  assume b: "bchg s s'"
  have "s'\<lparr>lg := lg s\<rparr> = s'" unfolding bchg_lg [OF b, symmetric] by simp
  with tchgI [OF b, of "lg_lh (lg s)"] show ?thesis by simp
qed

lemma tchg_refl [simp]: "tchg s s"
  by (rule bchg_tchg) simp

lemma tchg_trans: "tchg s t \<Longrightarrow> tchg t u \<Longrightarrow> tchg s u"
proof -
  assume "tchg s t" "tchg t u"
  then obtain P B h P' B' h' where
    "wakes (procs s) P" "t = s\<lparr>procs := P, bufs := B, lg := (lg s)\<lparr>lg_lh := h\<rparr>\<rparr>"
    "wakes (procs t) P'" "u = t\<lparr>procs := P', bufs := B', lg := (lg t)\<lparr>lg_lh := h'\<rparr>\<rparr>"
    unfolding tchg_def by blast
  then have "wakes (procs s) P'" "u = s\<lparr>procs := P', bufs := B', lg := (lg s)\<lparr>lg_lh := h'\<rparr>\<rparr>"
    using wakes_trans by auto
  then show ?thesis unfolding tchg_def by blast
qed

lemma tchgD:
  assumes "tchg s s'"
  shows "dimg s' = dimg s" and "dhist s' = dhist s"
    and "lg_size (lg s') = lg_size (lg s)" and "lg_start (lg s') = lg_start (lg s)"
    and "log_blocks (lg s') = log_blocks (lg s)" and "lg_outstanding (lg s') = lg_outstanding (lg s)"
    and "wakes (procs s) (procs s')"
  using assms by (auto simp: tchg_def log_blocks_def)

lemma txs_bread:
  assumes t: "txs s ds L" and b: "b \<notin> L" and c: "b \<in> set ds \<or> length ds + card L < 30"
  shows "\<exists>i s'. bread ROOTDEV b s = Inr (i, s') \<and> txs s' ds (insert b L) \<and> bchg s s'
    \<and> con s' = con s \<and> handle s' i b \<and> bdata (bufs s' i) = con s b
    \<and> (\<forall>j c. handle s j c \<longrightarrow> handle s' j c)"
proof -
  have p: "pins s (set ds) L" using t by (simp add: txs_def)
  have "card (set ds \<union> L) \<le> length ds + card L"
    using card_Un_le [of "set ds" L] card_length [of ds] by linarith
  then have "b \<in> set ds \<or> card (set ds \<union> L) < NBUF" using c by (auto simp: NBUF_def)
  from pins_bread [OF p b this] show ?thesis
    using t by (auto simp: txs_def bchg_lg bchgD)
qed

lemma txs_set_data:
  assumes t: "txs s ds L" and h: "handle s i b" and d: "length d = BSIZE"
  shows "txs (set_data i d s) ds L" and "con (set_data i d s) = (con s)(b := d)"
    and "handle (set_data i d s) = handle s" and "bchg s (set_data i d s)"
    and "bdata (bufs (set_data i d s) i) = d"
proof -
  have p: "pins s (set ds) L" using t by (simp add: txs_def)
  note q = pins_set_data [OF p h d]
  show "txs (set_data i d s) ds L" "con (set_data i d s) = (con s)(b := d)"
    "handle (set_data i d s) = handle s" "bchg s (set_data i d s)" "bdata (bufs (set_data i d s) i) = d"
    using q t by (simp_all add: txs_def bchg_lg [OF q(4)] bchgD [OF q(4)])
qed

lemma txs_brelse:
  assumes t: "txs s ds L" and h: "handle s i b" and c: "b \<in> set ds \<or> con s b = dimg s b"
  shows "\<exists>s'. brelse i s = Inr s' \<and> txs s' ds (L - {b}) \<and> bchg s s' \<and> con s' = con s
    \<and> (\<forall>j c. c \<noteq> b \<longrightarrow> handle s' j c = handle s j c)"
proof -
  have p: "pins s (set ds) L" using t by (simp add: txs_def)
  from pins_brelse [OF p h c] show ?thesis using t by (auto simp: txs_def bchg_lg bchgD)
qed

lemma log_find_in: "b \<in> set xs \<Longrightarrow> log_find b xs < length xs \<and> xs ! log_find b xs = b"
  by (induction xs) auto

lemma log_find_notin: "b \<notin> set xs \<Longrightarrow> log_find b xs = length xs"
  by (induction xs) auto

definition logged :: "u32 \<Rightarrow> u32 list \<Rightarrow> u32 list" where
  "logged b ds = (if b \<in> set ds then ds else ds @ [b])"

lemma txs_log_write:
  assumes t: "txs s ds L" and h: "handle s i b" and b: "b \<notin> log_blocks (lg s)"
    and n: "int (length ds) < lg_size (lg s) - 1"
  shows "\<exists>s'. log_write i s = Inr s' \<and> txs s' (logged b ds) L \<and> tchg s s'
    \<and> con s' = con s \<and> handle s' = handle s \<and> (\<forall>j. bdata (bufs s' j) = bdata (bufs s j))"
proof -
  have p: "pins s (set ds) L" and w: "log_wf (lg s) ds" using t by (simp_all add: txs_def)
  note W = log_wfD [OF w]
  have bn: "blockno (bufs s i) = b" using h by (simp add: handle_def holds_def)
  have tk: "take (length ds) (lh_block (lg_lh (lg s))) = ds" using w by (simp add: log_wf_def)
  let ?bl = "lh_block (lg_lh (lg s))"
  have lw: "log_write i s = rbind (set_lh_block (log_find b ds) b s) (\<lambda>s'.
      if log_find b ds = length ds then Inr (set_lh_n (int (length ds) + 1) (bpin i s')) else Inr s')"
    using t n W(2,5) tk bn by (simp add: log_write_def txs_def Let_def)
  show ?thesis
  proof (cases "b \<in> set ds")
    case True
    note f = log_find_in [OF True]
    have "?bl[log_find b ds := b] = ?bl"
      using f tk nth_take [of "log_find b ds" "length ds" ?bl] by (metis list_update_id)
    then have "set_lh_block (log_find b ds) b s = Inr s"
      using f W(3,5) by (simp add: set_lh_block_def)
    then show ?thesis using True lw f t by (auto simp: logged_def)
  next
    case False
    note f = log_find_notin [OF False]
    note q = pins_bpin [OF p h False]
    let ?h = "\<lparr>lh_n = int (length ds) + 1, lh_block = ?bl[length ds := b]\<rparr>"
    have l: "lg (bpin i s) = lg s" using bchg_lg [OF q(4)] .
    have e: "log_write i s = Inr ((bpin i s)\<lparr>lg := (lg s)\<lparr>lg_lh := ?h\<rparr>\<rparr>)"
      using lw f W(3,5) l by (simp add: set_lh_block_def set_lh_n_def bpin_def upd_buf_def)
    have "take (Suc (length ds)) (?bl[length ds := b]) = ds @ [b]"
      using tk W(3,5) by (simp add: take_Suc_conv_app_nth)
    then have "log_wf ((lg s)\<lparr>lg_lh := ?h\<rparr>) (ds @ [b])"
      using w n b False by (auto simp: log_wf_def log_blocks_def)
    then have "txs ((bpin i s)\<lparr>lg := (lg s)\<lparr>lg_lh := ?h\<rparr>\<rparr>) (logged b ds) L"
      using t q(1) False bchgD(1) [OF q(4)] by (simp add: txs_def logged_def disk_log_def)
    moreover have "bdata (bufs (bpin i s) j) = bdata (bufs s j)" for j by (simp add: bpin_def upd_buf_def)
    ultimately show ?thesis using e q tchgI [OF q(4)] by auto
  qed
qed

lemma begin_op_ok:
  assumes p: "pins s (set ds) {}" and w: "log_wf (lg s) ds" and d: "disk_log (lg s) (dimg s) []"
    and o: "0 \<le> lg_outstanding (lg s)" and c: "\<not> lg_committing (lg s)"
    and r: "int (length ds) + (lg_outstanding (lg s) + 1) * 10 \<le> 30"
  shows "begin_op s = Inr (s\<lparr>lg := (lg s)\<lparr>lg_outstanding := lg_outstanding (lg s) + 1\<rparr>\<rparr>)"
    and "txs (s\<lparr>lg := (lg s)\<lparr>lg_outstanding := lg_outstanding (lg s) + 1\<rparr>\<rparr>) ds {}"
proof -
  show "begin_op s = Inr (s\<lparr>lg := (lg s)\<lparr>lg_outstanding := lg_outstanding (lg s) + 1\<rparr>\<rparr>)"
    using c r log_wfD(2) [OF w] by (simp add: begin_op_def)
  have "log_wf ((lg s)\<lparr>lg_outstanding := lg_outstanding (lg s) + 1\<rparr>) ds"
    using w by (simp add: log_wf_def log_blocks_def)
  then show "txs (s\<lparr>lg := (lg s)\<lparr>lg_outstanding := lg_outstanding (lg s) + 1\<rparr>\<rparr>) ds {}"
    using p d o c by (simp add: txs_def disk_log_def)
qed

lemma end_op_ok:
  assumes t: "txs s ds {}" and o: "lg_outstanding (lg s) = 1"
  shows "\<exists>s'. end_op s = Inr s' \<and> pins s' {} {} \<and> lchg s s' \<and> log_wf (lg s') []
    \<and> disk_log (lg s') (dimg s') [] \<and> lg_outstanding (lg s') = 0 \<and> \<not> lg_committing (lg s')
    \<and> lg_start (lg s') = lg_start (lg s) \<and> lg_size (lg s') = lg_size (lg s)
    \<and> (\<forall>b. b \<notin> log_blocks (lg s) \<longrightarrow> dimg s' b = con s b \<and> con s' b = con s b)"
proof (cases "ds = []")
  case True
  let ?s = "s\<lparr>lg := (lg s)\<lparr>lg_outstanding := 0, lg_committing := False\<rparr>\<rparr>"
  have p: "pins s {} {}" and w: "log_wf (lg s) []" using t True by (auto simp: txs_def)
  have n: "lh_n (lg_lh (lg s)) = 0" using log_wfD(2) [OF w] by simp
  have "end_op s = Inr (wakeup ChLog ?s)" using t o n by (simp add: end_op_def commit_def txs_def)
  moreover have "log_wf (lg ?s) []" using w by (simp add: log_wf_def log_blocks_def)
  moreover have "disk_log (lg ?s) (dimg ?s) []" using t True by (simp add: txs_def disk_log_def)
  ultimately show ?thesis using p lchg_wakeup [OF lchg_lg] pins_con [OF p] by auto
next
  case False
  let ?l = "(lg s)\<lparr>lg_outstanding := 0, lg_committing := True\<rparr>"
  let ?s = "s\<lparr>lg := ?l\<rparr>"
  have p: "pins ?s (set ds) {}" and w: "log_wf (lg ?s) ds"
    using t by (simp_all add: txs_def log_wf_def log_blocks_def)
  have sl: "slot ?l = slot (lg s)" by (simp add: slot_def fun_eq_iff)
  obtain s1 where 1: "commit ?s = Inr s1" "pins s1 {} {}" "lchg ?s s1"
    "lg s1 = ?l\<lparr>lg_lh := (lg_lh (lg s))\<lparr>lh_n := 0\<rparr>\<rparr>" "wrote (commit_writes ?l (con s) ds) s s1"
    using commit_ok [OF p w False] by auto
  let ?s2 = "s1\<lparr>lg := (lg s1)\<lparr>lg_committing := False\<rparr>\<rparr>"
  have e: "end_op s = Inr (wakeup ChLog ?s2)" using t o 1(1) by (simp add: end_op_def txs_def)
  have "log_wf (lg s1) []" using log_wf_empty [OF w] 1(4) by simp
  then have w2: "log_wf (lg ?s2) []" by (simp add: log_wf_def log_blocks_def)
  have W: "commit_writes ?l (con s) ds = take (length (commit_writes ?l (con s) ds)) (commit_writes ?l (con s) ds)" by simp
  have bi: "bio_inv s" using p by (simp add: pins_def)
  have lens: "\<forall>b. length (con s b) = BSIZE" using length_con [OF bi] by blast
  have cl: "\<forall>b. b \<notin> set ds \<longrightarrow> con s b = dimg s b" using pins_con [OF p] by simp
  have d0: "disk_log ?l (dimg s) []" using t by (simp add: txs_def disk_log_def)
  have wl: "log_wf ?l ds" using w by simp
  have img: "dimg s1 = writes (commit_writes ?l (con s) ds) (dimg s)" using 1(5) by (simp add: wrote_def)
  have hd: "dimg s1 (lg_start (lg s)) = header [] (header ds (con s (lg_start (lg s))))"
    unfolding img by (simp add: commit_writes_def)
  have "length (header ds (con s (lg_start (lg s)))) = 1024" using lens log_wfD(5) [OF wl] by (simp add: header_def)
  then have d2: "disk_log (lg ?s2) (dimg ?s2) []"
    using get_logheader_header [of "header ds (con s (lg_start (lg s)))" "[]"] hd 1(4) by (simp add: disk_log_def)
  have home: "dimg s1 b = con s b" if b: "b \<notin> log_blocks (lg s)" for b
  proof -
    have b': "b \<notin> log_blocks ?l" using b by (simp add: log_blocks_def)
    from commit_prefix [OF wl d0 lens cl order_refl b']
    have r: "recoverable ?l (dimg s1) []" "writes (recover_writes ?l (dimg s1) []) (dimg s1) b = con s b"
      unfolding img by (simp_all add: commit_writes_def disk_txn_def)
    then show ?thesis using recovered_home(1) [OF r(1) b'] by simp
  qed
  have "lchg s ?s2" using lchg_trans [OF lchg_lg [of s ?l] lchg_trans [OF 1(3) lchg_lg]] .
  from lchg_wakeup [OF this, of ChLog] show ?thesis using e w2 d2 1(2,4) home pins_con [OF 1(2)] by auto
qed


section \<open>Crashes\<close>

text \<open>The machine after power-on with a disk image: zeroed static data.\<close>

definition zero_buf :: buf where
  "zero_buf = \<lparr>bvalid = False, bdisk = False, bdev = 0, blockno = 0, block = \<lparr>slocked = False, slpid = 0\<rparr>,
     refcnt = 0, bprev = 0, bnext = 0, bdata = replicate BSIZE 0\<rparr>"

definition power_on :: "(u32 \<Rightarrow> byte list) \<Rightarrow> logst" where
  "power_on D = \<lparr>phy = \<lparr>pmem = \<lambda>_. 0, freelist = 0, kend = 0x80030000\<rparr>,
     procs = (\<lambda>_. zero_proc)(0 := zero_proc\<lparr>pid := 1, pstate := RUNNING\<rparr>), cur = 0, nextpid = 2,
     initproc = 0, ticks = 0, trampoline = 0x80007000, kout = [],
     bufs = \<lambda>_. zero_buf, dimg = D, dhist = [],
     lg = \<lparr>lg_start = 0, lg_size = 0, lg_outstanding = 0, lg_committing = False, lg_dev = 0,
       lg_lh = \<lparr>lh_n = 0, lh_block = replicate LOGSIZE 0\<rparr>\<rparr>\<rparr>"

definition boot :: "superblock \<Rightarrow> (u32 \<Rightarrow> byte list) \<Rightarrow> logst res" where
  "boot sb D = initlog ROOTDEV sb (binit (power_on D))"

lemma power_on_inv:
  assumes "\<forall>b. length (D b) = BSIZE"
  shows "pins (binit (power_on D)) {} {}" and "dimg (binit (power_on D)) = D" and "dhist (binit (power_on D)) = []"
    and "lg (binit (power_on D)) = lg (power_on D)"
proof -
  have z: "\<forall>i<NBUF. bdev (bufs (power_on D) i) = 0 \<and> refcnt (bufs (power_on D) i) = 0
      \<and> \<not> slocked (block (bufs (power_on D) i))" by (simp add: power_on_def zero_buf_def)
  have d: "\<forall>b. length (dimg (power_on D) b) = BSIZE" using assms by (simp add: power_on_def)
  note b = binit_inv [OF z d]
  have c: "bchg (power_on D) (binit (power_on D))" using b(5) by (rule bchgI)
  show "pins (binit (power_on D)) {} {}" using b by (simp add: pins_def)
  show "dimg (binit (power_on D)) = D" "dhist (binit (power_on D)) = []"
    using bchgD [OF c] by (simp_all add: power_on_def)
  show "lg (binit (power_on D)) = lg (power_on D)" using bchg_lg [OF c] .
qed

lemma boot_ok:
  assumes len: "\<forall>b. length (D b) = BSIZE" and r: "recoverable l D ds"
    and sb: "lg_start l = logstart sb" "lg_size l = sint (nlog sb)"
  shows "\<exists>s. boot sb D = Inr s \<and> pins s {} {} \<and> log_wf (lg s) [] \<and> lg_start (lg s) = logstart sb
    \<and> lg_size (lg s) = sint (nlog sb) \<and> lg_outstanding (lg s) = 0 \<and> \<not> lg_committing (lg s)
    \<and> dimg s = writes (recover_writes l D ds) D \<and> dhist s = rev (recover_writes l D ds)"
proof -
  note P = power_on_inv [OF len]
  let ?s = "binit (power_on D)"
  define s0 where "s0 = ?s\<lparr>lg := (lg ?s)\<lparr>lg_start := logstart sb, lg_size := sint (nlog sb), lg_dev := ROOTDEV\<rparr>\<rparr>"
  have eq: "log_blocks (lg s0) = log_blocks l" "disk_log (lg s0) = disk_log l" "slot (lg s0) = slot l"
    by (simp_all add: s0_def log_blocks_def disk_log_def slot_def sb fun_eq_iff)
  have D0: "dimg s0 = D" "lg_size (lg s0) = lg_size l" "lg_start (lg s0) = lg_start l" using sb by (simp_all add: s0_def P)
  then have "recoverable (lg s0) (dimg s0) ds" using r by (simp add: recoverable_def eq)
  moreover have "pins s0 {} {}" using P by (simp add: s0_def)
  moreover have "length (lh_block (lg_lh (lg s0))) = 30" unfolding s0_def by (simp add: P(4)) (simp add: power_on_def)
  ultimately obtain s where s: "recover_from_log s0 = Inr s" "pins s {} {}" "log_wf (lg s) []"
    "lg_start (lg s) = lg_start (lg s0)" "lg_size (lg s) = lg_size (lg s0)"
    "lg_outstanding (lg s) = lg_outstanding (lg s0)" "lg_committing (lg s) = lg_committing (lg s0)"
    "wrote (recover_writes (lg s0) (dimg s0) ds) s0 s"
    using recover_ok [of s0 ds] by (auto simp: s0_def)
  have rw: "recover_writes (lg s0) (dimg s0) ds = recover_writes l D ds"
    by (simp add: recover_writes_def eq D0)
  have "boot sb D = Inr s" using s(1) by (simp add: boot_def initlog_def s0_def)
  moreover have "lg_outstanding (lg s0) = 0" "\<not> lg_committing (lg s0)" "lg_start (lg s0) = logstart sb"
    "lg_size (lg s0) = sint (nlog sb)" unfolding s0_def by (simp_all add: P(4)) (simp_all add: power_on_def)
  ultimately show ?thesis using s P unfolding rw by (auto simp: wrote_def s0_def)
qed

lemma len_writes:
  "\<forall>b. length (D b) = n \<Longrightarrow> \<forall>w\<in>set ws. length (snd w) = n \<Longrightarrow> \<forall>b. length (writes ws D b) = n"
  by (induction ws arbitrary: D) auto

lemma len_take_commit:
  assumes "log_wf l ds" and "\<forall>b. length (C b) = BSIZE" and "\<forall>b. length (D b) = BSIZE"
  shows "\<forall>b. length (writes (take k (commit_writes l C ds)) D b) = BSIZE"
proof (rule len_writes [OF assms(3)])
  have "\<forall>w\<in>set (commit_writes l C ds). length (snd w) = BSIZE"
    using assms(2) log_wfD(5) [OF assms(1)] by (auto simp: commit_writes_def header_def)
  then show "\<forall>w\<in>set (take k (commit_writes l C ds)). length (snd w) = BSIZE" by (meson in_set_takeD)
qed

lemma len_take_recover:
  assumes "\<forall>b. length (D b) = BSIZE"
  shows "\<forall>b. length (writes (take k (recover_writes l D ds)) D b) = BSIZE"
proof (rule len_writes [OF assms])
  have "\<forall>w\<in>set (recover_writes l D ds). length (snd w) = BSIZE"
    using assms by (auto simp: recover_writes_def header_def)
  then show "\<forall>w\<in>set (take k (recover_writes l D ds)). length (snd w) = BSIZE" by (meson in_set_takeD)
qed

text \<open>A prefix of the writes of a recovery leaves the log, or an empty log and all of them done.\<close>

lemma recover_prefix:
  assumes len: "\<forall>b. length (D b) = BSIZE" and r: "recoverable l D ds" and k: "k \<le> length (recover_writes l D ds)"
  defines "D' \<equiv> writes (take k (recover_writes l D ds)) D"
  shows "\<exists>ds'. recoverable l D' ds' \<and> (\<forall>b. b \<notin> log_blocks l \<longrightarrow>
    writes (recover_writes l D' ds') D' b = writes (recover_writes l D ds) D b)"
proof -
  let ?n = "length ds" and ?W = "map (\<lambda>t. (ds ! t, D (slot l t))) [0..<length ds]"
  have st: "lg_start l \<notin> set ds" using r start_in [of l] by (auto simp: recoverable_def)
  have sl: "slot l t \<notin> set ds" if "t < ?n" for t
    using r slot_in [of t l] that by (force simp: recoverable_def)
  show ?thesis
  proof (cases "k \<le> ?n")
    case True
    then have D': "D' = writes (take k ?W) D" by (simp add: D'_def recover_writes_def)
    have "set (map fst (take k ?W)) \<subseteq> set ds"
      unfolding take_map [symmetric] map_fst_nth by (rule set_take_subset)
    then have out: "D' c = D c" if "c \<notin> set ds" for c
      unfolding D' using that by (intro writes_other) auto
    have "recoverable l D' ds" using r out [OF st] by (simp add: recoverable_def disk_log_def)
    moreover have "writes (recover_writes l D' ds) D' b = writes (recover_writes l D ds) D b"
      if b: "b \<notin> log_blocks l" for b
    proof (cases "b \<in> set ds")
      case True
      then obtain t where "t < ?n" "b = ds ! t" by (auto simp: in_set_conv_nth)
      then show ?thesis
        using recovered_home(2) [OF r b] recovered_home(2) [OF \<open>recoverable l D' ds\<close> b] out [OF sl] by metis
    next
      case False
      then show ?thesis
        using recovered_home(1) [OF r b] recovered_home(1) [OF \<open>recoverable l D' ds\<close> b] out by simp
    qed
    ultimately show ?thesis by blast
  next
    case False
    then have D': "D' = writes (recover_writes l D ds) D" using k by (simp add: D'_def recover_writes_def)
    then have "D' (lg_start l) = header [] (D (lg_start l))" by (simp add: recover_writes_def)
    then have "recoverable l D' []"
      using r get_logheader_header [of "D (lg_start l)" "[]"] len by (auto simp: recoverable_def disk_log_def)
    then show ?thesis using recovered_home(1) [of l D' "[]"] D' by auto
  qed
qed

lemma outside_log:
  assumes "log_wf l ds"
  shows "lg_start l + 30 \<notin> log_blocks l"
proof
  assume "lg_start l + 30 \<in> log_blocks l"
  then obtain i where "i < nat (lg_size l)" "(of_nat i :: u32) = 30" by (auto simp: log_blocks_def)
  moreover from this have "i < 30" using assms unfolding log_wf_def by simp linarith
  moreover have "unat (of_nat i :: u32) = i" by (rule unat_of_nat_id) (use \<open>i < 30\<close> in simp)
  ultimately show False by simp
qed

lemma commit_atomic:
  assumes "pins s (set ds) {}" and "log_wf (lg s) ds" and "disk_log (lg s) (dimg s) []"
    and "logstart sb = lg_start (lg s)" and "sint (nlog sb) = lg_size (lg s)"
  shows "\<exists>s' W. commit s = Inr s' \<and> dhist s' = rev W @ dhist s \<and> dimg s' = writes W (dimg s) \<and> (ds \<noteq> [] \<longrightarrow> length ds < length W)
    \<and> (\<forall>k\<le>length W. \<exists>s''. boot sb (writes (take k W) (dimg s)) = Inr s''
        \<and> (\<forall>b. b \<notin> log_blocks (lg s) \<longrightarrow> dimg s'' b = (if k \<le> length ds then dimg s b else con s b)))"
proof -
  have bi: "bio_inv s" using assms(1) by (simp add: pins_def)
  have lens: "\<forall>b. length (con s b) = BSIZE" "\<forall>b. length (dimg s b) = BSIZE"
    using length_con [OF bi] bi by (auto simp: bio_inv_def)
  have cl: "\<forall>b. b \<notin> set ds \<longrightarrow> con s b = dimg s b" using pins_con [OF assms(1)] by simp
  define W where "W = (if ds = [] then [] else commit_writes (lg s) (con s) ds)"
  have "\<exists>s'. commit s = Inr s' \<and> wrote W s s'"
    using commit_ok [OF assms(1,2)] log_wfD(2) [OF assms(2)] by (auto simp: W_def commit_def)
  then obtain s' where s': "commit s = Inr s'" "wrote W s s'" by blast
  have "\<exists>s''. boot sb (writes (take k W) (dimg s)) = Inr s''
      \<and> (\<forall>b. b \<notin> log_blocks (lg s) \<longrightarrow> dimg s'' b = (if k \<le> length ds then dimg s b else con s b))"
    if k: "k \<le> length W" for k
  proof -
    let ?D = "writes (take k W) (dimg s)"
    define ds' where "ds' = (if ds = [] then [] else disk_txn k ds)"
    have rec: "recoverable (lg s) ?D ds'
        \<and> writes (recover_writes (lg s) ?D ds') ?D b = (if k \<le> length ds then dimg s b else con s b)"
      if b: "b \<notin> log_blocks (lg s)" for b
    proof (cases "ds = []")
      case True
      then have "recoverable (lg s) (dimg s) []"
        using assms(2,3) by (auto simp: recoverable_def log_wf_def)
      then show ?thesis using recovered_home(1) [OF _ b] True k by (auto simp: W_def ds'_def)
    next
      case False
      then show ?thesis using commit_prefix [OF assms(2,3) lens(1) cl _ b, of k] k by (simp add: W_def ds'_def)
    qed
    have len: "\<forall>b. length (?D b) = BSIZE"
      using len_take_commit [OF assms(2) lens] lens by (simp add: W_def)
    have "recoverable (lg s) ?D ds'" using rec [OF outside_log [OF assms(2)]] by blast
    then show ?thesis using boot_ok [OF len, of "lg s" ds' sb] assms(4,5) rec by auto
  qed
  moreover have "ds \<noteq> [] \<longrightarrow> length ds < length W" by (simp add: W_def commit_writes_def)
  ultimately show ?thesis using s' by (auto simp: wrote_def)
qed


text \<open>The same for the \<^verbatim>\<open>end_op\<close> of the last system call in progress.\<close>

lemma end_op_atomic:
  assumes t: "txs s ds {}" and o: "lg_outstanding (lg s) = 1"
    and sb: "logstart sb = lg_start (lg s)" "sint (nlog sb) = lg_size (lg s)"
  shows "\<exists>s' W. end_op s = Inr s' \<and> dhist s' = rev W @ dhist s \<and> dimg s' = writes W (dimg s) \<and> (ds \<noteq> [] \<longrightarrow> length ds < length W)
    \<and> (\<forall>k\<le>length W. \<exists>s''. boot sb (writes (take k W) (dimg s)) = Inr s''
        \<and> (\<forall>b. b \<notin> log_blocks (lg s) \<longrightarrow> dimg s'' b = (if k \<le> length ds then dimg s b else con s b)))"
proof -
  let ?s = "s\<lparr>lg := (lg s)\<lparr>lg_outstanding := 0, lg_committing := True\<rparr>\<rparr>"
  have "pins ?s (set ds) {}" "log_wf (lg ?s) ds" "disk_log (lg ?s) (dimg ?s) []"
    using t by (simp_all add: txs_def log_wf_def log_blocks_def disk_log_def)
  note ca = commit_atomic [OF this, of sb]
  have q: "dimg ?s = dimg s" "con ?s = con s" "dhist ?s = dhist s" "log_blocks (lg ?s) = log_blocks (lg s)"
    by (simp_all add: log_blocks_def)
  from ca [unfolded q] sb obtain s1 W where
    c: "commit ?s = Inr s1" "dhist s1 = rev W @ dhist s" "dimg s1 = writes W (dimg s)" "ds \<noteq> [] \<longrightarrow> length ds < length W"
    "\<forall>k\<le>length W. \<exists>s''. boot sb (writes (take k W) (dimg s)) = Inr s''
        \<and> (\<forall>b. b \<notin> log_blocks (lg s) \<longrightarrow> dimg s'' b = (if k \<le> length ds then dimg s b else con s b))"
    by auto
  have "end_op s = Inr (wakeup ChLog (s1\<lparr>lg := (lg s1)\<lparr>lg_committing := False\<rparr>\<rparr>))"
    using t o c(1) by (simp add: end_op_def txs_def)
  then show ?thesis using c(2-5) by auto
qed

text \<open>
  C1: a commit is atomic with respect to crashes. Let \<open>s\<close> be a state in which no system
  call is in progress, the logged blocks \<open>ds\<close> are pinned in the cache and no other block is
  referenced. \<^verbatim>\<open>commit\<close> succeeds. If the machine stops after any number \<open>k\<close> of its block
  writes and boots again from what is on disk, recovery succeeds and every block outside the log
  has its old content (as on disk before the commit) when the header had not been
  written, that is \<open>k \<le> length ds\<close>, and its new content (as in the cache) otherwise.
\<close>

theorem crash_atomic:
  assumes "pins s (set ds) {}" and "log_wf (lg s) ds" and "disk_log (lg s) (dimg s) []"
    and "logstart sb = lg_start (lg s)" and "sint (nlog sb) = lg_size (lg s)"
  shows "\<exists>s' W. commit s = Inr s' \<and> dhist s' = rev W @ dhist s \<and> dimg s' = writes W (dimg s)
    \<and> (\<forall>k\<le>length W. \<exists>s''. boot sb (writes (take k W) (dimg s)) = Inr s''
        \<and> (\<forall>b. b \<notin> log_blocks (lg s) \<longrightarrow> dimg s'' b = (if k \<le> length ds then dimg s b else con s b)))"
  using commit_atomic [OF assms] by blast

text \<open>A disk with an empty log, and a transaction of two blocks on it.\<close>

definition demo_sb :: superblock where
  "demo_sb = \<lparr>magic = FSMAGIC, sb_size = 2000, nblocks = 1954, ninodes = 200, nlog = 30, logstart = 2,
     inodestart = 32, bmapstart = 45\<rparr>"

definition demo_disk :: "u32 \<Rightarrow> byte list" where
  "demo_disk b = replicate BSIZE (if b = 1 \<or> b = 2 then 0 else ucast b)"

lemma demo_disk_log: "lg_start l = 2 \<Longrightarrow> disk_log l demo_disk []"
  by (simp add: disk_log_def demo_disk_def get_logheader_def get32_def get_bytes_def eval_nat_numeral)

lemma demo_boot:
  "\<exists>s. boot demo_sb demo_disk = Inr s \<and> pins s {} {} \<and> log_wf (lg s) [] \<and> lg_start (lg s) = 2
    \<and> lg_size (lg s) = 30 \<and> lg_outstanding (lg s) = 0 \<and> \<not> lg_committing (lg s) \<and> disk_log (lg s) (dimg s) []
    \<and> (\<forall>b. b \<noteq> 2 \<longrightarrow> dimg s b = demo_disk b)"
proof -
  let ?l = "\<lparr>lg_start = 2, lg_size = 30, lg_outstanding = 0, lg_committing = False, lg_dev = 1,
       lg_lh = \<lparr>lh_n = 0, lh_block = []\<rparr>\<rparr>"
  have r: "recoverable ?l demo_disk []" using demo_disk_log [of ?l] by (simp add: recoverable_def)
  have len: "\<forall>b. length (demo_disk b) = BSIZE" by (simp add: demo_disk_def)
  obtain s where s: "boot demo_sb demo_disk = Inr s" "pins s {} {}" "log_wf (lg s) []" "lg_start (lg s) = 2"
    "lg_size (lg s) = 30" "lg_outstanding (lg s) = 0" "\<not> lg_committing (lg s)"
    "dimg s = writes (recover_writes ?l demo_disk []) demo_disk"
    using boot_ok [OF len r, of demo_sb] by (auto simp: demo_sb_def)
  have "dimg s 2 = header [] (demo_disk 2)" using s(8) by (simp add: recover_writes_def)
  then have "disk_log (lg s) (dimg s) []"
    using get_logheader_header [of "demo_disk 2" "[]"] s(4) by (simp add: disk_log_def demo_disk_def)
  moreover have "dimg s b = demo_disk b" if "b \<noteq> 2" for b using s(8) that by (simp add: recover_writes_def)
  ultimately show ?thesis using s by blast
qed

lemma demo_outside: "lg_start l = 2 \<Longrightarrow> lg_size l = 30 \<Longrightarrow> 32 \<le> unat b \<Longrightarrow> b \<notin> log_blocks l"
proof
  assume l: "lg_start l = 2" "lg_size l = 30" "32 \<le> unat b" and "b \<in> log_blocks l"
  then obtain i where i: "i < 30" "b = 2 + of_nat i" by (auto simp: log_blocks_def)
  then have "unat b = 2 + i" using unat_of_nat_id [of i, where 'a = 32] by (simp add: unat_word_ariths)
  then show False using i(1) l(3) by simp
qed

text \<open>The typical update of the comment in \<^verbatim>\<open>log.c\<close>: read, modify, \<^verbatim>\<open>log_write\<close>, release.\<close>

definition update_block :: "u32 \<Rightarrow> (byte list \<Rightarrow> byte list) \<Rightarrow> 'a logst_scheme \<Rightarrow> 'a logst_scheme res" where
  "update_block b f s =
     rbind (bread ROOTDEV b s) (\<lambda>(bp, s).
     rbind (log_write bp (set_data bp (f (bdata (bufs s bp))) s)) (\<lambda>s.
     brelse bp s))"

lemma logged_in [simp]: "b \<in> set (logged b ds)"
  by (simp add: logged_def)

lemma update_block_ok:
  assumes t: "txs s ds {}" and b: "b \<notin> log_blocks (lg s)"
    and f: "length (f (con s b)) = BSIZE" and n: "int (length ds) < lg_size (lg s) - 1"
  shows "\<exists>s'. update_block b f s = Inr s' \<and> txs s' (logged b ds) {} \<and> tchg s s' \<and> con s' = (con s)(b := f (con s b))"
proof -
  have l30: "length ds < 30" using t log_wfD(5) by (auto simp: txs_def)
  obtain i s1 where 1: "bread ROOTDEV b s = Inr (i, s1)" "txs s1 ds {b}" "bchg s s1" "con s1 = con s"
    "handle s1 i b" "bdata (bufs s1 i) = con s b"
    using txs_bread [OF t, of b] l30 by auto
  define s2 where "s2 = set_data i (f (con s b)) s1"
  note 2 = txs_set_data [OF 1(2,5) f, folded s2_def]
  have b2: "bchg s s2" using bchg_trans [OF 1(3) 2(4)] .
  obtain s3 where 3: "log_write i s2 = Inr s3" "txs s3 (logged b ds) {b}" "tchg s2 s3" "con s3 = con s2"
    "handle s3 = handle s2"
    using txs_log_write [OF 2(1), of i b] 1(5) 2(3) b n by (auto simp: bchg_lg [OF b2])
  obtain s4 where 4: "brelse i s3 = Inr s4" "txs s4 (logged b ds) {}" "bchg s3 s4" "con s4 = con s3"
    using txs_brelse [OF 3(2), of i b] 3(5) 2(3) 1(5) by auto
  have "update_block b f s = Inr s4" using 1(1,6) 3(1) 4(1) by (simp add: update_block_def s2_def)
  moreover have "tchg s s4" using tchg_trans bchg_tchg [OF b2] 3(3) bchg_tchg [OF 4(3)] by blast
  ultimately show ?thesis using 4 3(4) 2(2) 1(4) by auto
qed

lemma demo_txn:
  "\<exists>s :: logst. txs s [50, 60] {} \<and> lg_start (lg s) = 2 \<and> lg_size (lg s) = 30 \<and> lg_outstanding (lg s) = 1
    \<and> con s 50 = replicate BSIZE 7 \<and> dimg s 50 = replicate BSIZE 50"
proof -
  obtain s0 :: logst where 0: "pins s0 {} {}" "log_wf (lg s0) []" "lg_start (lg s0) = 2"
    "lg_size (lg s0) = 30" "lg_outstanding (lg s0) = 0" "\<not> lg_committing (lg s0)" "disk_log (lg s0) (dimg s0) []"
    "\<forall>b. b \<noteq> 2 \<longrightarrow> dimg s0 b = demo_disk b"
    using demo_boot by blast
  define s1 where "s1 = s0\<lparr>lg := (lg s0)\<lparr>lg_outstanding := 1\<rparr>\<rparr>"
  have 1: "txs s1 [] {}" "lg_start (lg s1) = 2" "lg_size (lg s1) = 30" "lg_outstanding (lg s1) = 1"
    using begin_op_ok(2) [of s0 "[]"] 0 by (auto simp: s1_def)
  obtain s2 where 2: "txs s2 [50] {}" "tchg s1 s2" "con s2 = (con s1)(50 := replicate BSIZE 7)"
    using update_block_ok [OF 1(1), of 50 "\<lambda>_. replicate BSIZE 7"] 1(2,3) demo_outside [of "lg s1" 50]
    by (auto simp: logged_def)
  obtain s3 where 3: "txs s3 [50, 60] {}" "tchg s2 s3" "con s3 = (con s2)(60 := replicate BSIZE 8)"
    using update_block_ok [OF 2(1), of 60 "\<lambda>_. replicate BSIZE 8"] 1(2,3) demo_outside [of "lg s2" 60] tchgD [OF 2(2)]
    by (auto simp: logged_def)
  have "dimg s3 50 = replicate BSIZE 50"
    using tchgD(1) [OF 3(2)] tchgD(1) [OF 2(2)] 0(8) by (simp add: s1_def demo_disk_def)
  then show ?thesis using 1 2 3 tchgD [OF 2(2)] tchgD [OF 3(2)] by auto
qed

theorem crash_atomic_witness:
  "\<exists>(s :: logst) s' W. con s 50 = replicate BSIZE 7 \<and> dimg s 50 = replicate BSIZE 50
    \<and> commit s = Inr s' \<and> dhist s' = rev W @ dhist s \<and> dimg s' = writes W (dimg s)
    \<and> (\<forall>k\<le>length W. \<exists>s''. boot demo_sb (writes (take k W) (dimg s)) = Inr s''
        \<and> (\<forall>b. b \<notin> log_blocks (lg s) \<longrightarrow> dimg s'' b = (if k \<le> length [50, 60 :: u32] then dimg s b else con s b)))"
proof -
  obtain s :: logst where s: "txs s [50, 60] {}" "lg_start (lg s) = 2" "lg_size (lg s) = 30"
    "con s 50 = replicate BSIZE 7" "dimg s 50 = replicate BSIZE 50"
    using demo_txn by blast
  have sb: "logstart demo_sb = lg_start (lg s)" "sint (nlog demo_sb) = lg_size (lg s)"
    using s by (simp_all add: demo_sb_def)
  from s(1) have "pins s (set [50, 60]) {}" "log_wf (lg s) [50, 60]" "disk_log (lg s) (dimg s) []"
    by (simp_all add: txs_def)
  from crash_atomic [OF this sb] obtain s' W where
    "commit s = Inr s'" "dhist s' = rev W @ dhist s" "dimg s' = writes W (dimg s)"
    "\<forall>k\<le>length W. \<exists>s''. boot demo_sb (writes (take k W) (dimg s)) = Inr s''
      \<and> (\<forall>b. b \<notin> log_blocks (lg s) \<longrightarrow> dimg s'' b = (if k \<le> length [50, 60 :: u32] then dimg s b else con s b))"
    by blast
  with s(4,5) show ?thesis by (intro exI [of _ s] exI [of _ s'] exI [of _ W] conjI) assumption+
qed

text \<open>
  C2: recovery may itself be interrupted. If the machine stops after any number \<open>k\<close> of
  block writes of a recovery and boots again, the second recovery succeeds and leaves the same
  blocks outside the log as an undisturbed one.
\<close>

theorem recovery_idempotent:
  assumes "\<forall>b. length (D b) = BSIZE" and "recoverable l D ds"
    and "lg_start l = logstart sb" and "lg_size l = sint (nlog sb)"
  shows "\<exists>s. boot sb D = Inr s \<and> dimg s = writes (rev (dhist s)) D
    \<and> (\<forall>k\<le>length (dhist s). \<exists>s'. boot sb (writes (take k (rev (dhist s))) D) = Inr s'
        \<and> (\<forall>b. b \<notin> log_blocks l \<longrightarrow> dimg s' b = dimg s b))"
proof -
  obtain s where s: "boot sb D = Inr s" "dimg s = writes (recover_writes l D ds) D"
    "dhist s = rev (recover_writes l D ds)"
    using boot_ok [OF assms(1,2)] assms(3,4) by auto
  have "\<exists>s'. boot sb (writes (take k (recover_writes l D ds)) D) = Inr s'
      \<and> (\<forall>b. b \<notin> log_blocks l \<longrightarrow> dimg s' b = dimg s b)" if k: "k \<le> length (recover_writes l D ds)" for k
  proof -
    let ?D = "writes (take k (recover_writes l D ds)) D"
    have len: "\<forall>b. length (?D b) = BSIZE" using len_take_recover [OF assms(1)] .
    obtain ds' where r: "recoverable l ?D ds'"
      "\<forall>b. b \<notin> log_blocks l \<longrightarrow> writes (recover_writes l ?D ds') ?D b = writes (recover_writes l D ds) D b"
      using recover_prefix [OF assms(1,2) k] by blast
    then show ?thesis using boot_ok [OF len r(1), of sb] assms(3,4) s(2) by auto
  qed
  then show ?thesis using s by auto
qed


theorem recovery_idempotent_witness:
  "\<exists>s ds. recoverable \<lparr>lg_start = 2, lg_size = 30, lg_outstanding = 0, lg_committing = False, lg_dev = 1,
       lg_lh = \<lparr>lh_n = 0, lh_block = []\<rparr>\<rparr> (demo_disk(2 := header [50, 60] (demo_disk 2))) ds \<and> length ds = 2
    \<and> boot demo_sb (demo_disk(2 := header [50, 60] (demo_disk 2))) = Inr s
    \<and> dimg s = writes (rev (dhist s)) (demo_disk(2 := header [50, 60] (demo_disk 2)))
    \<and> (\<forall>k\<le>length (dhist s). \<exists>s'.
        boot demo_sb (writes (take k (rev (dhist s))) (demo_disk(2 := header [50, 60] (demo_disk 2)))) = Inr s'
        \<and> (\<forall>b. b \<notin> log_blocks \<lparr>lg_start = 2, lg_size = 30, lg_outstanding = 0, lg_committing = False,
             lg_dev = 1, lg_lh = \<lparr>lh_n = 0, lh_block = []\<rparr>\<rparr> \<longrightarrow> dimg s' b = dimg s b))"
  (is "\<exists>s ds. recoverable ?l ?D ds \<and> _")
proof -
  have len: "\<forall>b. length (?D b) = BSIZE" by (auto simp: demo_disk_def header_def)
  have "disk_log ?l ?D [50, 60]"
    using get_logheader_header [of "demo_disk 2" "[50, 60]"] by (simp add: disk_log_def demo_disk_def)
  moreover have "set [50, 60] \<inter> log_blocks ?l = {}"
    using demo_outside [of ?l 50] demo_outside [of ?l 60] by simp
  ultimately have r: "recoverable ?l ?D [50, 60]" by (simp add: recoverable_def)
  have sb: "lg_start ?l = logstart demo_sb" "lg_size ?l = sint (nlog demo_sb)" by (simp_all add: demo_sb_def)
  have "length [50, 60 :: u32] = 2" by simp
  with recovery_idempotent [OF len r sb] r show ?thesis by blast
qed

text \<open>
  The reservation of \<^verbatim>\<open>begin_op\<close> counts on \<^verbatim>\<open>LOGSIZE\<close> blocks per transaction, \<^verbatim>\<open>log_write\<close>
  accepts one less, because one of the \<^verbatim>\<open>nlog\<close> blocks of the log is the header.
\<close>

lemma update_blocks_ok:
  assumes t: "txs s ds {}" and b: "set bs \<inter> log_blocks (lg s) = {}" "set bs \<inter> set ds = {}" "distinct bs"
    and f: "\<forall>d. length d = BSIZE \<longrightarrow> length (f d) = BSIZE" and n: "int (length ds + length bs) < lg_size (lg s)"
  shows "\<exists>s'. rfold (\<lambda>b. update_block b f) bs s = Inr s' \<and> txs s' (ds @ bs) {} \<and> tchg s s'"
  using assms
proof (induction bs arbitrary: s ds)
  case (Cons b bs)
  have lc: "length (con s b) = BSIZE" using length_con [of s b] Cons.prems(1) by (simp add: txs_def pins_def)
  obtain s1 where 1: "update_block b f s = Inr s1" "txs s1 (ds @ [b]) {}" "tchg s s1"
    using update_block_ok [OF Cons.prems(1), of b f] Cons.prems lc by (auto simp: logged_def)
  have "\<exists>s'. rfold (\<lambda>b. update_block b f) bs s1 = Inr s' \<and> txs s' ((ds @ [b]) @ bs) {} \<and> tchg s1 s'"
    using Cons.prems tchgD [OF 1(3)] by (intro Cons.IH [OF 1(2)]) auto
  then show ?case using 1(1) tchg_trans [OF 1(3)] by auto
qed simp

lemma log_write_full:
  assumes "txs s ds L" and "lg_size (lg s) = int (Suc (length ds))"
  shows "log_write i s = Inl (Panic ''too big a transaction'')"
  using assms log_wfD(2) [of "lg s" ds] by (simp add: log_write_def txs_def)

lemma update_block_full:
  assumes t: "txs s ds {}" and f: "lg_size (lg s) = int (Suc (length ds))" and c: "length (f (con s b)) = BSIZE"
  shows "update_block b f s = Inl (Panic ''too big a transaction'')"
proof -
  have "length ds < 30" using t log_wfD(5) by (auto simp: txs_def)
  then obtain i s1 where 1: "bread ROOTDEV b s = Inr (i, s1)" "txs s1 ds {b}" "bchg s s1" "handle s1 i b"
    "bdata (bufs s1 i) = con s b"
    using txs_bread [OF t, of b] by auto
  note 2 = txs_set_data [OF 1(2,4) c]
  have "log_write i (set_data i (f (con s b)) s1) = Inl (Panic ''too big a transaction'')"
    using f bchg_lg [OF bchg_trans [OF 1(3) 2(4)]] by (intro log_write_full [OF 2(1)]) simp
  then show ?thesis using 1(1,5) by (simp add: update_block_def)
qed

text \<open>
  C35: three operations that \<^verbatim>\<open>begin_op\<close> has admitted together can still overflow the
  log. On a log of \<^verbatim>\<open>LOGSIZE\<close> blocks, as \<^verbatim>\<open>mkfs\<close> makes it, three operations are admitted; when
  they have updated 29 distinct blocks between them, within the 30 they reserved, the
  update of the thirtieth panics with "too big a transaction".
\<close>

theorem reservation_overflow:
  assumes "pins s {} {}" and "log_wf (lg s) []" and "disk_log (lg s) (dimg s) []" and "lg_size (lg s) = int LOGSIZE"
    and "lg_outstanding (lg s) = 0" and "\<not> lg_committing (lg s)"
    and "distinct bs" and "length bs = 29" and "set bs \<inter> log_blocks (lg s) = {}"
    and "\<forall>d. length d = BSIZE \<longrightarrow> length (f d) = BSIZE"
  shows "\<exists>s1 s2 s3 s4. begin_op s = Inr s1 \<and> begin_op s1 = Inr s2 \<and> begin_op s2 = Inr s3
    \<and> rfold (\<lambda>b. update_block b f) bs s3 = Inr s4
    \<and> update_block b f s4 = Inl (Panic ''too big a transaction'')"
proof -
  let ?u = "\<lambda>n. s\<lparr>lg := (lg s)\<lparr>lg_outstanding := n\<rparr>\<rparr>"
  have w: "log_wf ((lg s)\<lparr>lg_outstanding := n\<rparr>) []" "disk_log ((lg s)\<lparr>lg_outstanding := n\<rparr>) (dimg s) []" for n
    using assms(2,3) by (simp_all add: log_wf_def disk_log_def log_blocks_def)
  have b: "begin_op s = Inr (?u 1)" "begin_op (?u 1) = Inr (?u 2)" "begin_op (?u 2) = Inr (?u 3)"
    using assms(2,5,6) log_wfD(2) [OF assms(2)] by (simp_all add: begin_op_def)
  have t: "txs (?u 3) [] {}" using assms(1,6) w by (simp add: txs_def)
  obtain s4 where 4: "rfold (\<lambda>b. update_block b f) bs (?u 3) = Inr s4" "txs s4 bs {}" "tchg (?u 3) s4"
    using update_blocks_ok [OF t, of bs f] assms(4,7-10) by (auto simp: log_blocks_def)
  have "length (f (con s4 b)) = BSIZE"
    using assms(10) length_con [of s4 b] 4(2) by (simp add: txs_def pins_def)
  then have "update_block b f s4 = Inl (Panic ''too big a transaction'')"
    using tchgD(3) [OF 4(3)] assms(4,8) by (intro update_block_full [OF 4(2)]) simp_all
  then show ?thesis using b 4(1) by blast
qed

theorem reservation_overflow_witness:
  "\<exists>s s1 s2 s3 s4. boot demo_sb demo_disk = Inr s
    \<and> begin_op s = Inr s1 \<and> begin_op s1 = Inr s2 \<and> begin_op s2 = Inr s3
    \<and> rfold (\<lambda>b. update_block b (\<lambda>d. d)) (map of_nat [100..<129]) s3 = Inr s4
    \<and> update_block 129 (\<lambda>d. d) s4 = Inl (Panic ''too big a transaction'')"
proof -
  obtain s where s: "boot demo_sb demo_disk = Inr s" "pins s {} {}" "log_wf (lg s) []" "lg_start (lg s) = 2"
    "lg_size (lg s) = 30" "lg_outstanding (lg s) = 0" "\<not> lg_committing (lg s)" "disk_log (lg s) (dimg s) []"
    using demo_boot by blast
  have u: "unat (of_nat n :: u32) = n" if "n \<in> set [100..<129]" for n
    by (rule unat_of_nat_id) (use that in auto)
  have d: "distinct (map of_nat [100..<129] :: u32 list)"
    unfolding distinct_map by (intro conjI distinct_upt inj_onI) (metis u)
  have "(of_nat n :: u32) \<notin> log_blocks (lg s)" if n: "n \<in> set [100..<129]" for n
    using demo_outside [OF s(4,5), of "of_nat n"] u [OF n] n by auto
  then have o: "set (map of_nat [100..<129]) \<inter> log_blocks (lg s) = {}" unfolding set_map by blast
  have sz: "lg_size (lg s) = int LOGSIZE" using s(5) by simp
  have "length (map of_nat [100..<129] :: u32 list) = 29" by simp
  from reservation_overflow [OF s(2,3,8) sz s(6,7) d this o, of "\<lambda>d. d"] s(1) show ?thesis by blast
qed

end
