(* ===== verification/Fs.thy ===== *)
theory Fs
  imports Log
begin

text \<open>
  \<^verbatim>\<open>kernel/fs.c\<close> and the inode of \<^verbatim>\<open>kernel/file.h\<close>: the block allocator, inodes, their
  contents, directories and path names. The state extends that of the log by the superblock
  and the inode table. A \<open>struct inode*\<close> is an index into the table, a null pointer is \<open>None\<close>.
  Strings are lists of bytes with their terminating zero; a list that ends before the code
  stops reading it gives \<open>OutOfBounds\<close>. Loop counters are natural numbers.
\<close>

section \<open>Model\<close>

record inode =
  i_dev :: u32
  i_inum :: u32
  i_ref :: int
  i_lock :: sleeplock
  i_valid :: bool
  i_type :: u16
  i_major :: u16
  i_minor :: u16
  i_nlink :: u16
  i_size :: u32
  i_addrs :: "u32 list"

record fss = logst +
  sb :: superblock
  itable :: "nat \<Rightarrow> inode"

definition upd_inode :: "nat \<Rightarrow> (inode \<Rightarrow> inode) \<Rightarrow> 'a fss_scheme \<Rightarrow> 'a fss_scheme" where
  "upd_inode ip f s = s\<lparr>itable := (itable s)(ip := f (itable s ip))\<rparr>"

subsection \<open>Blocks\<close>

definition readsb :: "u32 \<Rightarrow> 'a fss_scheme \<Rightarrow> 'a fss_scheme res" where
  "readsb dev s =
     rbind (bread dev 1 s) (\<lambda>(bp, s).
       brelse bp (s\<lparr>sb := get_sb (bdata (bufs s bp))\<rparr>))"

definition fsinit :: "u32 \<Rightarrow> 'a fss_scheme \<Rightarrow> 'a fss_scheme res" where
  "fsinit dev s =
     rbind (readsb dev s) (\<lambda>s.
       if magic (sb s) \<noteq> FSMAGIC then Inl (Panic ''invalid file system'')
       else initlog dev (sb s) s)"

definition bzero :: "u32 \<Rightarrow> u32 \<Rightarrow> 'a fss_scheme \<Rightarrow> 'a fss_scheme res" where
  "bzero dev bno s =
     rbind (bread dev bno s) (\<lambda>(bp, s).
     rbind (log_write bp (set_data bp (replicate BSIZE 0) s)) (\<lambda>s.
     brelse bp s))"

text \<open>The inner loop of \<^verbatim>\<open>balloc\<close>: the first clear bit of a bitmap block, from bit \<open>bi\<close> on.\<close>

function balloc_scan :: "nat \<Rightarrow> nat \<Rightarrow> nat \<Rightarrow> byte list \<Rightarrow> nat option" where
  "balloc_scan bi b lim d =
     (if bi < BPB \<and> b + bi < lim
      then if d ! (bi div 8) AND push_bit (bi mod 8) 1 = 0 then Some bi
           else balloc_scan (Suc bi) b lim d
      else None)"
  by pat_completeness auto
termination
  by (relation "measure (\<lambda>(bi, b, lim, d). BPB - bi)") auto

declare balloc_scan.simps [simp del]

definition set_bit_byte :: "nat \<Rightarrow> byte list \<Rightarrow> byte list" where
  "set_bit_byte bi d = d[bi div 8 := d ! (bi div 8) OR push_bit (bi mod 8) 1]"

definition clear_bit_byte :: "nat \<Rightarrow> byte list \<Rightarrow> byte list" where
  "clear_bit_byte bi d = d[bi div 8 := d ! (bi div 8) AND NOT (push_bit (bi mod 8) 1)]"

function balloc_loop :: "nat \<Rightarrow> nat \<Rightarrow> u32 \<Rightarrow> 'a fss_scheme \<Rightarrow> (u32 \<times> 'a fss_scheme) res" where
  "balloc_loop lim b dev s =
     (if b < lim
      then
        rbind (bread dev (BBLOCK (of_nat b) (sb s)) s) (\<lambda>(bp, s).
          case balloc_scan 0 b lim (bdata (bufs s bp)) of
            Some bi \<Rightarrow>
              rbind (log_write bp (set_data bp (set_bit_byte bi (bdata (bufs s bp))) s)) (\<lambda>s.
              rbind (brelse bp s) (\<lambda>s.
              rbind (bzero dev (of_nat (b + bi)) s) (\<lambda>s.
              Inr (of_nat (b + bi), s))))
          | None \<Rightarrow> rbind (brelse bp s) (\<lambda>s. balloc_loop lim (b + BPB) dev s))
      else Inr (0, kputs (bytes (''balloc: out of blocks'' @ [CHR 0x0A])) s))"
  by pat_completeness auto
termination
  by (relation "measure (\<lambda>(lim, b, dev, s). lim - b)") auto

declare balloc_loop.simps [simp del]

definition balloc :: "u32 \<Rightarrow> 'a fss_scheme \<Rightarrow> (u32 \<times> 'a fss_scheme) res" where
  "balloc dev s = balloc_loop (unat (sb_size (sb s))) 0 dev s"

definition bfree :: "u32 \<Rightarrow> u32 \<Rightarrow> 'a fss_scheme \<Rightarrow> 'a fss_scheme res" where
  "bfree dev b s =
     rbind (bread dev (BBLOCK b (sb s)) s) (\<lambda>(bp, s).
       let bi = unat b mod BPB; d = bdata (bufs s bp) in
       if d ! (bi div 8) AND push_bit (bi mod 8) 1 = 0 then Inl (Panic ''freeing free block'')
       else
         rbind (log_write bp (set_data bp (clear_bit_byte bi d) s)) (\<lambda>s.
         brelse bp s))"

subsection \<open>Inodes\<close>

definition iinit :: "'a fss_scheme \<Rightarrow> 'a fss_scheme" where
  "iinit s = fold (\<lambda>i. upd_inode i (\<lambda>x. x\<lparr>i_lock := initsleeplock\<rparr>)) [0..<NINODE] s"

text \<open>The scan of \<^verbatim>\<open>iget\<close> over the table: the entry of the inode, and the first free entry.\<close>

primrec iget_scan :: "u32 \<Rightarrow> u32 \<Rightarrow> (nat \<Rightarrow> inode) \<Rightarrow> nat list \<Rightarrow> nat option \<Rightarrow> nat option \<times> nat option" where
  "iget_scan dev inum t [] free = (None, free)"
| "iget_scan dev inum t (ip # ips) free =
     (if i_ref (t ip) > 0 \<and> i_dev (t ip) = dev \<and> i_inum (t ip) = inum then (Some ip, free)
      else iget_scan dev inum t ips (if free = None \<and> i_ref (t ip) = 0 then Some ip else free))"

definition iget :: "u32 \<Rightarrow> u32 \<Rightarrow> 'a fss_scheme \<Rightarrow> (nat \<times> 'a fss_scheme) res" where
  "iget dev inum s =
     (case iget_scan dev inum (itable s) [0..<NINODE] None of
        (Some ip, _) \<Rightarrow> Inr (ip, upd_inode ip (\<lambda>x. x\<lparr>i_ref := i_ref x + 1\<rparr>) s)
      | (None, None) \<Rightarrow> Inl (Panic ''iget: no inodes'')
      | (None, Some ip) \<Rightarrow>
          Inr (ip, upd_inode ip (\<lambda>x. x\<lparr>i_dev := dev, i_inum := inum, i_ref := 1, i_valid := False\<rparr>) s))"

definition idup :: "nat \<Rightarrow> 'a fss_scheme \<Rightarrow> 'a fss_scheme" where
  "idup ip s = upd_inode ip (\<lambda>x. x\<lparr>i_ref := i_ref x + 1\<rparr>) s"

text \<open>The offset of an inode in its block.\<close>

definition ioff :: "u32 \<Rightarrow> nat" where
  "ioff inum = 64 * (unat inum mod IPB)"

definition zero_dinode :: dinode where
  "zero_dinode = \<lparr>di_type = 0, di_major = 0, di_minor = 0, di_nlink = 0, di_size = 0,
     di_addrs = replicate (NDIRECT + 1) 0\<rparr>"

function ialloc_loop :: "nat \<Rightarrow> nat \<Rightarrow> u32 \<Rightarrow> u16 \<Rightarrow> 'a fss_scheme \<Rightarrow> (nat option \<times> 'a fss_scheme) res" where
  "ialloc_loop n inum dev type s =
     (if inum < n
      then
        rbind (bread dev (IBLOCK (of_nat inum) (sb s)) s) (\<lambda>(bp, s).
          let off = ioff (of_nat inum); d = bdata (bufs s bp) in
          if di_type (get_dinode off d) = 0
          then
            rbind (log_write bp (set_data bp (put_dinode off (zero_dinode\<lparr>di_type := type\<rparr>) d) s)) (\<lambda>s.
            rbind (brelse bp s) (\<lambda>s.
            rbind (iget dev (of_nat inum) s) (\<lambda>(ip, s).
            Inr (Some ip, s))))
          else rbind (brelse bp s) (\<lambda>s. ialloc_loop n (Suc inum) dev type s))
      else Inr (None, kputs (bytes (''ialloc: no inodes'' @ [CHR 0x0A])) s))"
  by pat_completeness auto
termination
  by (relation "measure (\<lambda>(n, inum, dev, type, s). n - inum)") auto

declare ialloc_loop.simps [simp del]

definition ialloc :: "u32 \<Rightarrow> u16 \<Rightarrow> 'a fss_scheme \<Rightarrow> (nat option \<times> 'a fss_scheme) res" where
  "ialloc dev type s = ialloc_loop (unat (ninodes (sb s))) 1 dev type s"

definition dinode_of :: "inode \<Rightarrow> dinode" where
  "dinode_of x = \<lparr>di_type = i_type x, di_major = i_major x, di_minor = i_minor x, di_nlink = i_nlink x,
     di_size = i_size x, di_addrs = i_addrs x\<rparr>"

definition iupdate :: "nat \<Rightarrow> 'a fss_scheme \<Rightarrow> 'a fss_scheme res" where
  "iupdate ip s =
     (let x = itable s ip in
      rbind (bread (i_dev x) (IBLOCK (i_inum x) (sb s)) s) (\<lambda>(bp, s).
      rbind (log_write bp (set_data bp (put_dinode (ioff (i_inum x)) (dinode_of x) (bdata (bufs s bp))) s)) (\<lambda>s.
      brelse bp s)))"

definition load_dinode :: "dinode \<Rightarrow> inode \<Rightarrow> inode" where
  "load_dinode di x = x\<lparr>i_type := di_type di, i_major := di_major di, i_minor := di_minor di,
     i_nlink := di_nlink di, i_size := di_size di, i_addrs := di_addrs di\<rparr>"

definition ilock :: "nat \<Rightarrow> 'a fss_scheme \<Rightarrow> 'a fss_scheme res" where
  "ilock ip s =
     (if i_ref (itable s ip) < 1 then Inl (Panic ''ilock'')
      else
        rbind (acquiresleep (ChInodeLock ip) (curpid s) (i_lock (itable s ip))) (\<lambda>lk.
          let s = upd_inode ip (\<lambda>x. x\<lparr>i_lock := lk\<rparr>) s; x = itable s ip in
          if \<not> i_valid x
          then
            rbind (bread (i_dev x) (IBLOCK (i_inum x) (sb s)) s) (\<lambda>(bp, s).
              let s = upd_inode ip (load_dinode (get_dinode (ioff (i_inum x)) (bdata (bufs s bp)))) s in
              rbind (brelse bp s) (\<lambda>s.
                let s = upd_inode ip (\<lambda>x. x\<lparr>i_valid := True\<rparr>) s in
                if i_type (itable s ip) = 0 then Inl (Panic ''ilock: no type'') else Inr s))
          else Inr s))"

definition release_inode :: "nat \<Rightarrow> 'a fss_scheme \<Rightarrow> 'a fss_scheme" where
  "release_inode ip s =
     wakeup (ChInodeLock ip) (upd_inode ip (\<lambda>x. x\<lparr>i_lock := releasesleep (i_lock x)\<rparr>) s)"

definition iunlock :: "nat \<Rightarrow> 'a fss_scheme \<Rightarrow> 'a fss_scheme res" where
  "iunlock ip s =
     (if \<not> holdingsleep (curpid s) (i_lock (itable s ip)) \<or> i_ref (itable s ip) < 1
      then Inl (Panic ''iunlock'')
      else Inr (release_inode ip s))"

definition itrunc_direct :: "nat \<Rightarrow> nat \<Rightarrow> 'a fss_scheme \<Rightarrow> 'a fss_scheme res" where
  "itrunc_direct ip i s =
     rbind (aget (i_addrs (itable s ip)) i) (\<lambda>a.
       if a \<noteq> 0
       then rbind (bfree (i_dev (itable s ip)) a s) (\<lambda>s.
              Inr (upd_inode ip (\<lambda>x. x\<lparr>i_addrs := (i_addrs x)[i := 0]\<rparr>) s))
       else Inr s)"

definition itrunc_indirect :: "nat \<Rightarrow> nat \<Rightarrow> nat \<Rightarrow> 'a fss_scheme \<Rightarrow> 'a fss_scheme res" where
  "itrunc_indirect ip bp j s =
     (let a = get32 (4 * j) (bdata (bufs s bp)) in
      if a \<noteq> 0 then bfree (i_dev (itable s ip)) a s else Inr s)"

definition itrunc :: "nat \<Rightarrow> 'a fss_scheme \<Rightarrow> 'a fss_scheme res" where
  "itrunc ip s =
     rbind (rfold (itrunc_direct ip) [0..<NDIRECT] s) (\<lambda>s.
     rbind (aget (i_addrs (itable s ip)) NDIRECT) (\<lambda>a.
     rbind (if a \<noteq> 0
            then
              rbind (bread (i_dev (itable s ip)) a s) (\<lambda>(bp, s).
              rbind (rfold (itrunc_indirect ip bp) [0..<NINDIRECT] s) (\<lambda>s.
              rbind (brelse bp s) (\<lambda>s.
              rbind (bfree (i_dev (itable s ip)) a s) (\<lambda>s.
              Inr (upd_inode ip (\<lambda>x. x\<lparr>i_addrs := (i_addrs x)[NDIRECT := 0]\<rparr>) s)))))
            else Inr s) (\<lambda>s.
     iupdate ip (upd_inode ip (\<lambda>x. x\<lparr>i_size := 0\<rparr>) s))))"

definition iput :: "nat \<Rightarrow> 'a fss_scheme \<Rightarrow> 'a fss_scheme res" where
  "iput ip s =
     (let x = itable s ip in
      rbind (if i_ref x = 1 \<and> i_valid x \<and> i_nlink x = 0
             then
               rbind (acquiresleep (ChInodeLock ip) (curpid s) (i_lock x)) (\<lambda>lk.
               rbind (itrunc ip (upd_inode ip (\<lambda>x. x\<lparr>i_lock := lk\<rparr>) s)) (\<lambda>s.
               rbind (iupdate ip (upd_inode ip (\<lambda>x. x\<lparr>i_type := 0\<rparr>) s)) (\<lambda>s.
               Inr (release_inode ip (upd_inode ip (\<lambda>x. x\<lparr>i_valid := False\<rparr>) s)))))
             else Inr s) (\<lambda>s.
      Inr (upd_inode ip (\<lambda>x. x\<lparr>i_ref := i_ref x - 1\<rparr>) s)))"

definition iunlockput :: "nat \<Rightarrow> 'a fss_scheme \<Rightarrow> 'a fss_scheme res" where
  "iunlockput ip s = rbind (iunlock ip s) (\<lambda>s. iput ip s)"

subsection \<open>Contents\<close>

definition bmap :: "nat \<Rightarrow> nat \<Rightarrow> 'a fss_scheme \<Rightarrow> (u32 \<times> 'a fss_scheme) res" where
  "bmap ip bn s =
     (if bn < NDIRECT
      then
        rbind (aget (i_addrs (itable s ip)) bn) (\<lambda>addr.
          if addr = 0
          then
            rbind (balloc (i_dev (itable s ip)) s) (\<lambda>(addr, s).
              if addr = 0 then Inr (0, s)
              else Inr (addr, upd_inode ip (\<lambda>x. x\<lparr>i_addrs := (i_addrs x)[bn := addr]\<rparr>) s))
          else Inr (addr, s))
      else
        let bn = bn - NDIRECT in
        if bn < NINDIRECT
        then
          rbind (aget (i_addrs (itable s ip)) NDIRECT) (\<lambda>addr.
          rbind (if addr = 0
                 then
                   rbind (balloc (i_dev (itable s ip)) s) (\<lambda>(addr, s).
                     if addr = 0 then Inr (0, s)
                     else Inr (addr, upd_inode ip (\<lambda>x. x\<lparr>i_addrs := (i_addrs x)[NDIRECT := addr]\<rparr>) s))
                 else Inr (addr, s)) (\<lambda>(addr, s).
          if addr = 0 then Inr (0, s)
          else
            rbind (bread (i_dev (itable s ip)) addr s) (\<lambda>(bp, s).
              let a = get32 (4 * bn) (bdata (bufs s bp)) in
              rbind (if a = 0
                     then
                       rbind (balloc (i_dev (itable s ip)) s) (\<lambda>(a, s).
                         if a \<noteq> 0
                         then rbind (log_write bp (set_data bp (put32 (4 * bn) a (bdata (bufs s bp))) s)) (\<lambda>s.
                                Inr (a, s))
                         else Inr (a, s))
                     else Inr (a, s)) (\<lambda>(a, s).
              rbind (brelse bp s) (\<lambda>s. Inr (a, s))))))
        else Inl (Panic ''bmap: out of range''))"

record stat =
  st_dev :: u32
  st_ino :: u32
  st_type :: u16
  st_nlink :: u16
  st_size :: u64

definition stati :: "nat \<Rightarrow> 'a fss_scheme \<Rightarrow> stat" where
  "stati ip s =
     (let x = itable s ip in
      \<lparr>st_dev = i_dev x, st_ino = i_inum x, st_type = i_type x, st_nlink = i_nlink x, st_size = ucast (i_size x)\<rparr>)"

text \<open>
  The loop of \<^verbatim>\<open>readi\<close>. \<open>acc\<close> collects the bytes that went to a local variable of the caller.
\<close>

function readi_loop ::
  "nat \<Rightarrow> kdst \<Rightarrow> nat \<Rightarrow> nat \<Rightarrow> nat \<Rightarrow> byte list \<Rightarrow> 'a fss_scheme \<Rightarrow> (int \<times> byte list \<times> 'a fss_scheme) res" where
  "readi_loop ip dst off n tot acc s =
     (if tot < n
      then
        rbind (bmap ip (off div BSIZE) s) (\<lambda>(addr, s).
          if addr = 0 then Inr (int tot, acc, s)
          else
            rbind (bread (i_dev (itable s ip)) addr s) (\<lambda>(bp, s).
              let m = min (n - tot) (BSIZE - off mod BSIZE) in
              rbind (either_copyout dst (take m (drop (off mod BSIZE) (bdata (bufs s bp)))) s) (\<lambda>(r, bs, s).
                if r = -1 then rbind (brelse bp s) (\<lambda>s. Inr (-1, acc, s))
                else rbind (brelse bp s) (\<lambda>s.
                       readi_loop ip (dst_add dst m) (off + m) n (tot + m) (acc @ bs) s))))
      else Inr (int tot, acc, s))"
  by pat_completeness auto
termination
  by (relation "measure (\<lambda>(ip, dst, off, n, tot, acc, s). n - tot)") auto

declare readi_loop.simps [simp del]

definition readi :: "nat \<Rightarrow> kdst \<Rightarrow> u32 \<Rightarrow> u32 \<Rightarrow> 'a fss_scheme \<Rightarrow> (int \<times> byte list \<times> 'a fss_scheme) res" where
  "readi ip dst off n s =
     (let lim = i_size (itable s ip) in
      if off > lim \<or> off + n < off then Inr (0, [], s)
      else
        let n = (if off + n > lim then lim - off else n) in
        readi_loop ip dst (unat off) (unat n) 0 [] s)"

function writei_loop ::
  "nat \<Rightarrow> ksrc \<Rightarrow> nat \<Rightarrow> nat \<Rightarrow> nat \<Rightarrow> 'a fss_scheme \<Rightarrow> (nat \<times> nat \<times> 'a fss_scheme) res" where
  "writei_loop ip src off n tot s =
     (if tot < n
      then
        rbind (bmap ip (off div BSIZE) s) (\<lambda>(addr, s).
          if addr = 0 then Inr (tot, off, s)
          else
            rbind (bread (i_dev (itable s ip)) addr s) (\<lambda>(bp, s).
              let m = min (n - tot) (BSIZE - off mod BSIZE) in
              rbind (either_copyin src m s) (\<lambda>(r, bs).
                let s = set_data bp (put_bytes (off mod BSIZE) bs (bdata (bufs s bp))) s in
                if r = -1 then rbind (brelse bp s) (\<lambda>s. Inr (tot, off, s))
                else rbind (log_write bp s) (\<lambda>s.
                     rbind (brelse bp s) (\<lambda>s.
                       writei_loop ip (src_add src m) (off + m) n (tot + m) s)))))
      else Inr (tot, off, s))"
  by pat_completeness auto
termination
  by (relation "measure (\<lambda>(ip, src, off, n, tot, s). n - tot)") auto

declare writei_loop.simps [simp del]

definition writei :: "nat \<Rightarrow> ksrc \<Rightarrow> u32 \<Rightarrow> u32 \<Rightarrow> 'a fss_scheme \<Rightarrow> (int \<times> 'a fss_scheme) res" where
  "writei ip src off n s =
     (if off > i_size (itable s ip) \<or> off + n < off then Inr (-1, s)
      else if off + n > of_nat (MAXFILE * BSIZE) then Inr (-1, s)
      else
        rbind (writei_loop ip src (unat off) (unat n) 0 s) (\<lambda>(tot, off, s).
          let s = (if off > unat (i_size (itable s ip))
                   then upd_inode ip (\<lambda>x. x\<lparr>i_size := of_nat off\<rparr>) s else s) in
          rbind (iupdate ip s) (\<lambda>s. Inr (int tot, s))))"

subsection \<open>Directories\<close>

definition namecmp :: "byte list \<Rightarrow> byte list \<Rightarrow> int res" where
  "namecmp s t = strncmp s t DIRSIZ"

function dirlookup_loop ::
  "nat \<Rightarrow> nat \<Rightarrow> nat \<Rightarrow> byte list \<Rightarrow> 'a fss_scheme \<Rightarrow> ((nat \<times> nat) option \<times> 'a fss_scheme) res" where
  "dirlookup_loop lim off dp name s =
     (if off < lim
      then
        rbind (readi dp LocalDst (of_nat off) 16 s) (\<lambda>(r, bs, s).
          if r \<noteq> 16 then Inl (Panic ''dirlookup read'')
          else
            let de = get_dirent bs in
            if de_inum de = 0 then dirlookup_loop lim (off + 16) dp name s
            else
              rbind (namecmp name (de_name de)) (\<lambda>c.
                if c = 0
                then rbind (iget (i_dev (itable s dp)) (ucast (de_inum de)) s) (\<lambda>(ip, s).
                       Inr (Some (ip, off), s))
                else dirlookup_loop lim (off + 16) dp name s))
      else Inr (None, s))"
  by pat_completeness auto
termination
  by (relation "measure (\<lambda>(lim, off, dp, name, s). lim - off)") auto

declare dirlookup_loop.simps [simp del]

text \<open>\<^verbatim>\<open>dirlookup\<close> returns the inode together with the offset it stores in \<^verbatim>\<open>*poff\<close>.\<close>

definition dirlookup ::
  "nat \<Rightarrow> byte list \<Rightarrow> 'a fss_scheme \<Rightarrow> ((nat \<times> nat) option \<times> 'a fss_scheme) res" where
  "dirlookup dp name s =
     (if i_type (itable s dp) \<noteq> T_DIR then Inl (Panic ''dirlookup not DIR'')
      else dirlookup_loop (unat (i_size (itable s dp))) 0 dp name s)"

text \<open>The search of \<^verbatim>\<open>dirlink\<close> for an empty entry: its offset, or the size.\<close>

function dirlink_scan :: "nat \<Rightarrow> nat \<Rightarrow> nat \<Rightarrow> 'a fss_scheme \<Rightarrow> (nat \<times> 'a fss_scheme) res" where
  "dirlink_scan lim off dp s =
     (if off < lim
      then
        rbind (readi dp LocalDst (of_nat off) 16 s) (\<lambda>(r, bs, s).
          if r \<noteq> 16 then Inl (Panic ''dirlink read'')
          else if de_inum (get_dirent bs) = 0 then Inr (off, s)
          else dirlink_scan lim (off + 16) dp s)
      else Inr (off, s))"
  by pat_completeness auto
termination
  by (relation "measure (\<lambda>(lim, off, dp, s). lim - off)") auto

declare dirlink_scan.simps [simp del]

definition dirlink :: "nat \<Rightarrow> byte list \<Rightarrow> u32 \<Rightarrow> 'a fss_scheme \<Rightarrow> (int \<times> 'a fss_scheme) res" where
  "dirlink dp name inum s =
     rbind (dirlookup dp name s) (\<lambda>(r, s). case r of
       Some (ip, _) \<Rightarrow> rbind (iput ip s) (\<lambda>s. Inr (-1, s))
     | None \<Rightarrow>
         rbind (dirlink_scan (unat (i_size (itable s dp))) 0 dp s) (\<lambda>(off, s).
         rbind (strncpy (replicate DIRSIZ 0) name (int DIRSIZ)) (\<lambda>nm.
         rbind (writei dp (LocalSrc (dirent_bytes \<lparr>de_inum = ucast inum, de_name = nm\<rparr>)) (of_nat off) 16 s)
           (\<lambda>(r, s). if r \<noteq> 16 then Inr (-1, s) else Inr (0, s)))))"

subsection \<open>Paths\<close>

text \<open>The loops of \<^verbatim>\<open>skipelem\<close>: skip slashes; split off the characters up to a slash or the end.\<close>

fun skip_slashes :: "byte list \<Rightarrow> byte list res" where
  "skip_slashes [] = Inl OutOfBounds"
| "skip_slashes (c # cs) = (if c = 47 then skip_slashes cs else Inr (c # cs))"

fun path_elem :: "byte list \<Rightarrow> (byte list \<times> byte list) res" where
  "path_elem [] = Inl OutOfBounds"
| "path_elem (c # cs) =
     (if c \<noteq> 47 \<and> c \<noteq> 0 then rbind (path_elem cs) (\<lambda>(e, rest). Inr (c # e, rest))
      else Inr ([], c # cs))"

text \<open>\<^verbatim>\<open>skipelem\<close> returns the rest of the path and the buffer \<open>name\<close> after the copy.\<close>

definition skipelem :: "byte list \<Rightarrow> byte list \<Rightarrow> (byte list \<times> byte list) option res" where
  "skipelem path name =
     rbind (skip_slashes path) (\<lambda>path.
     rbind (aget path 0) (\<lambda>c.
       if c = 0 then Inr None
       else
         rbind (path_elem path) (\<lambda>(e, rest).
           let name = (if length e \<ge> DIRSIZ then put_bytes 0 (take DIRSIZ e) name
                       else put_bytes 0 (e @ [0]) name) in
           rbind (skip_slashes rest) (\<lambda>rest. Inr (Some (rest, name))))))"

lemma skip_slashes_length: "skip_slashes p = Inr q \<Longrightarrow> length q \<le> length p"
  by (induction p) (auto split: if_splits)

lemma path_elem_length: "path_elem p = Inr (e, q) \<Longrightarrow> length q + length e = length p"
  by (induction p arbitrary: e q) (auto simp: res_iff split: if_splits)

lemma skipelem_length: "skipelem p nm = Inr (Some (q, nm')) \<Longrightarrow> length q < length p"
proof -
  assume "skipelem p nm = Inr (Some (q, nm'))"
  then obtain p1 e r where p: "skip_slashes p = Inr p1" "p1 ! 0 \<noteq> 0" "p1 \<noteq> []" "path_elem p1 = Inr (e, r)"
    "skip_slashes r = Inr q"
    by (auto simp: skipelem_def res_iff Let_def split: if_splits)
  obtain c cs where c: "p1 = c # cs" using p(3) by (cases p1) auto
  have "c \<noteq> 47"
    using p(1) unfolding c by (induction p) (auto split: if_splits)
  then have "e \<noteq> []" using p(2,4) unfolding c by (auto simp: res_iff)
  then show ?thesis
    using skip_slashes_length [OF p(1)] skip_slashes_length [OF p(5)] path_elem_length [OF p(4)]
    by (cases e) auto
qed

function namex_loop ::
  "byte list \<Rightarrow> bool \<Rightarrow> byte list \<Rightarrow> nat \<Rightarrow> 'a fss_scheme \<Rightarrow> (nat option \<times> byte list \<times> 'a fss_scheme) res" where
  "namex_loop path nameiparent name ip s =
     rbind (skipelem path name) (\<lambda>r. case r of
       None \<Rightarrow>
         if nameiparent then rbind (iput ip s) (\<lambda>s. Inr (None, name, s)) else Inr (Some ip, name, s)
     | Some (path, name) \<Rightarrow>
         rbind (ilock ip s) (\<lambda>s.
           if i_type (itable s ip) \<noteq> T_DIR
           then rbind (iunlockput ip s) (\<lambda>s. Inr (None, name, s))
           else
             rbind (aget path 0) (\<lambda>c.
               if nameiparent \<and> c = 0
               then rbind (iunlock ip s) (\<lambda>s. Inr (Some ip, name, s))
               else
                 rbind (dirlookup ip name s) (\<lambda>(nxt, s). case nxt of
                   None \<Rightarrow> rbind (iunlockput ip s) (\<lambda>s. Inr (None, name, s))
                 | Some (nxt, _) \<Rightarrow>
                     rbind (iunlockput ip s) (\<lambda>s. namex_loop path nameiparent name nxt s)))))"
  by pat_completeness auto
termination
  by (relation "measure (\<lambda>(path, np, name, ip, s). length path)") (auto simp: skipelem_length)

declare namex_loop.simps [simp del]

definition namex ::
  "byte list \<Rightarrow> bool \<Rightarrow> byte list \<Rightarrow> 'a fss_scheme \<Rightarrow> (nat option \<times> byte list \<times> 'a fss_scheme) res" where
  "namex path nameiparent name s =
     rbind (aget path 0) (\<lambda>c.
     rbind (if c = 47 then iget ROOTDEV ROOTINO s
            else case cwd (myproc s) of None \<Rightarrow> Inl OutOfBounds | Some ip \<Rightarrow> Inr (ip, idup ip s)) (\<lambda>(ip, s).
     namex_loop path nameiparent name ip s))"

text \<open>The uninitialised local array \<^verbatim>\<open>name\<close> of \<^verbatim>\<open>namei\<close> is taken to be zero; it is written before it is read.\<close>

definition namei :: "byte list \<Rightarrow> 'a fss_scheme \<Rightarrow> (nat option \<times> 'a fss_scheme) res" where
  "namei path s =
     rbind (namex path False (replicate DIRSIZ 0) s) (\<lambda>(ip, _, s). Inr (ip, s))"

definition nameiparent ::
  "byte list \<Rightarrow> byte list \<Rightarrow> 'a fss_scheme \<Rightarrow> (nat option \<times> byte list \<times> 'a fss_scheme) res" where
  "nameiparent path name s = namex path True name s"

end
