(* ===== verification/Printf.thy ===== *)
theory Printf
  imports Kstate
begin

text \<open>
  \<^verbatim>\<open>kernel/printf.c\<close>: formatted console output. Variadic arguments are a list; taking one of
  another type or past the end is \<open>OutOfBounds\<close>, the undefined behaviour of \<^verbatim>\<open>va_arg\<close>. A call of
  \<^verbatim>\<open>panic\<close> is the outcome \<open>Panic\<close> of the callers; \<open>panic_output\<close> is what it prints.
\<close>

section \<open>Model\<close>

datatype parg = AInt u32 | APtr u64 | AStr "byte list option"

definition digits :: "byte list" where
  "digits = bytes ''0123456789abcdef''"

text \<open>
  The do-while loop of \<^verbatim>\<open>printint\<close> stores digits from the least significant one; \<open>buf\<close> is what
  it has stored in the array of 16 characters.
\<close>

function printint_loop :: "u32 \<Rightarrow> nat \<Rightarrow> byte list \<Rightarrow> byte list res" where
  "printint_loop x base buf =
     (if base < 2 then Inl Diverges
      else
        rbind (guard (length buf < 16) OutOfBounds) (\<lambda>_.
        rbind (aget digits (unat x mod base)) (\<lambda>c.
          let x = of_nat (unat x div base) in
          if x \<noteq> 0 then printint_loop x base (buf @ [c]) else Inr (buf @ [c]))))"
  by pat_completeness auto
termination
proof (relation "measure (\<lambda>(x, base, buf). unat x)")
  fix x :: u32 and base :: nat and buf :: "byte list" and y c xa
  assume "\<not> base < 2" and xa: "xa = of_nat (unat x div base)" "xa \<noteq> (0 :: u32)"
  then have "unat x div base \<noteq> 0" by (intro notI) simp
  then have "unat x div base < unat x" using \<open>\<not> base < 2\<close> by (cases "unat x = 0") auto
  moreover have "unat xa \<le> unat x div base" unfolding xa by (simp add: unat_of_nat)
  ultimately show "((xa, base, buf @ [c]), (x, base, buf)) \<in> measure (\<lambda>(x, base, buf). unat x)" by simp
qed simp

declare printint_loop.simps [simp del]

definition printint :: "u32 \<Rightarrow> nat \<Rightarrow> bool \<Rightarrow> 'a kern_scheme \<Rightarrow> 'a kern_scheme res" where
  "printint xx base sign s =
     (let neg = (sign \<and> sint xx < 0);
          x = (if neg then - xx else xx)
      in rbind (printint_loop x base []) (\<lambda>buf.
         rbind (if neg then rbind (guard (length buf < 16) OutOfBounds) (\<lambda>_. Inr (buf @ [45])) else Inr buf) (\<lambda>buf.
         Inr (fold (\<lambda>c. consputc (uint c)) (rev buf) s))))"

definition printptr :: "u64 \<Rightarrow> 'a kern_scheme \<Rightarrow> 'a kern_scheme" where
  "printptr x s =
     (let s = consputc 48 s; s = consputc 120 s in
      snd (fold (\<lambda>i (x, s). (push_bit 4 x, consputc (uint (digits ! unat (drop_bit 60 x))) s)) [0..<16] (x, s)))"

fun put_string :: "byte list \<Rightarrow> 'a kern_scheme \<Rightarrow> 'a kern_scheme res" where
  "put_string [] s = Inl OutOfBounds"
| "put_string (c # cs) s = (if c \<noteq> 0 then put_string cs (consputc (uint c) s) else Inr s)"

definition null_string :: "byte list" where
  "null_string = bytes ''(null)'' @ [0]"

fun printf_arg :: "byte \<Rightarrow> parg list \<Rightarrow> 'a kern_scheme \<Rightarrow> (parg list \<times> 'a kern_scheme) res" where
  "printf_arg c args s =
     (if c = 100 then case args of AInt x # args \<Rightarrow> rbind (printint x 10 True s) (\<lambda>s. Inr (args, s)) | _ \<Rightarrow> Inl OutOfBounds
      else if c = 120 then case args of AInt x # args \<Rightarrow> rbind (printint x 16 True s) (\<lambda>s. Inr (args, s)) | _ \<Rightarrow> Inl OutOfBounds
      else if c = 112 then case args of APtr x # args \<Rightarrow> Inr (args, printptr x s) | _ \<Rightarrow> Inl OutOfBounds
      else if c = 115 then case args of
          AStr p # args \<Rightarrow>
            rbind (put_string (case p of None \<Rightarrow> null_string | Some t \<Rightarrow> t) s) (\<lambda>s. Inr (args, s))
        | _ \<Rightarrow> Inl OutOfBounds
      else if c = 37 then Inr (args, consputc 37 s)
      else Inr (args, consputc (uint c) (consputc 37 s)))"

declare printf_arg.simps [simp del]

fun printf :: "byte list \<Rightarrow> parg list \<Rightarrow> 'a kern_scheme \<Rightarrow> 'a kern_scheme res" where
  "printf [] args s = Inl OutOfBounds"
| "printf (c # fmt) args s =
     (if c = 0 then Inr s
      else if c \<noteq> 37 then printf fmt args (consputc (uint c) s)
      else case fmt of
          [] \<Rightarrow> Inl OutOfBounds
        | c # fmt \<Rightarrow>
            if c = 0 then Inr s
            else rbind (printf_arg c args s) (\<lambda>(args, s). printf fmt args s))"

definition panic_output :: "byte list \<Rightarrow> 'a kern_scheme \<Rightarrow> 'a kern_scheme res" where
  "panic_output msg s =
     rbind (printf (bytes ''panic: '' @ [0]) [] s) (\<lambda>s.
     rbind (printf msg [] s) (\<lambda>s.
     printf [10, 0] [] s))"

section \<open>Numbers\<close>

text \<open>The value of a list of digits, least significant first.\<close>

definition digit_val :: "byte \<Rightarrow> nat" where
  "digit_val c = (if 48 \<le> unat c \<and> unat c \<le> 57 then unat c - 48 else unat c - 87)"

primrec digits_val :: "nat \<Rightarrow> byte list \<Rightarrow> nat" where
  "digits_val base [] = 0"
| "digits_val base (c # cs) = digit_val c + base * digits_val base cs"

lemma length_digits [simp]: "length digits = 16"
  by (simp add: digits_def bytes_def)

lemma digit_val_digits: "i < 16 \<Longrightarrow> digit_val (digits ! i) = i"
proof -
  have "list_all (\<lambda>i. digit_val (digits ! i) = i) [0..<16]"
    by (simp add: digits_def bytes_def digit_val_def upt_rec)
  then show "digit_val (digits ! i) = i" if "i < 16" using that by (auto simp: list_all_iff)
qed

lemma digits_val_append: "digits_val b (xs @ ys) = digits_val b xs + b ^ length xs * digits_val b ys"
  by (induction xs) (simp_all add: algebra_simps)

lemma unat_div: "unat (of_nat (unat (x :: u32) div b) :: u32) = unat x div b"
proof (rule unat_of_nat_id)
  have "unat x div b \<le> unat x" by simp
  also have "\<dots> < 2 ^ LENGTH(32)" by (rule unsigned_less)
  finally show "unat x div b < 2 ^ LENGTH(32)" .
qed

lemma of_nat_div_0: "(of_nat (unat (x :: u32) div b) = (0 :: u32)) \<longleftrightarrow> unat x div b = 0"
proof
  assume "of_nat (unat x div b) = (0 :: u32)"
  then have "unat (of_nat (unat x div b) :: u32) = unat (0 :: u32)" by (rule arg_cong)
  then show "unat x div b = 0" by (simp only: unat_div unsigned_0)
qed simp

lemma printint_loop_ok:
  assumes "2 \<le> base" and "base \<le> 16" and "unat x < base ^ k" and "0 < k" and "length buf + k \<le> 16"
  shows "\<exists>ds. printint_loop x base buf = Inr (buf @ ds) \<and> digits_val base ds = unat x
    \<and> length ds \<le> k \<and> ds \<noteq> [] \<and> set ds \<subseteq> (!) digits ` {..<base}"
  using assms
proof (induction k arbitrary: x buf)
  case (Suc k)
  let ?c = "digits ! (unat x mod base)" and ?x = "of_nat (unat x div base) :: u32"
  have c: "digit_val ?c = unat x mod base" using Suc.prems by (simp add: digit_val_digits order.strict_trans2 [OF mod_less_divisor])
  have m16: "unat x mod base < 16" using Suc.prems by (simp add: order.strict_trans2 [OF mod_less_divisor])
  show ?case
  proof (cases "unat x div base = 0")
    case True
    then have "?x = 0" by simp
    then have "printint_loop x base buf = Inr (buf @ [?c])"
      using Suc.prems m16 by (subst printint_loop.simps) (simp add: Let_def)
    moreover have "unat x mod base = unat x" using True Suc.prems(1) by (simp add: div_eq_0_iff)
    moreover have "?c \<in> (!) digits ` {..<base}" using Suc.prems by auto
    ultimately show ?thesis using c Suc.prems by (auto intro!: exI [of _ "[?c]"])
  next
    case False
    have k: "0 < k"
    proof (rule ccontr)
      assume "\<not> 0 < k"
      then show False using Suc.prems(3) False by simp
    qed
    have "unat ?x < base ^ k" unfolding unat_div using Suc.prems(1,3) by (simp add: less_mult_imp_div_less mult.commute)
    from Suc.IH [OF Suc.prems(1,2) this k, of "buf @ [?c]"] Suc.prems(5)
    obtain ds where ds: "printint_loop ?x base (buf @ [?c]) = Inr ((buf @ [?c]) @ ds)" "digits_val base ds = unat x div base"
      "length ds \<le> k" "ds \<noteq> []" "set ds \<subseteq> (!) digits ` {..<base}" by (auto simp: unat_div)
    have "?x \<noteq> 0" using False of_nat_div_0 by metis
    then have "printint_loop x base buf = Inr (buf @ ?c # ds)"
      using Suc.prems m16 ds(1) by (subst printint_loop.simps) (simp add: Let_def)
    moreover have "digits_val base (?c # ds) = unat x" using ds(2) c by simp
    moreover have "?c \<in> (!) digits ` {..<base}" using Suc.prems by auto
    ultimately show ?thesis using ds by (intro exI [of _ "?c # ds"]) auto
  qed
qed simp

lemma printint_bases: "unat (x :: u32) < 10 ^ 10" "unat (x :: u32) < 16 ^ 8"
  using unsigned_less [of x, where ?'a = nat] by simp_all





end
