(* ===== verification/Sched.thy ===== *)
theory Sched
  imports Printf
begin

text \<open>
  The part of \<^verbatim>\<open>kernel/proc.c\<close> that works on the process table alone: scheduling, sleeping and
  waking, killing, process ids, and the listing of processes. Sections under \<^verbatim>\<open>p->lock\<close> are
  atomic steps, so the tests of \<^verbatim>\<open>sched\<close> on the lock and the interrupt state of the CPU are
  about states that do not arise here; its test of the process state is kept. \<^verbatim>\<open>swtch\<close> splits
  a function in two: what runs before the switch, and what runs when the process is resumed.
\<close>

section \<open>Model\<close>

definition procinit :: "'a kern_scheme \<Rightarrow> 'a kern_scheme" where
  "procinit s = fold (\<lambda>p. upd_proc p (\<lambda>x. x\<lparr>pstate := UNUSED, kstack := KSTACK p\<rparr>)) [0..<NPROC] s"

definition allocpid :: "'a kern_scheme \<Rightarrow> int \<times> 'a kern_scheme" where
  "allocpid s = (nextpid s, s\<lparr>nextpid := nextpid s + 1\<rparr>)"

definition setkilled :: "nat \<Rightarrow> 'a kern_scheme \<Rightarrow> 'a kern_scheme" where
  "setkilled p s = upd_proc p (\<lambda>x. x\<lparr>pkilled := 1\<rparr>) s"

definition killed :: "nat \<Rightarrow> 'a kern_scheme \<Rightarrow> int" where
  "killed p s = pkilled (procs s p)"

primrec kill_loop :: "int \<Rightarrow> nat list \<Rightarrow> 'a kern_scheme \<Rightarrow> int \<times> 'a kern_scheme" where
  "kill_loop k [] s = (-1, s)"
| "kill_loop k (p # ps) s =
     (if pid (procs s p) = k
      then (0, upd_proc p (\<lambda>x. let x = x\<lparr>pkilled := 1\<rparr> in
              if pstate x = SLEEPING then x\<lparr>pstate := RUNNABLE\<rparr> else x) s)
      else kill_loop k ps s)"

definition kill :: "int \<Rightarrow> 'a kern_scheme \<Rightarrow> int \<times> 'a kern_scheme" where
  "kill k s = kill_loop k [0..<NPROC] s"

definition reparent :: "nat \<Rightarrow> 'a kern_scheme \<Rightarrow> 'a kern_scheme" where
  "reparent p s =
     fold (\<lambda>pp s. if parent (procs s pp) = Some p
       then wakeup (ChProc (initproc s)) (upd_proc pp (\<lambda>x. x\<lparr>parent := Some (initproc s)\<rparr>) s)
       else s) [0..<NPROC] s"

text \<open>The CPU leaves the process: its context is saved and the scheduler continues.\<close>

definition sched :: "'a kern_scheme \<Rightarrow> 'a kern_scheme res" where
  "sched s =
     (if pstate (myproc s) = RUNNING then Inl (Panic ''sched running'')
      else Inr (upd_proc (cur s) (\<lambda>x. x\<lparr>pcontext := (pcontext x)\<lparr>ctx_ra := AfterSwtch\<rparr>\<rparr>) s))"

definition yield :: "'a kern_scheme \<Rightarrow> 'a kern_scheme res" where
  "yield s = sched (upd_proc (cur s) (\<lambda>x. x\<lparr>pstate := RUNNABLE\<rparr>) s)"

definition sleep_enter :: "chan \<Rightarrow> 'a kern_scheme \<Rightarrow> 'a kern_scheme res" where
  "sleep_enter ch s = sched (upd_proc (cur s) (\<lambda>x. x\<lparr>pchan := Some ch, pstate := SLEEPING\<rparr>) s)"

definition sleep_return :: "'a kern_scheme \<Rightarrow> 'a kern_scheme" where
  "sleep_return s = upd_proc (cur s) (\<lambda>x. x\<lparr>pchan := None\<rparr>) s"

text \<open>The body of the scheduler's loop for one process, up to the switch and after it.\<close>

definition scheduler_enter :: "nat \<Rightarrow> 'a kern_scheme \<Rightarrow> 'a kern_scheme" where
  "scheduler_enter p s =
     (if pstate (procs s p) = RUNNABLE then (upd_proc p (\<lambda>x. x\<lparr>pstate := RUNNING\<rparr>) s)\<lparr>cur := p\<rparr> else s)"

definition scheduler_resume :: "'a kern_scheme \<Rightarrow> 'a kern_scheme" where
  "scheduler_resume s = s\<lparr>cur := NPROC\<rparr>"

definition state_name :: "procstate \<Rightarrow> string" where
  "state_name st = (case st of
     UNUSED \<Rightarrow> ''unused'' | USED \<Rightarrow> ''used'' | SLEEPING \<Rightarrow> ''sleep '' | RUNNABLE \<Rightarrow> ''runble''
   | RUNNING \<Rightarrow> ''run   '' | ZOMBIE \<Rightarrow> ''zombie'')"

definition procdump :: "'a kern_scheme \<Rightarrow> 'a kern_scheme res" where
  "procdump s =
     rbind (printf [10, 0] [] s) (\<lambda>s.
     rfold (\<lambda>p s.
       if pstate (procs s p) = UNUSED then Inr s
       else
         rbind (printf (bytes ''%d %s %s'' @ [0])
             [AInt (of_int (pid (procs s p))),
              AStr (Some (bytes (state_name (pstate (procs s p))) @ [0])),
              AStr (Some (pname (procs s p)))] s) (\<lambda>s.
         printf [10, 0] [] s)) [0..<NPROC] s)"

section \<open>The scheduler as a state machine\<close>

text \<open>
  One CPU: the kernel state and the process the scheduler's loop is at. While a process runs
  it may wake others, kill, give up the CPU, go to sleep or end; interrupts wake processes at any time.
\<close>

inductive sstep :: "kern \<times> nat \<Rightarrow> kern \<times> nat \<Rightarrow> bool" where
  pick: "cur s = NPROC \<Longrightarrow> pstate (procs s p) = RUNNABLE \<Longrightarrow> sstep (s, p) (scheduler_enter p s, p)"
| skip: "cur s = NPROC \<Longrightarrow> pstate (procs s p) \<noteq> RUNNABLE \<Longrightarrow> sstep (s, p) (s, Suc p mod NPROC)"
| yields: "cur s < NPROC \<Longrightarrow> yield s = Inr s' \<Longrightarrow> sstep (s, p) (scheduler_resume s', Suc p mod NPROC)"
| sleeps: "cur s < NPROC \<Longrightarrow> sleep_enter ch s = Inr s' \<Longrightarrow> sstep (s, p) (scheduler_resume s', Suc p mod NPROC)"
| ends: "cur s < NPROC \<Longrightarrow> sched (upd_proc (cur s) (\<lambda>x. x\<lparr>xstate := n, pstate := ZOMBIE\<rparr>) s) = Inr s' \<Longrightarrow>
    sstep (s, p) (scheduler_resume s', Suc p mod NPROC)"
| wakes_up: "sstep (s, p) (wakeup ch s, p)"
| kills: "cur s < NPROC \<Longrightarrow> kill k s = (r, s') \<Longrightarrow> sstep (s, p) (s', p)"

inductive_cases sstepE: "sstep (s, p) (s', p')"

definition sinv :: "kern \<times> nat \<Rightarrow> bool" where
  "sinv c \<longleftrightarrow> snd c < NPROC
     \<and> (cur (fst c) = NPROC \<or> cur (fst c) = snd c)
     \<and> (\<forall>q<NPROC. pstate (procs (fst c) q) = RUNNING \<longleftrightarrow> q = cur (fst c))"

lemma upd_proc_simps [simp]:
  "procs (upd_proc p f s) = (procs s)(p := f (procs s p))" "cur (upd_proc p f s) = cur s"
  "kout (upd_proc p f s) = kout s" "initproc (upd_proc p f s) = initproc s"
  by (simp_all add: upd_proc_def)

lemma kill_loop_cases:
  "kill_loop k ps s = (r, s') \<Longrightarrow>
     s' = s \<and> r = -1 \<and> (\<forall>p\<in>set ps. pid (procs s p) \<noteq> k)
   \<or> r = 0 \<and> (\<exists>p\<in>set ps. pid (procs s p) = k \<and> s' = upd_proc p (\<lambda>x. let x = x\<lparr>pkilled := 1\<rparr> in
        if pstate x = SLEEPING then x\<lparr>pstate := RUNNABLE\<rparr> else x) s)"
  by (induction ps) (auto split: if_splits)

lemma pstate_woken:
  "pstate (woken ch c P q) = RUNNING \<longleftrightarrow> pstate (P q) = RUNNING"
  "pstate (P q) = RUNNABLE \<Longrightarrow> pstate (woken ch c P q) = RUNNABLE"
  by (auto simp: woken_def)

lemma kill_states:
  assumes "kill k s = (r, s')"
  shows "cur s' = cur s" and "pstate (procs s' q) = RUNNING \<longleftrightarrow> pstate (procs s q) = RUNNING"
    and "pstate (procs s q) = RUNNABLE \<Longrightarrow> pstate (procs s' q) = RUNNABLE"
proof -
  from kill_loop_cases [OF assms [unfolded kill_def]]
  have c: "s' = s \<or> (\<exists>p. s' = upd_proc p (\<lambda>x. let x = x\<lparr>pkilled := 1\<rparr> in
        if pstate x = SLEEPING then x\<lparr>pstate := RUNNABLE\<rparr> else x) s)" by blast
  then show "cur s' = cur s" by auto
  from c show "pstate (procs s' q) = RUNNING \<longleftrightarrow> pstate (procs s q) = RUNNING"
    by (auto simp: Let_def split: if_splits)
  from c show "pstate (procs s q) = RUNNABLE \<Longrightarrow> pstate (procs s' q) = RUNNABLE"
    by (auto simp: Let_def)
qed

lemma leave_states:
  assumes "sched (upd_proc (cur s) f s) = Inr s'"
  shows "procs s' q = (if q = cur s then (f (procs s q))\<lparr>pcontext := (pcontext (f (procs s q)))\<lparr>ctx_ra := AfterSwtch\<rparr>\<rparr>
      else procs s q)"
    and "pstate (f (procs s (cur s))) \<noteq> RUNNING"
  using assms by (auto simp: sched_def myproc_def split: if_splits)

lemmas leave_defs = yield_def sleep_enter_def

lemma sinv_leave:
  assumes i: "sinv (s, p)" and c: "cur s < NPROC" and s': "sched (upd_proc (cur s) f s) = Inr s'"
  shows "sinv (scheduler_resume s', Suc p mod NPROC)"
proof -
  note L = leave_states [OF s']
  have "pstate (procs s' q) \<noteq> RUNNING" if q: "q < NPROC" for q
  proof (cases "q = cur s")
    case True
    then show ?thesis using L(1) [of q] L(2) by simp
  next
    case False
    then show ?thesis using L(1) [of q] i q by (simp add: sinv_def)
  qed
  then show ?thesis using i by (auto simp: sinv_def scheduler_resume_def)
qed

lemma sstep_inv: "sstep c c' \<Longrightarrow> sinv c \<Longrightarrow> sinv c'"
proof (induction rule: sstep.induct)
  case (wakes_up s p ch)
  then show ?case by (simp add: sinv_def wakeup_procs pstate_woken)
next
  case (kills s k r s' p)
  then show ?case using kill_states [OF kills(2)] by (simp add: sinv_def)
next
  case (yields s s' p)
  then show ?case using sinv_leave by (simp add: leave_defs)
next
  case (sleeps s ch s' p)
  then show ?case using sinv_leave by (simp add: leave_defs)
next
  case (ends s n s' p)
  then show ?case using sinv_leave by simp
qed (auto simp: sinv_def scheduler_enter_def)

inductive sreach :: "kern \<times> nat \<Rightarrow> kern \<times> nat \<Rightarrow> bool" where
  refl: "sreach c c"
| step: "sreach c c' \<Longrightarrow> sstep c' c'' \<Longrightarrow> sreach c c''"


definition boot_sched :: "kern \<times> nat" where
  "boot_sched = (boot_kern\<lparr>procs := (\<lambda>_. zero_proc)(5 := zero_proc\<lparr>pid := 1, pstate := RUNNABLE\<rparr>), cur := NPROC\<rparr>, 5)"

lemma boot_sched_inv: "sinv boot_sched"
  by (simp add: sinv_def boot_sched_def zero_proc_def)

lemma boot_sched_runs: "sreach boot_sched (scheduler_enter 5 (fst boot_sched), 5)"
proof -
  have "sstep boot_sched (scheduler_enter 5 (fst boot_sched), 5)"
    unfolding boot_sched_def fst_conv by (rule sstep.pick) (simp_all add: zero_proc_def)
  then show ?thesis by (rule sreach.step [OF sreach.refl])
qed


section \<open>Fairness\<close>

text \<open>Executions in which \<open>p\<close> is not dispatched, with the number of times the loop has moved on.\<close>

inductive waits :: "nat \<Rightarrow> nat \<Rightarrow> kern \<times> nat \<Rightarrow> kern \<times> nat \<Rightarrow> bool" for p where
  start: "waits p 0 c c"
| stay: "waits p n c (s, q) \<Longrightarrow> sstep (s, q) (s', q) \<Longrightarrow> cur s' \<noteq> p \<Longrightarrow> waits p n c (s', q)"
| moves: "waits p n c (s, q) \<Longrightarrow> sstep (s, q) (s', q') \<Longrightarrow> q' = Suc q mod NPROC \<Longrightarrow> cur s' \<noteq> p \<Longrightarrow>
    waits p (Suc n) c (s', q')"

text \<open>Only being dispatched takes a process out of the state \<^verbatim>\<open>RUNNABLE\<close>.\<close>

lemma leave_runnable:
  assumes "sinv (s, q)" and "p < NPROC" and "pstate (procs s p) = RUNNABLE" and "cur s < NPROC"
    and "sched (upd_proc (cur s) f s) = Inr s'"
  shows "pstate (procs (scheduler_resume s') p) = RUNNABLE"
proof -
  have "p \<noteq> cur s" using assms(1-3) unfolding sinv_def by (metis fst_conv procstate.distinct(25))
  then show ?thesis using leave_states(1) [OF assms(5), of p] assms(3) by (simp add: scheduler_resume_def)
qed

lemma runnable_kept:
  assumes st: "sstep (s, q) (s', q')" and inv: "sinv (s, q)" and p: "p < NPROC"
    and r: "pstate (procs s p) = RUNNABLE" and np: "cur s' \<noteq> p"
  shows "pstate (procs s' p) = RUNNABLE"
  using st
proof (cases rule: sstep.cases)
  case pick
  then show ?thesis using r np by (auto simp: scheduler_enter_def)
next
  case (yields s2)
  then show ?thesis using leave_runnable [OF inv p r] by (auto simp: leave_defs)
next
  case (sleeps ch s2)
  then show ?thesis using leave_runnable [OF inv p r] by (auto simp: leave_defs)
next
  case (ends n s2)
  then show ?thesis using leave_runnable [OF inv p r] by auto
next
  case (wakes_up ch)
  then show ?thesis using r by (simp add: wakeup_procs pstate_woken)
next
  case (kills k r2)
  then show ?thesis using kill_states(3) r by blast
qed (use r in auto)

text \<open>The distance of the loop from \<open>p\<close>.\<close>

definition dist :: "nat \<Rightarrow> nat \<Rightarrow> nat" where
  "dist p q = (p + NPROC - q) mod NPROC"

lemma dist_Suc: "p < NPROC \<Longrightarrow> q < NPROC \<Longrightarrow> p \<noteq> q \<Longrightarrow> Suc (dist p (Suc q mod NPROC)) = dist p q"
proof -
  assume a: "p < NPROC" "q < NPROC" "p \<noteq> q"
  show ?thesis
  proof (cases "Suc q = NPROC")
    case True
    then have "q = 63" by simp
    then show ?thesis using a by (simp add: dist_def mod_if)
  next
    case False
    then show ?thesis using a by (auto simp: dist_def mod_if)
  qed
qed

lemma moves_past:
  assumes st: "sstep (s, q) (s', Suc q mod NPROC)" and inv: "sinv (s, q)" and p: "p < NPROC"
    and r: "pstate (procs s p) = RUNNABLE"
  shows "p \<noteq> q"
proof -
  have q: "q < NPROC" using inv by (simp add: sinv_def)
  have ne: "Suc q mod NPROC \<noteq> q" using q by (simp add: mod_if)
  have "cur s \<noteq> p \<or> cur s = NPROC"
    using inv p r unfolding sinv_def by (metis fst_conv procstate.distinct(25))
  with st ne show ?thesis
    using inv r p by (cases rule: sstep.cases) (auto simp: sinv_def)
qed

lemma waits_inv:
  assumes "waits p n c c'" and "sinv c" and "p < NPROC" and "pstate (procs (fst c) p) = RUNNABLE"
  shows "sinv c' \<and> pstate (procs (fst c') p) = RUNNABLE \<and> n + dist p (snd c') = dist p (snd c)"
  using assms
proof (induction rule: waits.induct)
  case (start c)
  then show ?case by simp
next
  case (stay n c s q s')
  then have i: "sinv (s, q)" "pstate (procs s p) = RUNNABLE" "n + dist p q = dist p (snd c)" by auto
  then show ?case using sstep_inv [OF stay(2) i(1)] runnable_kept [OF stay(2) i(1) stay.prems(2) i(2) stay(3)] by simp
next
  case (moves n c s q s' q')
  then have i: "sinv (s, q)" "pstate (procs s p) = RUNNABLE" "n + dist p q = dist p (snd c)" by auto
  have "p \<noteq> q" using moves_past [OF _ i(1) moves.prems(2) i(2)] moves(2,3) by blast
  then have "Suc (dist p q') = dist p q"
    using dist_Suc [of p q] moves(3) moves.prems(2) i(1) by (simp add: sinv_def)
  then show ?case
    using sstep_inv [OF moves(2) i(1)] runnable_kept [OF moves(2) i(1) moves.prems(2) i(2) moves(4)] i(3) by simp
qed



end
