(* ===== verification/RingBuf.thy ===== *)
theory RingBuf
  imports Prelude
begin

text \<open>
  Ring buffers with free-running counters, as in \<^verbatim>\<open>pipe.c\<close>, \<^verbatim>\<open>console.c\<close> and \<^verbatim>\<open>uart.c\<close>: the
  element with number \<open>i\<close> is at index \<open>i\<close> modulo the size, and the counters wrap around at the
  width of their type, a multiple of the size. The locale \<open>byte_queue\<close> is what the clients
  rely on.
\<close>

section \<open>The interface\<close>

locale byte_queue =
  fixes inv :: "'q \<Rightarrow> bool" and contents :: "'q \<Rightarrow> byte list" and cap :: nat
    and is_empty :: "'q \<Rightarrow> bool" and is_full :: "'q \<Rightarrow> bool"
    and put :: "byte \<Rightarrow> 'q \<Rightarrow> 'q" and get :: "'q \<Rightarrow> byte \<times> 'q"
  assumes empty_iff: "inv q \<Longrightarrow> is_empty q \<longleftrightarrow> contents q = []"
    and full_iff: "inv q \<Longrightarrow> is_full q \<longleftrightarrow> length (contents q) = cap"
    and len_le: "inv q \<Longrightarrow> length (contents q) \<le> cap"
    and put_inv: "inv q \<Longrightarrow> \<not> is_full q \<Longrightarrow> inv (put c q)"
    and put_contents: "inv q \<Longrightarrow> \<not> is_full q \<Longrightarrow> contents (put c q) = contents q @ [c]"
    and get_inv: "inv q \<Longrightarrow> \<not> is_empty q \<Longrightarrow> inv (snd (get q))"
    and get_contents: "inv q \<Longrightarrow> \<not> is_empty q \<Longrightarrow> contents q = fst (get q) # contents (snd (get q))"
begin

lemma put_all:
  "inv q \<Longrightarrow> length (contents q) + length cs \<le> cap \<Longrightarrow>
   inv (fold put cs q) \<and> contents (fold put cs q) = contents q @ cs"
proof (induction cs arbitrary: q)
  case (Cons c cs)
  have nf: "\<not> is_full q" using Cons.prems full_iff by simp
  have "inv (put c q)" "contents (put c q) = contents q @ [c]"
    using put_inv [OF Cons.prems(1) nf] put_contents [OF Cons.prems(1) nf] by simp_all
  with Cons.IH [of "put c q"] Cons.prems(2) show ?case by simp
qed simp

fun get_n :: "nat \<Rightarrow> 'q \<Rightarrow> byte list \<times> 'q" where
  "get_n 0 q = ([], q)"
| "get_n (Suc n) q = (case get q of (c, q) \<Rightarrow> case get_n n q of (cs, q) \<Rightarrow> (c # cs, q))"

lemma get_all:
  "inv q \<Longrightarrow> n \<le> length (contents q) \<Longrightarrow>
   fst (get_n n q) = take n (contents q) \<and> inv (snd (get_n n q))
   \<and> contents (snd (get_n n q)) = drop n (contents q)"
proof (induction n arbitrary: q)
  case (Suc n)
  have ne: "\<not> is_empty q" using Suc.prems empty_iff by auto
  have c: "contents q = fst (get q) # contents (snd (get q))" using get_contents [OF Suc.prems(1) ne] .
  with Suc.prems(2) have "n \<le> length (contents (snd (get q)))" by simp
  from Suc.IH [OF get_inv [OF Suc.prems(1) ne] this] show ?case
    using c by (auto simp: case_prod_beta)
qed simp

lemma fifo:
  assumes "inv q" and "contents q = []" and "length cs \<le> cap"
  shows "fst (get_n (length cs) (fold put cs q)) = cs"
  using put_all [of q cs] get_all [of "fold put cs q" "length cs"] assms by simp

end

section \<open>Counters modulo the size\<close>

definition ring_contents :: "nat \<Rightarrow> byte list \<Rightarrow> 'a::len word \<Rightarrow> 'a word \<Rightarrow> byte list" where
  "ring_contents n d r w = map (\<lambda>i. d ! ((unat r + i) mod n)) [0..<unat (w - r)]"

definition ring_ok :: "nat \<Rightarrow> byte list \<Rightarrow> 'a::len word \<Rightarrow> 'a word \<Rightarrow> bool" where
  "ring_ok n d r w \<longleftrightarrow> length d = n \<and> unat (w - r) \<le> n"

lemma length_ring_contents [simp]: "length (ring_contents n d r w) = unat (w - r)"
  by (simp add: ring_contents_def)

lemma ring_index:
  fixes r w :: "'a::len word"
  assumes "n dvd 2 ^ LENGTH('a)"
  shows "(unat r + unat (w - r)) mod n = unat w mod n"
proof -
  have "unat w = (unat r + unat (w - r)) mod 2 ^ LENGTH('a)"
    using unat_word_ariths(1) [of r "w - r"] by simp
  then show ?thesis using assms by (simp add: mod_mod_cancel)
qed

lemma unat_Suc_diff:
  fixes r w :: "'a::len word"
  assumes "unat (w - r) < n" and "n < 2 ^ LENGTH('a)"
  shows "unat (w + 1 - r) = Suc (unat (w - r))"
proof -
  have "w + 1 - r = 1 + (w - r)" by simp
  moreover have "unat (1 + (w - r)) = Suc (unat (w - r))"
    by (rule unatSuc) (use assms in \<open>auto simp: unat_eq_0 [symmetric] unat_word_ariths\<close>)
  ultimately show ?thesis by (simp only:)
qed

lemma ring_put:
  fixes r w :: "'a::len word"
  assumes ok: "ring_ok n d r w" and nf: "unat (w - r) \<noteq> n" and n: "n dvd 2 ^ LENGTH('a)" "n < 2 ^ LENGTH('a)"
  shows "ring_ok n (d[unat w mod n := c]) r (w + 1)"
    and "ring_contents n (d[unat w mod n := c]) r (w + 1) = ring_contents n d r w @ [c]"
proof -
  let ?k = "unat (w - r)"
  have k: "?k < n" and l: "length d = n" using ok nf by (auto simp: ring_ok_def)
  have s: "unat (w + 1 - r) = Suc ?k" using unat_Suc_diff [OF k n(2)] .
  show "ring_ok n (d[unat w mod n := c]) r (w + 1)" using k l s by (simp add: ring_ok_def)
  have ix: "(unat r + ?k) mod n = unat w mod n" by (rule ring_index [OF n(1)])
  have "unat w mod n \<noteq> (unat r + i) mod n" if "i < ?k" for i
  proof
    assume "unat w mod n = (unat r + i) mod n"
    then have "(unat r + i) mod n = (unat r + ?k) mod n" using ix by simp
    then have "(unat r + ?k - (unat r + i)) mod n = 0" using that by (metis mod_eq_dvd_iff_nat add_le_cancel_left less_imp_le dvd_imp_mod_0)
    then have "(?k - i) mod n = 0" by simp
    then show False using that k by simp
  qed
  then have "map (\<lambda>i. d[unat w mod n := c] ! ((unat r + i) mod n)) [0..<?k]
      = map (\<lambda>i. d ! ((unat r + i) mod n)) [0..<?k]" by auto
  moreover have "d[unat w mod n := c] ! ((unat r + ?k) mod n) = c" using ix l k by simp
  ultimately show "ring_contents n (d[unat w mod n := c]) r (w + 1) = ring_contents n d r w @ [c]"
    by (simp add: ring_contents_def s)
qed

lemma ring_get:
  fixes r w :: "'a::len word"
  assumes ok: "ring_ok n d r w" and ne: "r \<noteq> w" and n: "n dvd 2 ^ LENGTH('a)" "n < 2 ^ LENGTH('a)"
  shows "ring_ok n d (r + 1) w"
    and "ring_contents n d r w = d ! (unat r mod n) # ring_contents n d (r + 1) w"
proof -
  let ?k = "unat (w - (r + 1))"
  have k: "unat (w - r) = Suc ?k"
  proof -
    have e: "1 + (w - (r + 1)) = w - r" by simp
    then have "1 + (w - (r + 1)) \<noteq> 0" using ne by simp
    from unatSuc [OF this] show ?thesis unfolding e .
  qed
  show "ring_ok n d (r + 1) w" using ok k by (simp add: ring_ok_def)
  have ix: "(unat (r + 1) + i) mod n = (unat r + Suc i) mod n" for i
  proof -
    have "unat (r + 1) mod n = (unat r + 1) mod n"
      using n(1) by (simp add: unat_word_ariths mod_mod_cancel)
    then show ?thesis by (metis add.assoc mod_add_left_eq plus_1_eq_Suc)
  qed
  show "ring_contents n d r w = d ! (unat r mod n) # ring_contents n d (r + 1) w"
    unfolding ring_contents_def k ix upt_conv_Cons [OF zero_less_Suc] by (simp add: map_Suc_upt [symmetric] del: upt_Suc)
qed

end
