(* ===== verification/Console.thy ===== *)
theory Console
  imports Fs Sched RingBuf
begin

text \<open>
  \<^verbatim>\<open>kernel/uart.c\<close> and \<^verbatim>\<open>kernel/console.c\<close>: the serial line and the console on top of it. The
  UART is seen through its registers: \<open>uart_regs\<close> holds what \<^verbatim>\<open>uartinit\<close> writes, \<open>uart_rx\<close> the bytes that
  have arrived (\<open>LSR_RX_READY\<close> is set when there is one, reading \<open>RHR\<close> takes it), \<open>tx_room\<close> is
  the number of bytes the transmitter accepts before \<open>LSR_TX_IDLE\<close> reads 0, and a byte written
  to \<open>THR\<close> goes to \<open>kout\<close>. A full transmit buffer and an empty input buffer are the outcomes
  \<open>Sleeps ChUart\<close> and \<open>Sleeps ChConsole\<close>.
\<close>

section \<open>Model\<close>

datatype devfn = ConsoleRead | ConsoleWrite

record devst = fss +
  uart_regs :: "nat \<Rightarrow> byte"
  uart_rx :: "byte list"
  tx_room :: nat
  uart_tx_buf :: "byte list"
  uart_tx_w :: u64
  uart_tx_r :: u64
  cons_buf :: "byte list"
  cons_r :: u32
  cons_w :: u32
  cons_e :: u32
  devsw :: "nat \<Rightarrow> devfn option \<times> devfn option"

definition UART_TX_BUF_SIZE :: nat where [simp]: "UART_TX_BUF_SIZE = 32"
definition INPUT_BUF_SIZE :: nat where [simp]: "INPUT_BUF_SIZE = 128"
definition CONSOLE :: nat where [simp]: "CONSOLE = 1"

subsection \<open>UART\<close>

definition WriteReg :: "nat \<Rightarrow> byte \<Rightarrow> 'a devst_scheme \<Rightarrow> 'a devst_scheme" where
  "WriteReg r v s = s\<lparr>uart_regs := (uart_regs s)(r := v)\<rparr>"

definition uartinit :: "'a devst_scheme \<Rightarrow> 'a devst_scheme" where
  "uartinit s =
     (let s = WriteReg 1 0x00 s;
          s = WriteReg 3 0x80 s;
          s = WriteReg 0 0x03 s;
          s = WriteReg 1 0x00 s;
          s = WriteReg 3 0x03 s;
          s = WriteReg 2 (0x01 OR 0x06) s
      in WriteReg 1 (0x02 OR 0x01) s)"

definition tx_get :: "'a devst_scheme \<Rightarrow> byte \<times> 'a devst_scheme" where
  "tx_get s = (uart_tx_buf s ! (unat (uart_tx_r s) mod UART_TX_BUF_SIZE), s\<lparr>uart_tx_r := uart_tx_r s + 1\<rparr>)"

definition tx_put :: "byte \<Rightarrow> 'a devst_scheme \<Rightarrow> 'a devst_scheme" where
  "tx_put c s = s\<lparr>uart_tx_buf := (uart_tx_buf s)[unat (uart_tx_w s) mod UART_TX_BUF_SIZE := c],
     uart_tx_w := uart_tx_w s + 1\<rparr>"

function uartstart :: "'a devst_scheme \<Rightarrow> 'a devst_scheme" where
  "uartstart s =
     (if uart_tx_w s = uart_tx_r s then s
      else if tx_room s = 0 then s
      else
        case tx_get s of (c, s) \<Rightarrow>
          let s = wakeup ChUart s in
          uartstart (s\<lparr>kout := c # kout s, tx_room := tx_room s - 1\<rparr>))"
  by pat_completeness auto
termination
  by (relation "measure tx_room") (auto simp: wakeup_procs tx_get_def)

declare uartstart.simps [simp del]

definition uartputc :: "byte \<Rightarrow> 'a devst_scheme \<Rightarrow> 'a devst_scheme res" where
  "uartputc c s =
     (if uart_tx_w s = uart_tx_r s + of_nat UART_TX_BUF_SIZE then Inl (Sleeps ChUart)
      else Inr (uartstart (tx_put c s)))"

definition uartgetc :: "'a devst_scheme \<Rightarrow> int \<times> 'a devst_scheme" where
  "uartgetc s = (case uart_rx s of [] \<Rightarrow> (-1, s) | c # cs \<Rightarrow> (uint c, s\<lparr>uart_rx := cs\<rparr>))"

subsection \<open>Console\<close>

fun consolewrite_loop :: "nat \<Rightarrow> nat \<Rightarrow> ksrc \<Rightarrow> 'a devst_scheme \<Rightarrow> (int \<times> 'a devst_scheme) res" where
  "consolewrite_loop 0 i src s = Inr (int i, s)"
| "consolewrite_loop (Suc k) i src s =
     rbind (either_copyin (src_add src i) 1 s) (\<lambda>(r, bs).
       if r = -1 then Inr (int i, s)
       else
         rbind (aget bs 0) (\<lambda>c.
         rbind (uartputc c s) (\<lambda>s.
         consolewrite_loop k (Suc i) src s)))"

definition consolewrite :: "ksrc \<Rightarrow> int \<Rightarrow> 'a devst_scheme \<Rightarrow> (int \<times> 'a devst_scheme) res" where
  "consolewrite src n s = consolewrite_loop (nat n) 0 src s"

text \<open>
  The loop of \<^verbatim>\<open>consoleread\<close>; the counter is what is left of \<open>n\<close>. \<open>acc\<close> collects the bytes for a
  local destination.
\<close>

fun consoleread_loop ::
  "nat \<Rightarrow> nat \<Rightarrow> kdst \<Rightarrow> byte list \<Rightarrow> 'a devst_scheme \<Rightarrow> (int \<times> byte list \<times> 'a devst_scheme) res" where
  "consoleread_loop 0 target dst acc s = Inr (int target, acc, s)"
| "consoleread_loop (Suc n) target dst acc s =
     (if cons_r s = cons_w s
      then if killed (cur s) s \<noteq> 0 then Inr (-1, acc, s) else Inl (Sleeps ChConsole)
      else
        let c = cons_buf s ! (unat (cons_r s) mod INPUT_BUF_SIZE);
            s = s\<lparr>cons_r := cons_r s + 1\<rparr>
        in if c = 4
           then let s = (if Suc n < target then s\<lparr>cons_r := cons_r s - 1\<rparr> else s)
                in Inr (int target - int (Suc n), acc, s)
           else
             rbind (either_copyout dst [c] s) (\<lambda>(r, bs, s).
               if r = -1 then Inr (int target - int (Suc n), acc, s)
               else if c = 10 then Inr (int target - int n, acc @ bs, s)
               else consoleread_loop n target (dst_add dst 1) (acc @ bs) s))"

definition consoleread :: "kdst \<Rightarrow> int \<Rightarrow> 'a devst_scheme \<Rightarrow> (int \<times> byte list \<times> 'a devst_scheme) res" where
  "consoleread dst n s =
     (if n \<le> 0 then Inr (0, [], s) else consoleread_loop (nat n) (nat n) dst [] s)"

text \<open>The loop of \<^verbatim>\<open>^U\<close>.\<close>

function kill_line :: "'a devst_scheme \<Rightarrow> 'a devst_scheme" where
  "kill_line s =
     (if cons_e s \<noteq> cons_w s \<and> cons_buf s ! (unat (cons_e s - 1) mod INPUT_BUF_SIZE) \<noteq> 10
      then kill_line (consputc BACKSPACE (s\<lparr>cons_e := cons_e s - 1\<rparr>))
      else s)"
  by pat_completeness auto
termination
proof (relation "measure (\<lambda>s. unat (cons_e s - cons_w s))")
  fix s :: "'a devst_scheme"
  assume "cons_e s \<noteq> cons_w s \<and> cons_buf s ! (unat (cons_e s - 1) mod INPUT_BUF_SIZE) \<noteq> 10"
  then have "cons_e s - cons_w s \<noteq> 0" by simp
  then have "unat (cons_e s - cons_w s - 1) < unat (cons_e s - cons_w s)"
    using unat_minus_one [of "cons_e s - cons_w s"] unat_gt_0 [of "cons_e s - cons_w s"] by linarith
  then show "(consputc BACKSPACE (s\<lparr>cons_e := cons_e s - 1\<rparr>), s) \<in> measure (\<lambda>s. unat (cons_e s - cons_w s))"
    by (simp add: consputc_def uartputc_sync_def algebra_simps)
qed simp

declare kill_line.simps [simp del]

definition consoleintr :: "int \<Rightarrow> 'a devst_scheme \<Rightarrow> 'a devst_scheme res" where
  "consoleintr c s =
     (if c = 16 then procdump s
      else if c = 21 then Inr (kill_line s)
      else if c = 8 \<or> c = 127
      then
        if cons_e s \<noteq> cons_w s then Inr (consputc BACKSPACE (s\<lparr>cons_e := cons_e s - 1\<rparr>)) else Inr s
      else if c \<noteq> 0 \<and> unat (cons_e s - cons_r s) < INPUT_BUF_SIZE
      then
        let c = (if c = 13 then 10 else c);
            s = consputc c s;
            s = s\<lparr>cons_buf := (cons_buf s)[unat (cons_e s) mod INPUT_BUF_SIZE := of_int c], cons_e := cons_e s + 1\<rparr>
        in if c = 10 \<or> c = 4 \<or> unat (cons_e s - cons_r s) = INPUT_BUF_SIZE
           then Inr (wakeup ChConsole (s\<lparr>cons_w := cons_e s\<rparr>))
           else Inr s
      else Inr s)"

definition uartintr :: "'a devst_scheme \<Rightarrow> 'a devst_scheme res" where
  "uartintr s =
     rbind (rfold (\<lambda>c. consoleintr (uint c)) (uart_rx s) (s\<lparr>uart_rx := []\<rparr>)) (\<lambda>s.
     Inr (uartstart s))"

definition consoleinit :: "'a devst_scheme \<Rightarrow> 'a devst_scheme" where
  "consoleinit s =
     (let s = uartinit s in s\<lparr>devsw := (devsw s)(CONSOLE := (Some ConsoleRead, Some ConsoleWrite))\<rparr>)"

section \<open>The transmit buffer\<close>

definition tx_inv :: "'a devst_scheme \<Rightarrow> bool" where
  "tx_inv s \<longleftrightarrow> ring_ok UART_TX_BUF_SIZE (uart_tx_buf s) (uart_tx_r s) (uart_tx_w s)"

definition tx_contents :: "'a devst_scheme \<Rightarrow> byte list" where
  "tx_contents s = ring_contents UART_TX_BUF_SIZE (uart_tx_buf s) (uart_tx_r s) (uart_tx_w s)"

lemma tx_full_iff: "uart_tx_w s = uart_tx_r s + of_nat UART_TX_BUF_SIZE \<longleftrightarrow> unat (uart_tx_w s - uart_tx_r s) = 32"
proof -
  have "uart_tx_w s = uart_tx_r s + 32 \<longleftrightarrow> uart_tx_w s - uart_tx_r s = 32" by (auto simp: algebra_simps)
  also have "\<dots> \<longleftrightarrow> unat (uart_tx_w s - uart_tx_r s) = 32" by (simp add: word_unat_eq_iff)
  finally show ?thesis by simp
qed

interpretation tx: byte_queue tx_inv tx_contents UART_TX_BUF_SIZE
  "\<lambda>s. uart_tx_w s = uart_tx_r s" "\<lambda>s. uart_tx_w s = uart_tx_r s + of_nat UART_TX_BUF_SIZE" tx_put tx_get
proof
  fix q :: "'a devst_scheme" and c
  assume inv: "tx_inv q"
  then have ok: "ring_ok 32 (uart_tx_buf q) (uart_tx_r q) (uart_tx_w q)" by (simp add: tx_inv_def)
  show "(uart_tx_w q = uart_tx_r q) = (tx_contents q = [])"
    by (simp add: tx_contents_def flip: length_0_conv) (auto simp: unat_eq_0)
  show "(uart_tx_w q = uart_tx_r q + of_nat UART_TX_BUF_SIZE) = (length (tx_contents q) = UART_TX_BUF_SIZE)"
    unfolding tx_full_iff by (simp add: tx_contents_def)
  show "length (tx_contents q) \<le> UART_TX_BUF_SIZE" using ok by (simp add: tx_contents_def ring_ok_def)
  show "tx_inv (tx_put c q)" "tx_contents (tx_put c q) = tx_contents q @ [c]"
    if "uart_tx_w q \<noteq> uart_tx_r q + of_nat UART_TX_BUF_SIZE"
  proof -
    have "unat (uart_tx_w q - uart_tx_r q) \<noteq> 32" using that tx_full_iff by blast
    from ring_put [OF ok this] show "tx_inv (tx_put c q)" "tx_contents (tx_put c q) = tx_contents q @ [c]"
      by (simp_all add: tx_inv_def tx_contents_def tx_put_def)
  qed
  show "tx_inv (snd (tx_get q))" "tx_contents q = fst (tx_get q) # tx_contents (snd (tx_get q))"
    if "uart_tx_w q \<noteq> uart_tx_r q"
    using ring_get [OF ok that [symmetric]] by (simp_all add: tx_inv_def tx_contents_def tx_get_def)
qed

lemma tx_other [simp]:
  "tx_inv (wakeup ch s) = tx_inv s" "tx_contents (wakeup ch s) = tx_contents s"
  "tx_inv (s\<lparr>kout := k\<rparr>) = tx_inv s" "tx_contents (s\<lparr>kout := k\<rparr>) = tx_contents s"
  "tx_inv (s\<lparr>tx_room := n\<rparr>) = tx_inv s" "tx_contents (s\<lparr>tx_room := n\<rparr>) = tx_contents s"
  by (simp_all add: tx_inv_def tx_contents_def wakeup_procs)

lemma kout_wakeup [simp]: "kout (wakeup ch s) = kout s"
  by (simp add: wakeup_procs)

text \<open>\<^verbatim>\<open>uartstart\<close> sends from the front of the buffer as many bytes as the UART takes.\<close>

lemma uartstart_sends:
  "tx_inv s \<Longrightarrow> tx_inv (uartstart s)
   \<and> rev (kout (uartstart s)) @ tx_contents (uartstart s) = rev (kout s) @ tx_contents s
   \<and> length (tx_contents (uartstart s)) = length (tx_contents s) - tx_room s"
proof (induction s rule: uartstart.induct)
  case (1 s)
  show ?case
  proof (cases "uart_tx_w s = uart_tx_r s \<or> tx_room s = 0")
    case True
    then have "uartstart s = s" by (subst uartstart.simps) auto
    moreover have "length (tx_contents s) = 0" if "uart_tx_w s = uart_tx_r s" using that by (simp add: tx_contents_def)
    ultimately show ?thesis using 1(2) True by auto
  next
    case False
    obtain c t where g: "tx_get s = (c, t)" by (cases "tx_get s")
    let ?u = "wakeup ChUart t"
    let ?v = "?u\<lparr>kout := c # kout ?u, tx_room := tx_room ?u - 1\<rparr>"
    have room: "tx_room ?u = tx_room s" "kout t = kout s" using g by (auto simp: tx_get_def wakeup_procs)
    have c: "tx_contents s = c # tx_contents t" "tx_inv t"
      using tx.get_contents [OF 1(2)] tx.get_inv [OF 1(2)] False g by auto
    have e: "uartstart s = uartstart ?v" using False g by (subst uartstart.simps) (simp add: Let_def)
    have "tx_inv ?v" using c by simp
    moreover have "uart_tx_w s \<noteq> uart_tx_r s" "tx_room s \<noteq> 0" using False by auto
    ultimately have
      "tx_inv (uartstart ?v) \<and> rev (kout (uartstart ?v)) @ tx_contents (uartstart ?v) = rev (kout ?v) @ tx_contents ?v
        \<and> length (tx_contents (uartstart ?v)) = length (tx_contents ?v) - tx_room ?v" using 1(1) g by simp
    then show ?thesis using c room e False by auto
  qed
qed

text \<open>
  C30: the serial line delivers in order. \<^verbatim>\<open>uartputc\<close> blocks exactly when the transmit buffer
  is full; otherwise, with what the UART already sent taken together with what is still
  in the buffer, the byte is appended at the end, and nothing is lost, duplicated or reordered.
\<close>

theorem uartputc_in_order:
  assumes "tx_inv s"
  shows "(uartputc c s = Inl (Sleeps ChUart) \<longleftrightarrow> length (tx_contents s) = UART_TX_BUF_SIZE)
    \<and> (length (tx_contents s) < UART_TX_BUF_SIZE \<longrightarrow>
        (\<exists>s'. uartputc c s = Inr s' \<and> tx_inv s'
          \<and> rev (kout s') @ tx_contents s' = rev (kout s) @ tx_contents s @ [c]))"
proof -
  have f: "uart_tx_w s = uart_tx_r s + of_nat UART_TX_BUF_SIZE \<longleftrightarrow> length (tx_contents s) = UART_TX_BUF_SIZE"
    by (rule tx.full_iff [OF assms])
  have "\<exists>s'. uartputc c s = Inr s' \<and> tx_inv s' \<and> rev (kout s') @ tx_contents s' = rev (kout s) @ tx_contents s @ [c]"
    if "length (tx_contents s) < UART_TX_BUF_SIZE"
  proof -
    have nf: "uart_tx_w s \<noteq> uart_tx_r s + of_nat UART_TX_BUF_SIZE" using that f by auto
    note p = tx.put_inv [OF assms nf, of c] tx.put_contents [OF assms nf, of c]
    have "kout (tx_put c s) = kout s" by (simp add: tx_put_def)
    then show ?thesis using nf uartstart_sends [OF p(1)] p(2) by (simp add: uartputc_def)
  qed
  then show ?thesis using f by (auto simp: uartputc_def)
qed


definition boot_dev :: devst where
  "boot_dev = \<lparr>phy = phy boot_kern, procs = procs boot_kern, cur = 0, nextpid = 2, initproc = 0, ticks = 0,
     trampoline = trampoline boot_kern, kout = [], bufs = \<lambda>_. zero_buf, dimg = demo_disk, dhist = [],
     lg = lg (power_on demo_disk), sb = demo_sb,
     itable = \<lambda>_. \<lparr>i_dev = 0, i_inum = 0, i_ref = 0, i_lock = initsleeplock, i_valid = False, i_type = 0,
       i_major = 0, i_minor = 0, i_nlink = 0, i_size = 0, i_addrs = replicate 13 0\<rparr>,
     uart_regs = \<lambda>_. 0, uart_rx = [], tx_room = 1, uart_tx_buf = replicate 32 0, uart_tx_w = 0, uart_tx_r = 0,
     cons_buf = replicate 128 0, cons_r = 0, cons_w = 0, cons_e = 0, devsw = \<lambda>_. (None, None)\<rparr>"

theorem uartputc_in_order_witness:
  "\<exists>s'. uartputc 65 boot_dev = Inr s' \<and> rev (kout s') @ tx_contents s' = [65]"
proof -
  have "tx_inv boot_dev" by (simp add: tx_inv_def ring_ok_def boot_dev_def)
  moreover have "tx_contents boot_dev = []" by (simp add: tx_contents_def ring_contents_def boot_dev_def)
  moreover have "kout boot_dev = []" by (simp add: boot_dev_def)
  ultimately show ?thesis using uartputc_in_order [of boot_dev 65] by auto
qed

section \<open>The input line\<close>

text \<open>What the user has typed and not yet been read: the part up to \<open>w\<close> is ready for readers.\<close>

definition cons_inv :: "'a devst_scheme \<Rightarrow> bool" where
  "cons_inv s \<longleftrightarrow> ring_ok INPUT_BUF_SIZE (cons_buf s) (cons_r s) (cons_e s)
     \<and> unat (cons_w s - cons_r s) \<le> unat (cons_e s - cons_r s)"

definition typed :: "'a devst_scheme \<Rightarrow> byte list" where
  "typed s = ring_contents INPUT_BUF_SIZE (cons_buf s) (cons_r s) (cons_e s)"

definition ready :: "'a devst_scheme \<Rightarrow> byte list" where
  "ready s = ring_contents INPUT_BUF_SIZE (cons_buf s) (cons_r s) (cons_w s)"

lemma ready_typed: "cons_inv s \<Longrightarrow> ready s = take (length (ready s)) (typed s)"
  by (simp add: ready_def typed_def cons_inv_def ring_contents_def take_map min_def)

lemma cons_other [simp]:
  "cons_inv (wakeup ch s) = cons_inv s" "typed (wakeup ch s) = typed s" "ready (wakeup ch s) = ready s"
  "cons_inv (consputc c s) = cons_inv s" "typed (consputc c s) = typed s" "ready (consputc c s) = ready s"
  by (simp_all add: cons_inv_def typed_def ready_def wakeup_procs consputc_def uartputc_sync_def)

lemma cons_consputc [simp]:
  "cons_buf (consputc c s) = cons_buf s" "cons_r (consputc c s) = cons_r s" "cons_w (consputc c s) = cons_w s"
  "cons_e (consputc c s) = cons_e s"
  by (simp_all add: consputc_def uartputc_sync_def)

lemma kout_consputc: "0 \<le> c \<Longrightarrow> c < 256 \<Longrightarrow> kout (consputc c s) = of_int c # kout s"
  by (simp add: consputc_def uartputc_sync_def)

lemma unat_diff_eq: "unat (a - c) = unat (b - c) \<longleftrightarrow> a = (b :: 'a::len word)"
  by (metis diff_add_cancel word_unat_eq_iff)

lemma unat_pred_diff:
  fixes a b :: u32
  assumes "unat (w - b) \<le> unat (a - b)" and "a \<noteq> w"
  shows "unat (a - 1 - b) = unat (a - b) - 1" and "unat (w - b) < unat (a - b)"
proof -
  have "unat (w - b) \<noteq> unat (a - b)" using assms(2) unat_diff_eq [of w b a] by auto
  then show l: "unat (w - b) < unat (a - b)" using assms(1) by simp
  then have "a - b \<noteq> 0" by (auto simp: unat_gt_0)
  then have "unat (a - b - 1) = unat (a - b) - 1" by (rule unat_minus_one)
  moreover have "a - 1 - b = a - b - 1" by (simp add: algebra_simps)
  ultimately show "unat (a - 1 - b) = unat (a - b) - 1" by (simp only:)
qed

text \<open>Erasing the last typed character.\<close>

lemma erase_last:
  assumes inv: "cons_inv s" and ne: "cons_e s \<noteq> cons_w s"
  shows "cons_inv (s\<lparr>cons_e := cons_e s - 1\<rparr>)" and "typed (s\<lparr>cons_e := cons_e s - 1\<rparr>) = butlast (typed s)"
    and "ready (s\<lparr>cons_e := cons_e s - 1\<rparr>) = ready s" and "length (ready s) < length (typed s)"
    and "last (typed s) = cons_buf s ! (unat (cons_e s - 1) mod INPUT_BUF_SIZE)"
proof -
  let ?e = "cons_e s - 1"
  have le: "unat (cons_w s - cons_r s) \<le> unat (cons_e s - cons_r s)" using inv by (simp add: cons_inv_def)
  note u = unat_pred_diff [OF le ne]
  show "cons_inv (s\<lparr>cons_e := ?e\<rparr>)" using inv u by (auto simp: cons_inv_def ring_ok_def)
  show "length (ready s) < length (typed s)" using u by (simp add: ready_def typed_def)
  show "ready (s\<lparr>cons_e := ?e\<rparr>) = ready s" by (simp add: ready_def)
  have k: "unat (cons_e s - cons_r s) = Suc (unat (?e - cons_r s))" using u by simp
  then show "typed (s\<lparr>cons_e := ?e\<rparr>) = butlast (typed s)" by (simp add: typed_def ring_contents_def)
  have "(unat (cons_r s) + unat (?e - cons_r s)) mod 128 = unat ?e mod 128" by (rule ring_index) simp
  then show "last (typed s) = cons_buf s ! (unat (cons_e s - 1) mod INPUT_BUF_SIZE)"
    unfolding typed_def ring_contents_def k by simp
qed

text \<open>An ordinary character: not a control character of the line editor.\<close>

definition plain :: "byte \<Rightarrow> bool" where
  "plain c \<longleftrightarrow> c \<notin> {0, 4, 8, 10, 13, 16, 21, 127}"

definition newline :: "byte \<Rightarrow> bool" where
  "newline c \<longleftrightarrow> c = 10 \<or> c = 13"

lemma type_char:
  assumes inv: "cons_inv s" and room: "length (typed s) < INPUT_BUF_SIZE" and c: "0 \<le> c" "c < 256"
  defines "s' \<equiv> (consputc c s)\<lparr>cons_buf := (cons_buf s)[unat (cons_e s) mod INPUT_BUF_SIZE := of_int c], cons_e := cons_e s + 1\<rparr>"
  shows "cons_inv s'" and "typed s' = typed s @ [of_int c]" and "ready s' = ready s"
    and "kout s' = of_int c # kout s" and "unat (cons_e s' - cons_r s') = Suc (length (typed s))"
proof -
  have ok: "ring_ok 128 (cons_buf s) (cons_r s) (cons_e s)" and le: "unat (cons_w s - cons_r s) \<le> unat (cons_e s - cons_r s)"
    using inv by (auto simp: cons_inv_def)
  have nf: "unat (cons_e s - cons_r s) \<noteq> 128" using room by (simp add: typed_def)
  note p = ring_put [OF ok nf, of "of_int c"]
  show "kout s' = of_int c # kout s" using c by (simp add: s'_def kout_consputc)
  show t: "typed s' = typed s @ [of_int c]" using p(2) by (simp add: s'_def typed_def)
  show u: "unat (cons_e s' - cons_r s') = Suc (length (typed s))"
    using arg_cong [OF t, of length] by (simp add: typed_def)
  show inv': "cons_inv s'" using p(1) le u by (simp add: s'_def cons_inv_def typed_def)
  have "length (ready s') = length (ready s)" by (simp add: s'_def ready_def)
  moreover have "length (ready s) \<le> length (typed s)" using le by (simp add: ready_def typed_def)
  ultimately show "ready s' = ready s" using ready_typed [OF inv'] ready_typed [OF inv] t by simp
qed

lemma consoleintr_plain:
  assumes inv: "cons_inv s" and room: "Suc (length (typed s)) < INPUT_BUF_SIZE" and c: "plain c"
  shows "\<exists>s'. consoleintr (uint c) s = Inr s' \<and> cons_inv s' \<and> typed s' = typed s @ [c] \<and> ready s' = ready s
    \<and> kout s' = c # kout s"
proof -
  have r: "0 \<le> uint c" "uint c < 256" using unsigned_less [of c, where ?'a = int] by auto
  have ne: "uint c \<noteq> 0" "uint c \<noteq> 16" "uint c \<noteq> 21" "uint c \<noteq> 8" "uint c \<noteq> 127" "uint c \<noteq> 13" "uint c \<noteq> 10" "uint c \<noteq> 4"
    using c by (auto simp: plain_def word_uint_eq_iff)
  have room': "length (typed s) < INPUT_BUF_SIZE" using room by simp
  note t = type_char [OF inv room' r]
  have "unat (cons_e s - cons_r s) < INPUT_BUF_SIZE" using room by (simp add: typed_def)
  then show ?thesis using t ne room by (auto simp: consoleintr_def Let_def)
qed

lemma consoleintr_newline:
  assumes inv: "cons_inv s" and room: "length (typed s) < INPUT_BUF_SIZE" and c: "newline c"
  shows "\<exists>s'. consoleintr (uint c) s = Inr s' \<and> cons_inv s' \<and> typed s' = typed s @ [10] \<and> ready s' = typed s @ [10]
    \<and> kout s' = 10 # kout s"
proof -
  note t = type_char [OF inv room, of 10]
  let ?s = "(consputc 10 s)\<lparr>cons_buf := (cons_buf s)[unat (cons_e s) mod INPUT_BUF_SIZE := of_int 10], cons_e := cons_e s + 1\<rparr>"
  have "unat (cons_e s - cons_r s) < INPUT_BUF_SIZE" using room by (simp add: typed_def)
  then have "consoleintr (uint c) s = Inr (wakeup ChConsole (?s\<lparr>cons_w := cons_e ?s\<rparr>))"
    using c by (auto simp: consoleintr_def Let_def newline_def)
  moreover have "ready (?s\<lparr>cons_w := cons_e ?s\<rparr>) = typed ?s" "typed (?s\<lparr>cons_w := cons_e ?s\<rparr>) = typed ?s"
    "cons_inv (?s\<lparr>cons_w := cons_e ?s\<rparr>)" "kout (?s\<lparr>cons_w := cons_e ?s\<rparr>) = kout ?s"
    using t(1) by (simp_all add: ready_def typed_def cons_inv_def)
  ultimately show ?thesis using t by simp
qed

lemma consoleintr_erase:
  assumes inv: "cons_inv s"
  shows "\<exists>s'. consoleintr 8 s = Inr s' \<and> cons_inv s' \<and> ready s' = ready s
    \<and> typed s' = (if length (ready s) < length (typed s) then butlast (typed s) else typed s)"
proof (cases "cons_e s = cons_w s")
  case True
  then have "typed s = ready s" by (simp add: typed_def ready_def)
  then show ?thesis using True inv by (simp add: consoleintr_def)
next
  case False
  note e = erase_last [OF inv False]
  then show ?thesis using False by (simp add: consoleintr_def)
qed

lemma kill_line_typed:
  "cons_inv s \<Longrightarrow> cons_inv (kill_line s) \<and> ready (kill_line s) = ready s
    \<and> (\<exists>ys. typed s = typed (kill_line s) @ ys \<and> 10 \<notin> set ys)
    \<and> (typed (kill_line s) = ready s \<or> last (typed (kill_line s)) = 10)"
proof (induction s rule: kill_line.induct)
  case (1 s)
  show ?case
  proof (cases "cons_e s \<noteq> cons_w s \<and> cons_buf s ! (unat (cons_e s - 1) mod INPUT_BUF_SIZE) \<noteq> 10")
    case True
    let ?s = "s\<lparr>cons_e := cons_e s - 1\<rparr>"
    note e = erase_last [OF 1(2) conjunct1 [OF True]]
    have k: "kill_line s = kill_line (consputc BACKSPACE ?s)" using True by (subst kill_line.simps) simp
    have ne: "typed s \<noteq> []" using e(4) by auto
    have "cons_inv (consputc BACKSPACE ?s)" using e(1) by simp
    note IH = 1(1) [OF True this, folded k]
    obtain ys where ys: "butlast (typed s) = typed (kill_line s) @ ys" "10 \<notin> set ys" using IH e(2) by auto
    have "typed s = typed (kill_line s) @ ys @ [last (typed s)]"
      using ys(1) ne append_butlast_last_id [of "typed s"] by simp
    moreover have "10 \<notin> set (ys @ [last (typed s)])" using ys(2) True e(5) by auto
    ultimately show ?thesis using IH e(3) by (auto intro: exI [of _ "ys @ [last (typed s)]"])
  next
    case False
    then have k: "kill_line s = s" by (subst kill_line.simps) auto
    show ?thesis
    proof (cases "cons_e s = cons_w s")
      case True
      then have "typed s = ready s" by (simp add: typed_def ready_def)
      then show ?thesis using k 1(2) by simp
    next
      case ne: False
      then have "last (typed s) = 10" using False erase_last(5) [OF 1(2) ne] by auto
      then show ?thesis using k 1(2) by simp
    qed
  qed
qed

text \<open>Reading from the front of the line.\<close>

lemma cons_next:
  assumes inv: "cons_inv s" and r: "ready s = c # cs"
  shows "cons_r s \<noteq> cons_w s" and "cons_buf s ! (unat (cons_r s) mod INPUT_BUF_SIZE) = c"
    and "ready (s\<lparr>cons_r := cons_r s + 1\<rparr>) = cs" and "cons_inv (s\<lparr>cons_r := cons_r s + 1\<rparr>)"
    and "typed s = c # typed (s\<lparr>cons_r := cons_r s + 1\<rparr>)"
proof -
  show ne: "cons_r s \<noteq> cons_w s" using r by (auto simp: ready_def ring_contents_def)
  have le: "unat (cons_w s - cons_r s) \<le> unat (cons_e s - cons_r s)"
    and ok: "ring_ok 128 (cons_buf s) (cons_r s) (cons_e s)" using inv by (auto simp: cons_inv_def)
  have okw: "ring_ok 128 (cons_buf s) (cons_r s) (cons_w s)" using ok le by (simp add: ring_ok_def)
  have "0 < unat (cons_w s - cons_r s)" using ne by (simp add: unat_gt_0)
  then have ne': "cons_r s \<noteq> cons_e s" using le by (intro notI) simp
  note g = ring_get [OF okw ne] and g' = ring_get [OF ok ne']
  show "cons_buf s ! (unat (cons_r s) mod INPUT_BUF_SIZE) = c" "ready (s\<lparr>cons_r := cons_r s + 1\<rparr>) = cs"
    using g(2) r by (auto simp: ready_def)
  have "Suc (unat (cons_w s - (cons_r s + 1))) = unat (cons_w s - cons_r s)"
    "Suc (unat (cons_e s - (cons_r s + 1))) = unat (cons_e s - cons_r s)"
    using arg_cong [OF g(2), of length] arg_cong [OF g'(2), of length] by simp_all
  then show "cons_inv (s\<lparr>cons_r := cons_r s + 1\<rparr>)" using le g'(1) by (simp add: cons_inv_def)
  show "typed s = c # typed (s\<lparr>cons_r := cons_r s + 1\<rparr>)"
    using g'(2) g(2) r by (auto simp: typed_def ready_def)
qed

lemma consoleread_line:
  assumes "cons_inv s" and "ready s = xs @ 10 # ys" and "10 \<notin> set xs" and "4 \<notin> set xs" and "length xs < n" and "n \<le> target"
  shows "\<exists>s'. consoleread_loop n target LocalDst acc s
      = Inr (int target - int n + int (length xs) + 1, acc @ xs @ [10], s') \<and> cons_inv s' \<and> ready s' = ys"
  using assms
proof (induction xs arbitrary: n acc s)
  case Nil
  then obtain m where n: "n = Suc m" by (cases n) auto
  note c = cons_next [OF Nil(1), of 10 ys]
  show ?case using Nil c by (simp add: n Let_def either_copyout_def)
next
  case (Cons x xs)
  then obtain m where n: "n = Suc m" by (cases n) auto
  have r: "ready s = x # xs @ 10 # ys" using Cons.prems(2) by simp
  note c = cons_next [OF Cons.prems(1) r]
  have x: "x \<noteq> 4" "x \<noteq> 10" using Cons.prems by auto
  from Cons.IH [OF c(4,3), of m "acc @ [x]"] Cons.prems obtain s' where
    "consoleread_loop m target LocalDst (acc @ [x]) (s\<lparr>cons_r := cons_r s + 1\<rparr>)
      = Inr (int target - int m + int (length xs) + 1, (acc @ [x]) @ xs @ [10], s')" "cons_inv s'" "ready s' = ys"
    by (auto simp: n)
  then show ?case using c(1,2) x by (simp add: n Let_def either_copyout_def)
qed

lemma type_plain:
  assumes "cons_inv s" and "length (typed s) + length cs < INPUT_BUF_SIZE" and "\<forall>c\<in>set cs. plain c"
  shows "\<exists>s'. rfold (\<lambda>c. consoleintr (uint c)) cs s = Inr s' \<and> cons_inv s' \<and> typed s' = typed s @ cs
    \<and> ready s' = ready s \<and> kout s' = rev cs @ kout s"
  using assms
proof (induction cs arbitrary: s)
  case (Cons c cs)
  obtain s1 where 1: "consoleintr (uint c) s = Inr s1" "cons_inv s1" "typed s1 = typed s @ [c]" "ready s1 = ready s"
    "kout s1 = c # kout s"
    using consoleintr_plain [of s c] Cons.prems by auto
  then show ?case using Cons.IH [of s1] Cons.prems by auto
qed simp

text \<open>
  C31: a typed line reaches the reader. On an idle console, typing characters that are not
  editing keys and then return or newline, in total at most 128, echoes them, and a read with room
  for the line returns exactly these characters followed by a newline.
\<close>

theorem console_line:
  assumes "cons_inv s" and "typed s = []" and "\<forall>c\<in>set cs. plain c" and "newline nl"
    and "length cs < INPUT_BUF_SIZE" and "int (length cs) < n"
  shows "\<exists>s1 s2. rfold (\<lambda>c. consoleintr (uint c)) (cs @ [nl]) s = Inr s1
    \<and> rev (kout s1) = rev (kout s) @ cs @ [10]
    \<and> consoleread LocalDst n s1 = Inr (int (length cs) + 1, cs @ [10], s2) \<and> cons_inv s2 \<and> ready s2 = []"
proof -
  obtain t where t: "rfold (\<lambda>c. consoleintr (uint c)) cs s = Inr t" "cons_inv t" "typed t = cs" "kout t = rev cs @ kout s"
    using type_plain [of s cs] assms by auto
  obtain s1 where 1: "consoleintr (uint nl) t = Inr s1" "cons_inv s1" "ready s1 = cs @ [10]" "kout s1 = 10 # kout t"
    using consoleintr_newline [of t nl] t assms by auto
  have "10 \<notin> set cs" "4 \<notin> set cs" "length cs < nat n" using assms(3,6) by (auto simp: plain_def)
  then obtain s2 where "consoleread_loop (nat n) (nat n) LocalDst [] s1 = Inr (int (nat n) - int (nat n) + int (length cs) + 1, [] @ cs @ [10], s2)"
    "cons_inv s2" "ready s2 = []"
    using consoleread_line [of s1 cs "[]" "nat n" "nat n" "[]"] 1 assms by auto
  then show ?thesis using t 1 assms(6) by (auto simp: rfold_append consoleread_def)
qed

theorem console_line_witness:
  "\<exists>s1 s2. rfold (\<lambda>c. consoleintr (uint c)) ([108, 115 :: byte] @ [13]) boot_dev = Inr s1
    \<and> rev (kout s1) = rev (kout boot_dev) @ [108, 115] @ [10]
    \<and> consoleread LocalDst 100 s1 = Inr (int (length [108, 115 :: byte]) + 1, [108, 115] @ [10], s2) \<and> cons_inv s2 \<and> ready s2 = []"
proof -
  have "cons_inv boot_dev" by (simp add: cons_inv_def ring_ok_def boot_dev_def)
  moreover have "typed boot_dev = []" by (simp add: typed_def ring_contents_def boot_dev_def)
  moreover have "\<forall>c\<in>set [108, 115 :: byte]. plain c" "newline 13" by (simp_all add: plain_def newline_def)
  ultimately show ?thesis using console_line [of boot_dev "[108, 115]" 13 100] by simp
qed



end
