(* ===== verification/Pipe.thy ===== *)
theory Pipe
  imports Console UserMem
begin

text \<open>
  \<^verbatim>\<open>kernel/pipe.c\<close>, except \<^verbatim>\<open>pipealloc\<close> (theory \<open>File\<close>), and \<open>struct file\<close> of \<^verbatim>\<open>kernel/file.h\<close>. A
  \<open>struct pipe*\<close> is the address of the page that holds the pipe; \<open>pipes\<close> gives its fields. A read
  or write of a pipe that has to wait does so after having moved some bytes: the
  functions with suffix \<open>_run\<close> return how far the call got, \<open>Blocked\<close> with the channel and
  the count so far, or \<open>Done\<close> with the result. Their last argument but one is where
  the call continues.
\<close>

section \<open>Model\<close>

datatype fdtype = FD_NONE | FD_PIPE | FD_INODE | FD_DEVICE

record kfile =
  f_type :: fdtype
  f_ref :: int
  f_readable :: bool
  f_writable :: bool
  f_pipe :: addr
  f_ip :: nat
  f_off :: u32
  f_major :: u16

definition PIPESIZE :: nat where [simp]: "PIPESIZE = 512"

record pipe =
  pdata :: "byte list"
  nread :: u32
  nwrite :: u32
  readopen :: bool
  writeopen :: bool

record filst = devst +
  ftable :: "nat \<Rightarrow> kfile"
  pipes :: "addr \<Rightarrow> pipe"
  stack_pad :: "byte list"

text \<open>\<open>stack_pad\<close> is what the kernel stack happens to hold in the padding of \<open>struct stat\<close>.\<close>

definition upd_pipe :: "addr \<Rightarrow> (pipe \<Rightarrow> pipe) \<Rightarrow> 'a filst_scheme \<Rightarrow> 'a filst_scheme" where
  "upd_pipe pi f s = s\<lparr>pipes := (pipes s)(pi := f (pipes s pi))\<rparr>"

datatype outcome = Done int | Blocked chan nat

definition pipeclose :: "addr \<Rightarrow> bool \<Rightarrow> 'a filst_scheme \<Rightarrow> 'a filst_scheme res" where
  "pipeclose pi writable s =
     (let s = (if writable then wakeup (ChPipeRead pi) (upd_pipe pi (\<lambda>p. p\<lparr>writeopen := False\<rparr>) s)
               else wakeup (ChPipeWrite pi) (upd_pipe pi (\<lambda>p. p\<lparr>readopen := False\<rparr>) s))
      in if \<not> readopen (pipes s pi) \<and> \<not> writeopen (pipes s pi)
         then rbind (kfree pi (phy s)) (\<lambda>m. Inr (s\<lparr>phy := m\<rparr>))
         else Inr s)"

definition pipe_put :: "byte \<Rightarrow> pipe \<Rightarrow> pipe" where
  "pipe_put c p = p\<lparr>pdata := (pdata p)[unat (nwrite p) mod PIPESIZE := c], nwrite := nwrite p + 1\<rparr>"

definition pipe_get :: "pipe \<Rightarrow> byte \<times> pipe" where
  "pipe_get p = (pdata p ! (unat (nread p) mod PIPESIZE), p\<lparr>nread := nread p + 1\<rparr>)"

text \<open>The loop of \<^verbatim>\<open>pipewrite\<close>: \<open>k\<close> bytes are left, \<open>i\<close> have been written.\<close>

fun pipewrite_run :: "addr \<Rightarrow> addr \<Rightarrow> nat \<Rightarrow> nat \<Rightarrow> 'a filst_scheme \<Rightarrow> (outcome \<times> 'a filst_scheme) res" where
  "pipewrite_run pi adr 0 i s = Inr (Done (int i), wakeup (ChPipeRead pi) s)"
| "pipewrite_run pi adr (Suc k) i s =
     (if \<not> readopen (pipes s pi) \<or> killed (cur s) s \<noteq> 0 then Inr (Done (-1), s)
      else if nwrite (pipes s pi) = nread (pipes s pi) + of_nat PIPESIZE
      then Inr (Blocked (ChPipeWrite pi) i, wakeup (ChPipeRead pi) s)
      else
        rbind (copyin (pagetable (myproc s)) (adr + of_nat i) 1 (phy s)) (\<lambda>(r, bs).
          if r = -1 then Inr (Done (int i), wakeup (ChPipeRead pi) s)
          else
            rbind (aget bs 0) (\<lambda>ch.
            pipewrite_run pi adr k (Suc i) (upd_pipe pi (pipe_put ch) s))))"

definition unblocked :: "outcome \<times> 'a \<Rightarrow> (int \<times> 'a) res" where
  "unblocked r = (case r of (Done n, s) \<Rightarrow> Inr (n, s) | (Blocked ch i, s) \<Rightarrow> Inl (Sleeps ch))"

definition pipewrite :: "addr \<Rightarrow> addr \<Rightarrow> int \<Rightarrow> 'a filst_scheme \<Rightarrow> (int \<times> 'a filst_scheme) res" where
  "pipewrite pi adr n s = rbind (pipewrite_run pi adr (nat n) 0 s) unblocked"

text \<open>The second loop of \<^verbatim>\<open>piperead\<close>.\<close>

fun piperead_loop :: "addr \<Rightarrow> addr \<Rightarrow> nat \<Rightarrow> nat \<Rightarrow> 'a filst_scheme \<Rightarrow> (int \<times> 'a filst_scheme) res" where
  "piperead_loop pi adr 0 i s = Inr (int i, s)"
| "piperead_loop pi adr (Suc k) i s =
     (if nread (pipes s pi) = nwrite (pipes s pi) then Inr (int i, s)
      else
        let (ch, p) = pipe_get (pipes s pi);
            s = upd_pipe pi (\<lambda>_. p) s
        in rbind (copyout (pagetable (myproc s)) (adr + of_nat i) [ch] (phy s)) (\<lambda>(r, m).
             let s = s\<lparr>phy := m\<rparr> in
             if r = -1 then Inr (int i, s) else piperead_loop pi adr k (Suc i) s))"

definition piperead_run :: "addr \<Rightarrow> addr \<Rightarrow> int \<Rightarrow> 'a filst_scheme \<Rightarrow> (outcome \<times> 'a filst_scheme) res" where
  "piperead_run pi adr n s =
     (if nread (pipes s pi) = nwrite (pipes s pi) \<and> writeopen (pipes s pi)
      then if killed (cur s) s \<noteq> 0 then Inr (Done (-1), s) else Inr (Blocked (ChPipeRead pi) 0, s)
      else
        rbind (piperead_loop pi adr (nat n) 0 s) (\<lambda>(i, s).
        Inr (Done i, wakeup (ChPipeWrite pi) s)))"

definition piperead :: "addr \<Rightarrow> addr \<Rightarrow> int \<Rightarrow> 'a filst_scheme \<Rightarrow> (int \<times> 'a filst_scheme) res" where
  "piperead pi adr n s = rbind (piperead_run pi adr n s) unblocked"

section \<open>A pipe is a queue\<close>

definition pipe_inv :: "pipe \<Rightarrow> bool" where
  "pipe_inv p \<longleftrightarrow> ring_ok PIPESIZE (pdata p) (nread p) (nwrite p)"

definition pipe_contents :: "pipe \<Rightarrow> byte list" where
  "pipe_contents p = ring_contents PIPESIZE (pdata p) (nread p) (nwrite p)"

lemma pipe_full_iff: "nwrite p = nread p + of_nat PIPESIZE \<longleftrightarrow> unat (nwrite p - nread p) = 512"
proof -
  have "nwrite p = nread p + 512 \<longleftrightarrow> nwrite p - nread p = 512" by (auto simp: algebra_simps)
  also have "\<dots> \<longleftrightarrow> unat (nwrite p - nread p) = 512" by (simp add: word_unat_eq_iff)
  finally show ?thesis by simp
qed

interpretation pq: byte_queue pipe_inv pipe_contents PIPESIZE
  "\<lambda>p. nread p = nwrite p" "\<lambda>p. nwrite p = nread p + of_nat PIPESIZE" pipe_put pipe_get
proof
  fix q :: pipe and c
  assume inv: "pipe_inv q"
  then have ok: "ring_ok 512 (pdata q) (nread q) (nwrite q)" by (simp add: pipe_inv_def)
  show "(nread q = nwrite q) = (pipe_contents q = [])"
    by (simp add: pipe_contents_def flip: length_0_conv) (auto simp: unat_eq_0)
  show "(nwrite q = nread q + of_nat PIPESIZE) = (length (pipe_contents q) = PIPESIZE)"
    unfolding pipe_full_iff by (simp add: pipe_contents_def)
  show "length (pipe_contents q) \<le> PIPESIZE" using ok by (simp add: pipe_contents_def ring_ok_def)
  show "pipe_inv (pipe_put c q)" "pipe_contents (pipe_put c q) = pipe_contents q @ [c]"
    if "nwrite q \<noteq> nread q + of_nat PIPESIZE"
  proof -
    have "unat (nwrite q - nread q) \<noteq> 512" using that pipe_full_iff by blast
    from ring_put [OF ok this] show "pipe_inv (pipe_put c q)" "pipe_contents (pipe_put c q) = pipe_contents q @ [c]"
      by (simp_all add: pipe_inv_def pipe_contents_def pipe_put_def)
  qed
  show "pipe_inv (snd (pipe_get q))" "pipe_contents q = fst (pipe_get q) # pipe_contents (snd (pipe_get q))"
    if "nread q \<noteq> nwrite q"
    using ring_get [OF ok that] by (simp_all add: pipe_inv_def pipe_contents_def pipe_get_def)
qed

section \<open>Reading and writing a pipe\<close>

lemma copyin_byte:
  assumes wf: "pt_wf (pmem m) 2 pt"
  shows "copyin pt va 1 m = (if ureadable m pt va then Inr (0, [ubyte m pt va]) else Inr (-1, []))"
proof (cases "ureadable m pt va")
  case True
  then have "unat va < unat MAXVA" by (simp add: ureadable_def word_less_nat_alt)
  moreover have "va' = va" if "in_buf va 1 va'" for va' using that by (auto simp: in_buf_def word_unat_eq_iff)
  ultimately show ?thesis using copyin_loads [OF wf, of va 1] True by auto
next
  case False
  then show ?thesis using copyin_round [OF wf, of 1 _ va] by simp
qed

lemma copyout_byte:
  assumes sep: "separate m pt ps" and w: "uwritable m pt va"
  shows "\<exists>m'. copyout pt va [c] m = Inr (0, m') \<and> user_only m pt ps m'
    \<and> (\<forall>x. ureadable m pt x \<longrightarrow> ubyte m' pt x = (if x = va then c else ubyte m pt x))"
proof -
  have "unat va < unat MAXVA" using w by (simp add: uwritable_def word_less_nat_alt)
  moreover have b: "in_buf va 1 x \<longleftrightarrow> x = va" for x by (auto simp: in_buf_def word_unat_eq_iff)
  ultimately show ?thesis using copyout_stores [OF sep, of va "[c]"] w by auto
qed

lemma pipes_wakeup [simp]: "pipes (wakeup ch s) = pipes s" "phy (wakeup ch s) = phy s" "cur (wakeup ch s) = cur s"
  by (simp_all add: wakeup_procs)

lemma upd_pipe_simps [simp]:
  "pipes (upd_pipe pi f s) = (pipes s)(pi := f (pipes s pi))" "phy (upd_pipe pi f s) = phy s"
  "cur (upd_pipe pi f s) = cur s" "procs (upd_pipe pi f s) = procs s" "myproc (upd_pipe pi f s) = myproc s"
  "killed p (upd_pipe pi f s) = killed p s"
  by (simp_all add: upd_pipe_def myproc_def killed_def)

text \<open>How many bytes a call has moved when it returns or goes to sleep.\<close>

fun moved :: "outcome \<Rightarrow> nat" where
  "moved (Done n) = nat n"
| "moved (Blocked ch i) = i"

lemma pipewrite_run_moves:
  assumes "pt_wf (pmem (phy s)) 2 (pagetable (myproc s))" and "pipe_inv (pipes s pi)"
  shows "\<exists>out s'. pipewrite_run pi adr k i s = Inr (out, s') \<and> pipe_inv (pipes s' pi)
    \<and> phy s' = phy s \<and> (readopen (pipes s pi) \<and> killed (cur s) s = 0 \<longrightarrow> out \<noteq> Done (-1))
    \<and> (out \<noteq> Done (-1) \<longrightarrow> i \<le> moved out \<and> moved out \<le> i + k)
    \<and> pipe_contents (pipes s' pi) = pipe_contents (pipes s pi)
        @ map (\<lambda>j. ubyte (phy s) (pagetable (myproc s)) (adr + of_nat j)) [i..<if out = Done (-1) then i else moved out]
    \<and> (\<forall>ch m. out = Blocked ch m \<longrightarrow> ch = ChPipeWrite pi \<and> length (pipe_contents (pipes s' pi)) = PIPESIZE)
    \<and> ((\<forall>j. i \<le> j \<and> j < i + k \<longrightarrow> ureadable (phy s) (pagetable (myproc s)) (adr + of_nat j))
        \<and> (\<forall>ch m. out \<noteq> Blocked ch m) \<and> out \<noteq> Done (-1) \<longrightarrow> moved out = i + k)"
  using assms
proof (induction k arbitrary: i s)
  case 0
  then show ?case by simp
next
  case (Suc k)
  let ?pt = "pagetable (myproc s)" and ?p = "pipes s pi"
  consider (closed) "\<not> readopen ?p \<or> killed (cur s) s \<noteq> 0"
    | (full) "readopen ?p" "killed (cur s) s = 0" "nwrite ?p = nread ?p + of_nat PIPESIZE"
    | (fault) "readopen ?p" "killed (cur s) s = 0" "nwrite ?p \<noteq> nread ?p + of_nat PIPESIZE"
        "\<not> ureadable (phy s) ?pt (adr + of_nat i)"
    | (byte) "readopen ?p" "killed (cur s) s = 0" "nwrite ?p \<noteq> nread ?p + of_nat PIPESIZE"
        "ureadable (phy s) ?pt (adr + of_nat i)"
    by blast
  then show ?case
  proof cases
    case closed
    then show ?thesis using Suc.prems by simp
  next
    case full
    then show ?thesis using Suc.prems pq.full_iff [OF Suc.prems(2)] by simp
  next
    case fault
    then show ?thesis using Suc.prems copyin_byte [OF Suc.prems(1), of "adr + of_nat i"] by (auto intro: exI [of _ i])
  next
    case byte
    let ?c = "ubyte (phy s) ?pt (adr + of_nat i)"
    let ?s = "upd_pipe pi (pipe_put ?c) s"
    note put = pq.put_inv [OF Suc.prems(2) byte(3), of ?c] pq.put_contents [OF Suc.prems(2) byte(3), of ?c]
    have r: "pipewrite_run pi adr (Suc k) i s = pipewrite_run pi adr k (Suc i) ?s"
      using byte copyin_byte [OF Suc.prems(1), of "adr + of_nat i"] by simp
    have pre: "pt_wf (pmem (phy ?s)) 2 (pagetable (myproc ?s))" "pipe_inv (pipes ?s pi)" using Suc.prems put by simp_all
    have open': "readopen (pipes ?s pi) \<and> killed (cur ?s) ?s = 0" using byte by (simp add: pipe_put_def)
    obtain out s' where IH: "pipewrite_run pi adr k (Suc i) ?s = Inr (out, s')" "pipe_inv (pipes s' pi)"
      "phy s' = phy ?s" "readopen (pipes ?s pi) \<and> killed (cur ?s) ?s = 0 \<longrightarrow> out \<noteq> Done (-1)"
      "out \<noteq> Done (-1) \<longrightarrow> Suc i \<le> moved out \<and> moved out \<le> Suc i + k"
      "pipe_contents (pipes s' pi) = pipe_contents (pipes ?s pi) @ map (\<lambda>j. ubyte (phy ?s) (pagetable (myproc ?s))
        (adr + of_nat j)) [Suc i..<if out = Done (-1) then Suc i else moved out]"
      "\<forall>ch m. out = Blocked ch m \<longrightarrow> ch = ChPipeWrite pi \<and> length (pipe_contents (pipes s' pi)) = PIPESIZE"
      "(\<forall>j. Suc i \<le> j \<and> j < Suc i + k \<longrightarrow> ureadable (phy ?s) (pagetable (myproc ?s)) (adr + of_nat j))
        \<and> (\<forall>ch m. out \<noteq> Blocked ch m) \<and> out \<noteq> Done (-1) \<longrightarrow> moved out = Suc i + k"
      using Suc.IH [OF pre, of "Suc i"] by blast
    have nd: "out \<noteq> Done (-1)" using IH(4) open' by blast
    have c: "pipe_contents (pipes s' pi) = pipe_contents ?p @ map (\<lambda>j. ubyte (phy s) ?pt (adr + of_nat j)) (i # [Suc i..<moved out])"
      using IH(6) nd put(2) by simp
    have mv: "Suc i \<le> moved out" "moved out \<le> Suc i + k" using IH(5) nd by auto
    then have "[i..<moved out] = i # [Suc i..<moved out]" by (simp add: upt_conv_Cons)
    then show ?thesis unfolding r using IH(1,2,3,7,8) nd c mv
      by (intro exI [of _ out] exI [of _ s']) (simp del: upt_Suc)
  qed
qed

lemma piperead_loop_moves:
  assumes "separate (phy s) (pagetable (myproc s)) ps" and "pipe_inv (pipes s pi)"
    and "\<forall>j<i + k. uwritable (phy s) (pagetable (myproc s)) (adr + of_nat j)
      \<and> ureadable (phy s) (pagetable (myproc s)) (adr + of_nat j)"
    and "i + k < 2 ^ 64"
  shows "\<exists>n s'. piperead_loop pi adr k i s = Inr (int n, s') \<and> pipe_inv (pipes s' pi) \<and> i \<le> n \<and> n \<le> i + k
    \<and> procs s' = procs s \<and> cur s' = cur s \<and> user_only (phy s) (pagetable (myproc s)) ps (phy s')
    \<and> (\<forall>j<i. ubyte (phy s') (pagetable (myproc s)) (adr + of_nat j) = ubyte (phy s) (pagetable (myproc s)) (adr + of_nat j))
    \<and> pipe_contents (pipes s pi)
      = map (\<lambda>j. ubyte (phy s') (pagetable (myproc s)) (adr + of_nat j)) [i..<n] @ pipe_contents (pipes s' pi)
    \<and> (n < i + k \<longrightarrow> pipe_contents (pipes s' pi) = [])"
  using assms
proof (induction k arbitrary: i s)
  case 0
  then show ?case using user_only_refl by auto
next
  case (Suc k)
  let ?pt = "pagetable (myproc s)" and ?p = "pipes s pi"
  show ?case
  proof (cases "nread ?p = nwrite ?p")
    case True
    then have "pipe_contents ?p = []" using pq.empty_iff [OF Suc.prems(2)] by simp
    then show ?thesis using True Suc.prems(1,2) user_only_refl by (auto intro!: exI [of _ i])
  next
    case False
    obtain ch p where g: "pipe_get ?p = (ch, p)" by (cases "pipe_get ?p")
    have get: "pipe_inv p" "pipe_contents ?p = ch # pipe_contents p"
      using pq.get_inv [OF Suc.prems(2) False] pq.get_contents [OF Suc.prems(2) False] g by simp_all
    have w: "uwritable (phy s) ?pt (adr + of_nat i)" using Suc.prems(3) by simp
    obtain m where m: "copyout ?pt (adr + of_nat i) [ch] (phy s) = Inr (0, m)" "user_only (phy s) ?pt ps m"
      "\<forall>x. ureadable (phy s) ?pt x \<longrightarrow> ubyte m ?pt x = (if x = adr + of_nat i then ch else ubyte (phy s) ?pt x)"
      using copyout_byte [OF Suc.prems(1) w] by blast
    let ?s = "(upd_pipe pi (\<lambda>_. p) s)\<lparr>phy := m\<rparr>"
    have my: "myproc ?s = myproc s" by (simp add: myproc_def)
    have r: "piperead_loop pi adr (Suc k) i s = piperead_loop pi adr k (Suc i) ?s"
      using False g m(1) by (simp add: Let_def)
    have e: "pte_of m ?pt = pte_of (phy s) ?pt" using m(2) by (simp add: user_only_def)
    have "separate (phy ?s) (pagetable (myproc ?s)) ps" "pipe_inv (pipes ?s pi)" "Suc i + k < 2 ^ 64"
      using m(2) get(1) Suc.prems(4) my by (simp_all add: user_only_def)
    moreover have "\<forall>j<Suc i + k. uwritable (phy ?s) (pagetable (myproc ?s)) (adr + of_nat j)
        \<and> ureadable (phy ?s) (pagetable (myproc ?s)) (adr + of_nat j)"
      using Suc.prems(3) uwritable_cong [OF e] ureadable_cong [OF e] my by simp
    ultimately obtain n s' where IH: "piperead_loop pi adr k (Suc i) ?s = Inr (int n, s')" "pipe_inv (pipes s' pi)"
      "Suc i \<le> n" "n \<le> Suc i + k" "procs s' = procs s" "cur s' = cur s" "user_only m ?pt ps (phy s')"
      "\<forall>j<Suc i. ubyte (phy s') ?pt (adr + of_nat j) = ubyte m ?pt (adr + of_nat j)"
      "pipe_contents p = map (\<lambda>j. ubyte (phy s') ?pt (adr + of_nat j)) [Suc i..<n] @ pipe_contents (pipes s' pi)"
      "n < Suc i + k \<longrightarrow> pipe_contents (pipes s' pi) = []"
      using Suc.IH [of ?s "Suc i"] my by auto
    have inj: "adr + of_nat j \<noteq> adr + of_nat i" if "j < i" for j
    proof
      assume "adr + of_nat j = adr + of_nat i"
      then have "unat (of_nat j :: u64) = unat (of_nat i :: u64)" by simp
      then show False using that Suc.prems(4) by (simp add: unat_of_nat_id)
    qed
    have u: "user_only (phy s) ?pt ps (phy s')" using m(2) IH(7) by (rule user_only_trans)
    have "ubyte (phy s') ?pt (adr + of_nat j) = ubyte (phy s) ?pt (adr + of_nat j)" if "j < i" for j
      using IH(8) m(3) Suc.prems(3) inj that by simp
    moreover have "ubyte (phy s') ?pt (adr + of_nat i) = ch" using IH(8) m(3) Suc.prems(3) by simp
    moreover have "[i..<n] = i # [Suc i..<n]" using IH(3) by (simp add: upt_conv_Cons)
    ultimately show ?thesis
      unfolding r using IH u get(2) by (intro exI [of _ n] exI [of _ s']) auto
  qed
qed

section \<open>Streams\<close>

text \<open>
  A history of the pipe \<open>pi\<close>: \<open>pipe_run pi s w r s'\<close> when from \<open>s\<close> to \<open>s'\<close> the writers have moved the bytes \<open>w\<close> out of
  their memory and the readers have found the bytes \<open>r\<close> in theirs. Calls may block and continue (with the
  count so far), and anything that leaves the pipe alone may happen in between: user programs change their
  memory, other processes run.
\<close>

inductive pipe_run :: "addr \<Rightarrow> filst \<Rightarrow> byte list \<Rightarrow> byte list \<Rightarrow> filst \<Rightarrow> bool" for pi :: addr where
  start: "pipe_run pi s [] [] s"
| writes: "pipe_run pi s w r s1 \<Longrightarrow> pt_wf (pmem (phy s1)) 2 (pagetable (myproc s1)) \<Longrightarrow>
    pipewrite_run pi adr k i s1 = Inr (out, s2) \<Longrightarrow>
    w' = w @ map (\<lambda>j. ubyte (phy s1) (pagetable (myproc s1)) (adr + of_nat j)) [i..<if out = Done (-1) then i else moved out] \<Longrightarrow>
    pipe_run pi s w' r s2"
| reads: "pipe_run pi s w r s1 \<Longrightarrow> separate (phy s1) (pagetable (myproc s1)) ps \<Longrightarrow>
    \<forall>j<n. uwritable (phy s1) (pagetable (myproc s1)) (adr + of_nat j) \<and> ureadable (phy s1) (pagetable (myproc s1)) (adr + of_nat j) \<Longrightarrow>
    n < 2 ^ 31 \<Longrightarrow> piperead_run pi adr (int n) s1 = Inr (out, s2) \<Longrightarrow>
    r' = r @ map (\<lambda>j. ubyte (phy s2) (pagetable (myproc s1)) (adr + of_nat j)) [0..<moved out] \<Longrightarrow>
    pipe_run pi s w r' s2"
| other: "pipe_run pi s w r s1 \<Longrightarrow> pipes s2 pi = pipes s1 pi \<Longrightarrow> pipe_run pi s w r s2"

lemma piperead_run_moves:
  assumes "separate (phy s) (pagetable (myproc s)) ps" and "pipe_inv (pipes s pi)"
    and "\<forall>j<n. uwritable (phy s) (pagetable (myproc s)) (adr + of_nat j) \<and> ureadable (phy s) (pagetable (myproc s)) (adr + of_nat j)"
    and "n < 2 ^ 31" and r: "piperead_run pi adr (int n) s = Inr (out, s')"
  shows "pipe_inv (pipes s' pi) \<and> pipe_contents (pipes s pi)
    = map (\<lambda>j. ubyte (phy s') (pagetable (myproc s)) (adr + of_nat j)) [0..<moved out] @ pipe_contents (pipes s' pi)"
proof (cases "nread (pipes s pi) = nwrite (pipes s pi) \<and> writeopen (pipes s pi)")
  case True
  then show ?thesis using r assms(2) by (auto simp: piperead_run_def split: if_splits)
next
  case False
  obtain m s1 where "piperead_loop pi adr n 0 s = Inr (int m, s1)" "pipe_inv (pipes s1 pi)"
    "pipe_contents (pipes s pi) = map (\<lambda>j. ubyte (phy s1) (pagetable (myproc s)) (adr + of_nat j)) [0..<m] @ pipe_contents (pipes s1 pi)"
    using piperead_loop_moves [OF assms(1,2), of 0 n adr] assms(3,4) by auto
  then show ?thesis using r False by (auto simp: piperead_run_def)
qed

lemma pipe_run_stream:
  "pipe_run pi s w r s' \<Longrightarrow> pipe_inv (pipes s pi) \<Longrightarrow>
   pipe_inv (pipes s' pi) \<and> pipe_contents (pipes s pi) @ w = r @ pipe_contents (pipes s' pi)"
proof (induction rule: pipe_run.induct)
  case (writes s w r s1 adr k i out s2 w')
  then have inv: "pipe_inv (pipes s1 pi)" by simp
  from pipewrite_run_moves [OF writes.hyps(2) inv, of adr k i] writes.hyps(3)
  have "pipe_inv (pipes s2 pi)"
    "pipe_contents (pipes s2 pi) = pipe_contents (pipes s1 pi) @ map (\<lambda>j. ubyte (phy s1) (pagetable (myproc s1)) (adr + of_nat j))
      [i..<if out = Done (-1) then i else moved out]"
    by auto
  then show ?case using writes by simp
next
  case (reads s w r s1 ps n adr out s2 r')
  then have inv: "pipe_inv (pipes s1 pi)" by simp
  from piperead_run_moves [OF reads.hyps(2) inv reads.hyps(3,4,5)] reads show ?case by simp
qed simp_all


text \<open>No open files and no pipes.\<close>

definition free_file :: kfile where
  "free_file = \<lparr>f_type = FD_NONE, f_ref = 0, f_readable = False, f_writable = False, f_pipe = 0, f_ip = 0, f_off = 0, f_major = 0\<rparr>"

definition empty_pipe :: pipe where
  "empty_pipe = \<lparr>pdata = replicate PIPESIZE 5, nread = 0, nwrite = 0, readopen = True, writeopen = True\<rparr>"

definition boot_fil :: filst where
  "boot_fil = devst.extend boot_dev (filst.fields (\<lambda>_. free_file) (\<lambda>_. empty_pipe) [0, 0, 0, 0])"


end
