(* ===== verification/File.thy ===== *)
theory File
  imports Pipe
begin

text \<open>
  \<^verbatim>\<open>kernel/file.c\<close> and \<^verbatim>\<open>pipealloc\<close> of \<^verbatim>\<open>kernel/pipe.c\<close>: the table of open files. A \<open>struct file*\<close> is an
  index into \<open>ftable\<close>; a null pointer is \<open>None\<close>. Calls through \<^verbatim>\<open>devsw\<close> go to the functions
  \<^verbatim>\<open>consoleinit\<close> stores there.
\<close>

section \<open>Model\<close>

definition upd_file :: "nat \<Rightarrow> (kfile \<Rightarrow> kfile) \<Rightarrow> 'a filst_scheme \<Rightarrow> 'a filst_scheme" where
  "upd_file f g s = s\<lparr>ftable := (ftable s)(f := g (ftable s f))\<rparr>"

definition filealloc :: "'a filst_scheme \<Rightarrow> nat option \<times> 'a filst_scheme" where
  "filealloc s =
     (case find (\<lambda>f. f_ref (ftable s f) = 0) [0..<NFILE] of
        None \<Rightarrow> (None, s)
      | Some f \<Rightarrow> (Some f, upd_file f (\<lambda>x. x\<lparr>f_ref := 1\<rparr>) s))"

definition filedup :: "nat \<Rightarrow> 'a filst_scheme \<Rightarrow> 'a filst_scheme res" where
  "filedup f s =
     (if f_ref (ftable s f) < 1 then Inl (Panic ''filedup'')
      else Inr (upd_file f (\<lambda>x. x\<lparr>f_ref := f_ref x + 1\<rparr>) s))"

definition fileclose :: "nat \<Rightarrow> 'a filst_scheme \<Rightarrow> 'a filst_scheme res" where
  "fileclose f s =
     (if f_ref (ftable s f) < 1 then Inl (Panic ''fileclose'')
      else
        let s = upd_file f (\<lambda>x. x\<lparr>f_ref := f_ref x - 1\<rparr>) s in
        if f_ref (ftable s f) > 0 then Inr s
        else
          let ff = ftable s f;
              s = upd_file f (\<lambda>x. x\<lparr>f_ref := 0, f_type := FD_NONE\<rparr>) s
          in if f_type ff = FD_PIPE then pipeclose (f_pipe ff) (f_writable ff) s
             else if f_type ff = FD_INODE \<or> f_type ff = FD_DEVICE
             then rbind (begin_op s) (\<lambda>s.
                  rbind (iput (f_ip ff) s) (\<lambda>s.
                  end_op s))
             else Inr s)"

text \<open>The layout of \<open>struct stat\<close>; four bytes of padding precede the size.\<close>

definition stat_bytes :: "byte list \<Rightarrow> stat \<Rightarrow> byte list" where
  "stat_bytes pad st =
     le_bytes 4 (st_dev st) @ le_bytes 4 (st_ino st) @ le_bytes 2 (st_type st) @ le_bytes 2 (st_nlink st)
     @ take 4 pad @ le_bytes 8 (st_size st)"

definition filestat :: "nat \<Rightarrow> addr \<Rightarrow> 'a filst_scheme \<Rightarrow> (int \<times> 'a filst_scheme) res" where
  "filestat f adr s =
     (let x = ftable s f in
      if f_type x = FD_INODE \<or> f_type x = FD_DEVICE
      then
        rbind (ilock (f_ip x) s) (\<lambda>s.
          let st = stati (f_ip x) s in
          rbind (iunlock (f_ip x) s) (\<lambda>s.
          rbind (copyout (pagetable (myproc s)) adr (stat_bytes (stack_pad s) st) (phy s)) (\<lambda>(r, m).
            let s = s\<lparr>phy := m\<rparr> in
            if r < 0 then Inr (-1, s) else Inr (0, s))))
      else Inr (-1, s))"

definition dev_call :: "devfn \<Rightarrow> addr \<Rightarrow> int \<Rightarrow> 'a filst_scheme \<Rightarrow> (int \<times> 'a filst_scheme) res" where
  "dev_call fn adr n s = (case fn of
     ConsoleRead \<Rightarrow> rbind (consoleread (UserDst adr) n s) (\<lambda>(r, _, s). Inr (r, s))
   | ConsoleWrite \<Rightarrow> consolewrite (UserSrc adr) n s)"

definition valid_major :: "u16 \<Rightarrow> bool" where
  "valid_major m \<longleftrightarrow> \<not> (sint m < 0 \<or> sint m \<ge> int NDEV)"

definition fileread :: "nat \<Rightarrow> addr \<Rightarrow> int \<Rightarrow> 'a filst_scheme \<Rightarrow> (int \<times> 'a filst_scheme) res" where
  "fileread f adr n s =
     (let x = ftable s f in
      if \<not> f_readable x then Inr (-1, s)
      else case f_type x of
        FD_PIPE \<Rightarrow> piperead (f_pipe x) adr n s
      | FD_DEVICE \<Rightarrow>
          if \<not> valid_major (f_major x) then Inr (-1, s)
          else (case fst (devsw s (unat (f_major x))) of
              None \<Rightarrow> Inr (-1, s)
            | Some fn \<Rightarrow> dev_call fn adr n s)
      | FD_INODE \<Rightarrow>
          rbind (ilock (f_ip x) s) (\<lambda>s.
          rbind (readi (f_ip x) (UserDst adr) (f_off x) (of_int n) s) (\<lambda>(r, _, s).
            let s = (if r > 0 then upd_file f (\<lambda>x. x\<lparr>f_off := f_off x + of_int r\<rparr>) s else s) in
            rbind (iunlock (f_ip x) s) (\<lambda>s. Inr (r, s))))
      | FD_NONE \<Rightarrow> Inl (Panic ''fileread''))"

text \<open>
  The loop of \<^verbatim>\<open>filewrite\<close> over pieces of at most \<open>max\<close> bytes, each in a transaction of its
  own; it returns the number of bytes of the complete pieces.
\<close>

definition max_write :: nat where
  "max_write = (MAXOPBLOCKS - 1 - 1 - 2) div 2 * BSIZE"

function filewrite_loop :: "nat \<Rightarrow> addr \<Rightarrow> nat \<Rightarrow> nat \<Rightarrow> 'a filst_scheme \<Rightarrow> (nat \<times> 'a filst_scheme) res" where
  "filewrite_loop f adr n i s =
     (if i < n
      then
        let n1 = min (n - i) max_write; ip = f_ip (ftable s f) in
        rbind (begin_op s) (\<lambda>s.
        rbind (ilock ip s) (\<lambda>s.
        rbind (writei ip (UserSrc (adr + of_nat i)) (f_off (ftable s f)) (of_nat n1) s) (\<lambda>(r, s).
          let s = (if r > 0 then upd_file f (\<lambda>x. x\<lparr>f_off := f_off x + of_int r\<rparr>) s else s) in
          rbind (iunlock ip s) (\<lambda>s.
          rbind (end_op s) (\<lambda>s.
            if r \<noteq> int n1 then Inr (i, s) else filewrite_loop f adr n (i + n1) s)))))
      else Inr (i, s))"
  by pat_completeness auto
termination
  by (relation "measure (\<lambda>(f, adr, n, i, s). n - i)") (auto simp: max_write_def)

declare filewrite_loop.simps [simp del]

definition filewrite :: "nat \<Rightarrow> addr \<Rightarrow> int \<Rightarrow> 'a filst_scheme \<Rightarrow> (int \<times> 'a filst_scheme) res" where
  "filewrite f adr n s =
     (let x = ftable s f in
      if \<not> f_writable x then Inr (-1, s)
      else case f_type x of
        FD_PIPE \<Rightarrow> pipewrite (f_pipe x) adr n s
      | FD_DEVICE \<Rightarrow>
          if \<not> valid_major (f_major x) then Inr (-1, s)
          else (case snd (devsw s (unat (f_major x))) of
              None \<Rightarrow> Inr (-1, s)
            | Some fn \<Rightarrow> dev_call fn adr n s)
      | FD_INODE \<Rightarrow>
          rbind (filewrite_loop f adr (nat n) 0 s) (\<lambda>(i, s).
          Inr (if int i = n then n else -1, s))
      | FD_NONE \<Rightarrow> Inl (Panic ''filewrite''))"

definition close_opt :: "nat option \<Rightarrow> 'a filst_scheme \<Rightarrow> 'a filst_scheme res" where
  "close_opt f s = (case f of None \<Rightarrow> Inr s | Some f \<Rightarrow> fileclose f s)"

text \<open>
  \<^verbatim>\<open>pipealloc\<close>. The path \<^verbatim>\<open>bad\<close> is reached with \<^verbatim>\<open>pi\<close> null. A new page holds what \<^verbatim>\<open>kalloc\<close> fills it with.
\<close>

definition pipealloc :: "'a filst_scheme \<Rightarrow> (int \<times> (nat option \<times> nat option) \<times> 'a filst_scheme) res" where
  "pipealloc s =
     (let (f0, s) = filealloc s;
          (f1, s) = (if f0 = None then (None, s) else filealloc s);
          (pi, m) = (if f0 = None \<or> f1 = None then (0, phy s) else kalloc (phy s));
          s = s\<lparr>phy := m\<rparr>
      in if pi = 0
         then
           rbind (close_opt f0 s) (\<lambda>s.
           rbind (close_opt f1 s) (\<lambda>s.
           Inr (-1, (f0, f1), s)))
         else
           let s = upd_pipe pi (\<lambda>_. \<lparr>pdata = replicate PIPESIZE 5, nread = 0, nwrite = 0,
                 readopen = True, writeopen = True\<rparr>) s;
               s = upd_file (the f0) (\<lambda>x. x\<lparr>f_type := FD_PIPE, f_readable := True, f_writable := False, f_pipe := pi\<rparr>) s;
               s = upd_file (the f1) (\<lambda>x. x\<lparr>f_type := FD_PIPE, f_readable := False, f_writable := True, f_pipe := pi\<rparr>) s
           in Inr (0, (f0, f1), s))"

end
