(* ===== verification/Proc.thy ===== *)
theory Proc
  imports File
begin

text \<open>
  The life of a process, \<^verbatim>\<open>kernel/proc.c\<close>: allocation of a process with its trapframe and page
  table, \<^verbatim>\<open>fork\<close>, \<^verbatim>\<open>exit\<close>, \<^verbatim>\<open>wait\<close>, the first process, and growing and shrinking of the user memory. A
  trapframe is a page of physical memory; its fields are the 64-bit words at the
  offsets of \<open>struct trapframe\<close>.
\<close>

section \<open>Model\<close>

subsection \<open>Trapframes\<close>

datatype tfreg =
    kernel_satp | kernel_sp | kernel_trap | epc | kernel_hartid
  | tf_ra | tf_sp | tf_gp | tf_tp | tf_t0 | tf_t1 | tf_t2 | tf_s0 | tf_s1
  | tf_a0 | tf_a1 | tf_a2 | tf_a3 | tf_a4 | tf_a5 | tf_a6 | tf_a7
  | tf_s2 | tf_s3 | tf_s4 | tf_s5 | tf_s6 | tf_s7 | tf_s8 | tf_s9 | tf_s10 | tf_s11
  | tf_t3 | tf_t4 | tf_t5 | tf_t6

fun tf_off :: "tfreg \<Rightarrow> u64" where
  "tf_off kernel_satp = 0" | "tf_off kernel_sp = 8" | "tf_off kernel_trap = 16" | "tf_off epc = 24"
| "tf_off kernel_hartid = 32" | "tf_off tf_ra = 40" | "tf_off tf_sp = 48" | "tf_off tf_gp = 56"
| "tf_off tf_tp = 64" | "tf_off tf_t0 = 72" | "tf_off tf_t1 = 80" | "tf_off tf_t2 = 88"
| "tf_off tf_s0 = 96" | "tf_off tf_s1 = 104" | "tf_off tf_a0 = 112" | "tf_off tf_a1 = 120"
| "tf_off tf_a2 = 128" | "tf_off tf_a3 = 136" | "tf_off tf_a4 = 144" | "tf_off tf_a5 = 152"
| "tf_off tf_a6 = 160" | "tf_off tf_a7 = 168" | "tf_off tf_s2 = 176" | "tf_off tf_s3 = 184"
| "tf_off tf_s4 = 192" | "tf_off tf_s5 = 200" | "tf_off tf_s6 = 208" | "tf_off tf_s7 = 216"
| "tf_off tf_s8 = 224" | "tf_off tf_s9 = 232" | "tf_off tf_s10 = 240" | "tf_off tf_s11 = 248"
| "tf_off tf_t3 = 256" | "tf_off tf_t4 = 264" | "tf_off tf_t5 = 272" | "tf_off tf_t6 = 280"

definition tf_get :: "nat \<Rightarrow> tfreg \<Rightarrow> 'a kern_scheme \<Rightarrow> u64" where
  "tf_get p r s = load64 (trapframe (procs s p) + tf_off r) (pmem (phy s))"

definition tf_set :: "nat \<Rightarrow> tfreg \<Rightarrow> u64 \<Rightarrow> 'a kern_scheme \<Rightarrow> 'a kern_scheme" where
  "tf_set p r v s = s\<lparr>phy := (phy s)\<lparr>pmem := store64 (trapframe (procs s p) + tf_off r) v (pmem (phy s))\<rparr>\<rparr>"

subsection \<open>Allocating and freeing processes\<close>

definition proc_pagetable :: "nat \<Rightarrow> 'a kern_scheme \<Rightarrow> (addr \<times> 'a kern_scheme) res" where
  "proc_pagetable p s =
     (case uvmcreate (phy s) of (pt, m) \<Rightarrow>
        if pt = 0 then Inr (0, s\<lparr>phy := m\<rparr>)
        else
          rbind (mappages pt TRAMPOLINE PGSIZE (trampoline s) (PTE_R OR PTE_X) m) (\<lambda>(r, m).
            if r < 0 then rbind (uvmfree pt 0 m) (\<lambda>m. Inr (0, s\<lparr>phy := m\<rparr>))
            else
              rbind (mappages pt TRAPFRAME PGSIZE (trapframe (procs s p)) (PTE_R OR PTE_W) m) (\<lambda>(r, m).
                if r < 0
                then
                  rbind (uvmunmap pt TRAMPOLINE 1 False m) (\<lambda>m.
                  rbind (uvmfree pt 0 m) (\<lambda>m.
                  Inr (0, s\<lparr>phy := m\<rparr>)))
                else Inr (pt, s\<lparr>phy := m\<rparr>))))"

definition proc_freepagetable :: "addr \<Rightarrow> u64 \<Rightarrow> phys \<Rightarrow> phys res" where
  "proc_freepagetable pt sz m =
     rbind (uvmunmap pt TRAMPOLINE 1 False m) (\<lambda>m.
     rbind (uvmunmap pt TRAPFRAME 1 False m) (\<lambda>m.
     uvmfree pt sz m))"

definition freeproc :: "nat \<Rightarrow> 'a kern_scheme \<Rightarrow> 'a kern_scheme res" where
  "freeproc p s =
     (let x = procs s p in
      rbind (if trapframe x \<noteq> 0 then kfree (trapframe x) (phy s) else Inr (phy s)) (\<lambda>m.
      rbind (if pagetable x \<noteq> 0 then proc_freepagetable (pagetable x) (psz x) m else Inr m) (\<lambda>m.
      rbind (aset (pname x) 0 0) (\<lambda>nm.
      Inr (upd_proc p (\<lambda>x. x\<lparr>trapframe := 0, pagetable := 0, psz := 0, pid := 0, parent := None, pname := nm,
        pchan := None, pkilled := 0, xstate := 0, pstate := UNUSED\<rparr>) (s\<lparr>phy := m\<rparr>))))))"

definition allocproc :: "'a kern_scheme \<Rightarrow> (nat option \<times> 'a kern_scheme) res" where
  "allocproc s =
     (case find (\<lambda>p. pstate (procs s p) = UNUSED) [0..<NPROC] of
        None \<Rightarrow> Inr (None, s)
      | Some p \<Rightarrow>
          let (n, s) = allocpid s;
              s = upd_proc p (\<lambda>x. x\<lparr>pid := n, pstate := USED\<rparr>) s;
              (tf, m) = kalloc (phy s);
              s = upd_proc p (\<lambda>x. x\<lparr>trapframe := tf\<rparr>) (s\<lparr>phy := m\<rparr>)
          in if tf = 0 then rbind (freeproc p s) (\<lambda>s. Inr (None, s))
             else
               rbind (proc_pagetable p s) (\<lambda>(pt, s).
                 let s = upd_proc p (\<lambda>x. x\<lparr>pagetable := pt\<rparr>) s in
                 if pt = 0 then rbind (freeproc p s) (\<lambda>s. Inr (None, s))
                 else Inr (Some p, upd_proc p (\<lambda>x. x\<lparr>pcontext := \<lparr>ctx_ra = Forkret, ctx_sp = kstack x + PGSIZE\<rparr>\<rparr>) s)))"

subsection \<open>The first process\<close>

definition initcode :: "byte list" where
  "initcode =
    [0x17, 0x05, 0x00, 0x00, 0x13, 0x05, 0x45, 0x02,
     0x97, 0x05, 0x00, 0x00, 0x93, 0x85, 0x35, 0x02,
     0x93, 0x08, 0x70, 0x00, 0x73, 0x00, 0x00, 0x00,
     0x93, 0x08, 0x20, 0x00, 0x73, 0x00, 0x00, 0x00,
     0xef, 0xf0, 0x9f, 0xff, 0x2f, 0x69, 0x6e, 0x69,
     0x74, 0x00, 0x00, 0x24, 0x00, 0x00, 0x00, 0x00,
     0x00, 0x00, 0x00, 0x00]"

definition userinit :: "'a fss_scheme \<Rightarrow> 'a fss_scheme res" where
  "userinit s =
     rbind (allocproc s) (\<lambda>(r, s). case r of
       None \<Rightarrow> Inl OutOfBounds
     | Some p \<Rightarrow>
         let s = s\<lparr>initproc := p\<rparr> in
         rbind (uvmfirst (pagetable (procs s p)) initcode (phy s)) (\<lambda>m.
         let s = upd_proc p (\<lambda>x. x\<lparr>psz := PGSIZE\<rparr>) (s\<lparr>phy := m\<rparr>);
             s = tf_set p tf_sp PGSIZE (tf_set p epc 0 s)
         in
         rbind (safestrcpy (pname (procs s p)) (bytes ''initcode'' @ [0]) 16) (\<lambda>nm.
         rbind (namei [47, 0] (upd_proc p (\<lambda>x. x\<lparr>pname := nm\<rparr>) s)) (\<lambda>(ip, s).
         Inr (upd_proc p (\<lambda>x. x\<lparr>cwd := ip, pstate := RUNNABLE\<rparr>) s)))))"

subsection \<open>Growing memory\<close>

definition growproc :: "int \<Rightarrow> 'a kern_scheme \<Rightarrow> (int \<times> 'a kern_scheme) res" where
  "growproc n s =
     (let p = myproc s; sz = psz p in
      if n > 0
      then
        rbind (uvmalloc (pagetable p) sz (sz + of_int n) PTE_W (phy s)) (\<lambda>(sz, m).
          if sz = 0 then Inr (-1, s\<lparr>phy := m\<rparr>)
          else Inr (0, upd_proc (cur s) (\<lambda>x. x\<lparr>psz := sz\<rparr>) (s\<lparr>phy := m\<rparr>)))
      else if n < 0
      then
        rbind (uvmdealloc (pagetable p) sz (sz + of_int n) (phy s)) (\<lambda>(sz, m).
        Inr (0, upd_proc (cur s) (\<lambda>x. x\<lparr>psz := sz\<rparr>) (s\<lparr>phy := m\<rparr>)))
      else Inr (0, s))"

subsection \<open>Fork, exit and wait\<close>

text \<open>The loop of \<^verbatim>\<open>fork\<close> over the open files of the parent \<open>p\<close>.\<close>

definition dup_ofiles :: "nat \<Rightarrow> nat \<Rightarrow> 'a filst_scheme \<Rightarrow> 'a filst_scheme res" where
  "dup_ofiles p np s =
     rfold (\<lambda>i s. case ofile (procs s p) ! i of
         None \<Rightarrow> Inr s
       | Some f \<Rightarrow>
           rbind (filedup f s) (\<lambda>s.
           Inr (upd_proc np (\<lambda>x. x\<lparr>ofile := (ofile x)[i := Some f]\<rparr>) s))) [0..<NOFILE] s"

definition copy_trapframe :: "nat \<Rightarrow> nat \<Rightarrow> 'a kern_scheme \<Rightarrow> 'a kern_scheme" where
  "copy_trapframe p np s =
     s\<lparr>phy := (phy s)\<lparr>pmem := store_bytes (trapframe (procs s np))
         (load_bytes (trapframe (procs s p)) 288 (pmem (phy s))) (pmem (phy s))\<rparr>\<rparr>"

definition fork :: "'a filst_scheme \<Rightarrow> (int \<times> 'a filst_scheme) res" where
  "fork s =
     (let p = cur s in
      rbind (allocproc s) (\<lambda>(r, s). case r of
        None \<Rightarrow> Inr (-1, s)
      | Some np \<Rightarrow>
          rbind (uvmcopy (pagetable (procs s p)) (pagetable (procs s np)) (psz (procs s p)) (phy s)) (\<lambda>(r, m).
            let s = s\<lparr>phy := m\<rparr> in
            if r < 0 then rbind (freeproc np s) (\<lambda>s. Inr (-1, s))
            else
              let s = upd_proc np (\<lambda>x. x\<lparr>psz := psz (procs s p)\<rparr>) s;
                  s = tf_set np tf_a0 0 (copy_trapframe p np s)
              in
              rbind (dup_ofiles p np s) (\<lambda>s.
              rbind (case cwd (procs s p) of None \<Rightarrow> Inl OutOfBounds | Some ip \<Rightarrow> Inr (ip, idup ip s)) (\<lambda>(ip, s).
              rbind (safestrcpy (pname (procs s np)) (pname (procs s p)) 16) (\<lambda>nm.
              Inr (pid (procs s np),
                upd_proc np (\<lambda>x. x\<lparr>cwd := Some ip, pname := nm, parent := Some p, pstate := RUNNABLE\<rparr>) s)))))))"

definition close_ofiles :: "nat \<Rightarrow> 'a filst_scheme \<Rightarrow> 'a filst_scheme res" where
  "close_ofiles p s =
     rfold (\<lambda>fd s. case ofile (procs s p) ! fd of
         None \<Rightarrow> Inr s
       | Some f \<Rightarrow>
           rbind (fileclose f s) (\<lambda>s.
           Inr (upd_proc p (\<lambda>x. x\<lparr>ofile := (ofile x)[fd := None]\<rparr>) s))) [0..<NOFILE] s"

text \<open>\<^verbatim>\<open>exit\<close> ends in \<^verbatim>\<open>sched\<close>; the result is the state in which the scheduler continues.\<close>

definition exit_proc :: "int \<Rightarrow> 'a filst_scheme \<Rightarrow> 'a filst_scheme res" where
  "exit_proc status s =
     (let p = cur s in
      if p = initproc s then Inl (Panic ''init exiting'')
      else
        rbind (close_ofiles p s) (\<lambda>s.
        rbind (begin_op s) (\<lambda>s.
        rbind (case cwd (procs s p) of None \<Rightarrow> Inl OutOfBounds | Some ip \<Rightarrow> iput ip s) (\<lambda>s.
        rbind (end_op s) (\<lambda>s.
        let s = upd_proc p (\<lambda>x. x\<lparr>cwd := None\<rparr>) s;
            s = reparent p s;
            s = (case parent (procs s p) of None \<Rightarrow> s | Some q \<Rightarrow> wakeup (ChProc q) s);
            s = upd_proc p (\<lambda>x. x\<lparr>xstate := status, pstate := ZOMBIE\<rparr>) s
        in sched s)))))"

text \<open>The scan of \<^verbatim>\<open>wait\<close> over the process table, from where it stands.\<close>

fun wait_scan :: "nat \<Rightarrow> addr \<Rightarrow> nat list \<Rightarrow> bool \<Rightarrow> 'a kern_scheme \<Rightarrow> (int \<times> 'a kern_scheme) res" where
  "wait_scan p adr [] havekids s =
     (if \<not> havekids \<or> killed p s \<noteq> 0 then Inr (-1, s) else Inl (Sleeps (ChProc p)))"
| "wait_scan p adr (pp # pps) havekids s =
     (if parent (procs s pp) = Some p
      then
        if pstate (procs s pp) = ZOMBIE
        then
          let k = pid (procs s pp) in
          rbind (if adr \<noteq> 0
                 then copyout (pagetable (procs s p)) adr (le_bytes 4 (of_int (xstate (procs s pp)) :: u32)) (phy s)
                 else Inr (0, phy s)) (\<lambda>(r, m).
            let s = s\<lparr>phy := m\<rparr> in
            if r < 0 then Inr (-1, s) else rbind (freeproc pp s) (\<lambda>s. Inr (k, s)))
        else wait_scan p adr pps True s
      else wait_scan p adr pps havekids s)"

definition wait :: "addr \<Rightarrow> 'a kern_scheme \<Rightarrow> (int \<times> 'a kern_scheme) res" where
  "wait adr s = wait_scan (cur s) adr [0..<NPROC] False s"

end
