(* ===== verification/Exec.thy ===== *)
theory Exec
  imports Proc
begin

text \<open>
  \<^verbatim>\<open>kernel/exec.c\<close> with the ELF structures of \<^verbatim>\<open>kernel/elf.h\<close>. The arguments of the new
  program are given by the addresses of the pages that hold them, a null pointer ends the
  array. The pages of the process that calls \<^verbatim>\<open>exec\<close> stay as they are until the new image is complete.
\<close>

section \<open>Model\<close>

definition get64 :: "nat \<Rightarrow> byte list \<Rightarrow> u64" where
  "get64 off d = le_word (get_bytes off 8 d)"

record elfhdr =
  elf_magic :: u32
  elf_entry :: u64
  elf_phoff :: u64
  elf_phnum :: u16

definition get_elfhdr :: "byte list \<Rightarrow> elfhdr" where
  "get_elfhdr d = \<lparr>elf_magic = get32 0 d, elf_entry = get64 24 d, elf_phoff = get64 32 d, elf_phnum = get16 56 d\<rparr>"

record proghdr =
  ph_type :: u32
  ph_flags :: u32
  ph_off :: u64
  ph_vaddr :: u64
  ph_filesz :: u64
  ph_memsz :: u64

definition get_proghdr :: "byte list \<Rightarrow> proghdr" where
  "get_proghdr d = \<lparr>ph_type = get32 0 d, ph_flags = get32 4 d, ph_off = get64 8 d, ph_vaddr = get64 16 d,
     ph_filesz = get64 32 d, ph_memsz = get64 40 d\<rparr>"

definition ELF_MAGIC :: u32 where [simp]: "ELF_MAGIC = 0x464C457F"
definition ELF_PROG_LOAD :: u32 where [simp]: "ELF_PROG_LOAD = 1"

definition flags2perm :: "u32 \<Rightarrow> u64" where
  "flags2perm flags =
     (let perm = (if flags AND 0x1 \<noteq> 0 then PTE_X else 0) in
      if flags AND 0x2 \<noteq> 0 then perm OR PTE_W else perm)"

text \<open>\<open>i\<close> stays below \<open>sz\<close>, so that it does not wrap around.\<close>

function loadseg_loop :: "addr \<Rightarrow> u64 \<Rightarrow> nat \<Rightarrow> u32 \<Rightarrow> nat \<Rightarrow> nat \<Rightarrow> 'a fss_scheme \<Rightarrow> (int \<times> 'a fss_scheme) res" where
  "loadseg_loop pt va ip offset sz i s =
     (if i < sz
      then
        rbind (walkaddr pt (va + of_nat i) (phy s)) (\<lambda>pa.
          if pa = 0 then Inl (Panic ''loadseg: address should exist'')
          else
            let n = (if sz - i < unat PGSIZE then sz - i else unat PGSIZE) in
            rbind (readi ip (KernDst pa) (offset + of_nat i) (of_nat n) s) (\<lambda>(r, _, s).
              if r \<noteq> int n then Inr (-1, s) else loadseg_loop pt va ip offset sz (i + unat PGSIZE) s))
      else Inr (0, s))"
  by pat_completeness auto
termination
  by (relation "measure (\<lambda>(pt, va, ip, offset, sz, i, s). sz - i)") auto

declare loadseg_loop.simps [simp del]

definition loadseg :: "addr \<Rightarrow> u64 \<Rightarrow> nat \<Rightarrow> u32 \<Rightarrow> u32 \<Rightarrow> 'a fss_scheme \<Rightarrow> (int \<times> 'a fss_scheme) res" where
  "loadseg pt va ip offset sz s = loadseg_loop pt va ip offset (unat sz) 0 s"

text \<open>
  The loop over the program headers, with the number of headers left. The result is whether
  all segments were loaded, and the size of the image so far.
\<close>

fun load_phdrs :: "nat \<Rightarrow> nat \<Rightarrow> addr \<Rightarrow> u32 \<Rightarrow> u64 \<Rightarrow> 'a fss_scheme \<Rightarrow> (bool \<times> u64 \<times> 'a fss_scheme) res" where
  "load_phdrs 0 ip pt off sz s = Inr (True, sz, s)"
| "load_phdrs (Suc k) ip pt off sz s =
     rbind (readi ip LocalDst off 56 s) (\<lambda>(r, bs, s).
       let ph = get_proghdr bs in
       if r \<noteq> 56 then Inr (False, sz, s)
       else if ph_type ph \<noteq> ELF_PROG_LOAD then load_phdrs k ip pt (off + 56) sz s
       else if ph_memsz ph < ph_filesz ph then Inr (False, sz, s)
       else if ph_vaddr ph + ph_memsz ph < ph_vaddr ph then Inr (False, sz, s)
       else if ph_vaddr ph mod PGSIZE \<noteq> 0 then Inr (False, sz, s)
       else
         rbind (uvmalloc pt sz (ph_vaddr ph + ph_memsz ph) (flags2perm (ph_flags ph)) (phy s)) (\<lambda>(sz1, m).
           let s = s\<lparr>phy := m\<rparr> in
           if sz1 = 0 then Inr (False, sz, s)
           else
             rbind (loadseg pt (ph_vaddr ph) ip (ucast (ph_off ph)) (ucast (ph_filesz ph)) s) (\<lambda>(r, s).
               if r < 0 then Inr (False, sz1, s) else load_phdrs k ip pt (off + 56) sz1 s)))"

text \<open>
  The loop that pushes the argument strings: the stack pointer and the array of pointers, or
  \<open>None\<close> when the arguments do not fit.
\<close>

fun push_args :: "addr \<Rightarrow> u64 \<Rightarrow> addr list \<Rightarrow> nat \<Rightarrow> u64 \<Rightarrow> u64 list \<Rightarrow> phys \<Rightarrow> ((nat \<times> u64 \<times> u64 list) option \<times> phys) res" where
  "push_args pt stackbase [] argc sp ustack m = Inr (Some (argc, sp, ustack), m)"
| "push_args pt stackbase (a # argv) argc sp ustack m =
     (if argc \<ge> MAXARG then Inr (None, m)
      else
        let str = load_bytes a (unat PGSIZE) (pmem m) in
        rbind (strlen str) (\<lambda>n.
          let sp = sp - of_nat (n + 1);
              sp = sp - sp mod 16
          in if sp < stackbase then Inr (None, m)
             else
               rbind (copyout pt sp (take (n + 1) str) m) (\<lambda>(r, m).
                 if r < 0 then Inr (None, m)
                 else rbind (aset ustack argc sp) (\<lambda>ustack.
                      push_args pt stackbase argv (argc + 1) sp ustack m))))"

text \<open>The part of a path after its last slash.\<close>

fun last_elem :: "byte list \<Rightarrow> byte list \<Rightarrow> byte list res" where
  "last_elem [] lst = Inl OutOfBounds"
| "last_elem (c # cs) lst = (if c = 0 then Inr lst else last_elem cs (if c = 47 then cs else lst))"

text \<open>The label \<^verbatim>\<open>bad\<close>.\<close>

definition exec_bad :: "addr \<Rightarrow> u64 \<Rightarrow> nat option \<Rightarrow> 'a fss_scheme \<Rightarrow> (int \<times> 'a fss_scheme) res" where
  "exec_bad pt sz ip s =
     rbind (if pt \<noteq> 0 then proc_freepagetable pt sz (phy s) else Inr (phy s)) (\<lambda>m.
     let s = s\<lparr>phy := m\<rparr> in
     case ip of
       None \<Rightarrow> Inr (-1, s)
     | Some ip \<Rightarrow>
         rbind (iunlockput ip s) (\<lambda>s.
         rbind (end_op s) (\<lambda>s.
         Inr (-1, s))))"

text \<open>The stack of the new image: a guard page and a page with the arguments.\<close>

definition exec_stack :: "addr \<Rightarrow> u64 \<Rightarrow> addr list \<Rightarrow> phys \<Rightarrow> (u64 \<times> (nat \<times> u64) option \<times> phys) res" where
  "exec_stack pt sz argv m =
     rbind (uvmalloc pt sz (sz + 2 * PGSIZE) PTE_W m) (\<lambda>(sz1, m).
       if sz1 = 0 then Inr (sz, None, m)
       else
         rbind (uvmclear pt (sz1 - 2 * PGSIZE) m) (\<lambda>m.
         let stackbase = sz1 - PGSIZE in
         rbind (push_args pt stackbase argv 0 sz1 (replicate MAXARG 0) m) (\<lambda>(r, m). case r of
           None \<Rightarrow> Inr (sz1, None, m)
         | Some (argc, sp, ustack) \<Rightarrow>
             rbind (aset ustack argc 0) (\<lambda>ustack.
             let sp = sp - of_nat (argc + 1) * 8;
                 sp = sp - sp mod 16
             in if sp < stackbase then Inr (sz1, None, m)
                else
                  rbind (copyout pt sp (concat (map (le_bytes 8) (take (argc + 1) ustack))) m) (\<lambda>(r, m).
                  Inr (sz1, if r < 0 then None else Some (argc, sp), m))))))"

definition exec :: "byte list \<Rightarrow> addr list \<Rightarrow> 'a fss_scheme \<Rightarrow> (int \<times> 'a fss_scheme) res" where
  "exec path argv s =
     (let p = cur s in
      rbind (begin_op s) (\<lambda>s.
      rbind (namei path s) (\<lambda>(ip, s). case ip of
        None \<Rightarrow> rbind (end_op s) (\<lambda>s. Inr (-1, s))
      | Some ip \<Rightarrow>
          rbind (ilock ip s) (\<lambda>s.
          rbind (readi ip LocalDst 0 64 s) (\<lambda>(r, bs, s).
            let elf = get_elfhdr bs in
            if r \<noteq> 64 then exec_bad 0 0 (Some ip) s
            else if elf_magic elf \<noteq> ELF_MAGIC then exec_bad 0 0 (Some ip) s
            else
              rbind (proc_pagetable p s) (\<lambda>(pt, s).
                if pt = 0 then exec_bad 0 0 (Some ip) s
                else
                  rbind (load_phdrs (unat (elf_phnum elf)) ip pt (ucast (elf_phoff elf)) 0 s) (\<lambda>(ok, sz, s).
                    if \<not> ok then exec_bad pt sz (Some ip) s
                    else
                      rbind (iunlockput ip s) (\<lambda>s.
                      rbind (end_op s) (\<lambda>s.
                      let oldsz = psz (procs s p) in
                      rbind (exec_stack pt (PGROUNDUP sz) argv (phy s)) (\<lambda>(sz, r, m).
                        let s = s\<lparr>phy := m\<rparr> in
                        case r of
                          None \<Rightarrow> exec_bad pt sz None s
                        | Some (argc, sp) \<Rightarrow>
                            let s = tf_set p tf_a1 sp s in
                            rbind (last_elem path path) (\<lambda>lst.
                            rbind (safestrcpy (pname (procs s p)) lst 16) (\<lambda>nm.
                            let oldpagetable = pagetable (procs s p);
                                s = upd_proc p (\<lambda>x. x\<lparr>pname := nm, pagetable := pt, psz := sz\<rparr>) s;
                                s = tf_set p tf_sp sp (tf_set p epc (elf_entry elf) s)
                            in
                            rbind (proc_freepagetable oldpagetable oldsz (phy s)) (\<lambda>m.
                            Inr (int argc, s\<lparr>phy := m\<rparr>))))))))))))))"

end
