(* ===== verification/Sysfile.thy ===== *)
theory Sysfile
  imports Exec
begin

text \<open>
  The arguments of system calls (\<^verbatim>\<open>kernel/syscall.c\<close>) and the file-system calls of
  \<^verbatim>\<open>kernel/sysfile.c\<close>. A system call takes its arguments from the trapframe of the current process and
  returns the value for register \<open>a0\<close>.
\<close>

section \<open>Model\<close>

subsection \<open>Arguments\<close>

definition fetchaddr :: "u64 \<Rightarrow> 'a kern_scheme \<Rightarrow> (int \<times> u64) res" where
  "fetchaddr adr s =
     (let p = myproc s in
      if adr \<ge> psz p \<or> adr + 8 > psz p then Inr (-1, 0)
      else
        rbind (copyin (pagetable p) adr 8 (phy s)) (\<lambda>(r, bs).
        Inr (if r \<noteq> 0 then (-1, 0) else (0, le_word bs))))"

text \<open>The result is that of \<^verbatim>\<open>fetchstr\<close>, and the bytes stored in \<^verbatim>\<open>buf\<close>.\<close>

definition fetchstr :: "u64 \<Rightarrow> nat \<Rightarrow> 'a kern_scheme \<Rightarrow> (int \<times> byte list) res" where
  "fetchstr adr mx s =
     rbind (copyinstr (pagetable (myproc s)) adr mx (phy s)) (\<lambda>(r, bs).
       if r < 0 then Inr (-1, bs) else rbind (strlen bs) (\<lambda>n. Inr (int n, bs)))"

definition argraw :: "nat \<Rightarrow> 'a kern_scheme \<Rightarrow> u64 res" where
  "argraw n s =
     (if n = 0 then Inr (tf_get (cur s) tf_a0 s)
      else if n = 1 then Inr (tf_get (cur s) tf_a1 s)
      else if n = 2 then Inr (tf_get (cur s) tf_a2 s)
      else if n = 3 then Inr (tf_get (cur s) tf_a3 s)
      else if n = 4 then Inr (tf_get (cur s) tf_a4 s)
      else if n = 5 then Inr (tf_get (cur s) tf_a5 s)
      else Inl (Panic ''argraw''))"

definition argint :: "nat \<Rightarrow> 'a kern_scheme \<Rightarrow> int res" where
  "argint n s = rbind (argraw n s) (\<lambda>v. Inr (sint (ucast v :: u32)))"

definition argaddr :: "nat \<Rightarrow> 'a kern_scheme \<Rightarrow> u64 res" where
  "argaddr n s = argraw n s"

definition argstr :: "nat \<Rightarrow> nat \<Rightarrow> 'a kern_scheme \<Rightarrow> (int \<times> byte list) res" where
  "argstr n mx s = rbind (argaddr n s) (\<lambda>adr. fetchstr adr mx s)"

subsection \<open>File descriptors\<close>

definition argfd :: "nat \<Rightarrow> 'a kern_scheme \<Rightarrow> (nat \<times> nat) option res" where
  "argfd n s =
     rbind (argint n s) (\<lambda>fd.
       if fd < 0 \<or> fd \<ge> int NOFILE then Inr None
       else Inr (case ofile (myproc s) ! nat fd of None \<Rightarrow> None | Some f \<Rightarrow> Some (nat fd, f)))"

definition fdalloc :: "nat \<Rightarrow> 'a kern_scheme \<Rightarrow> int \<times> 'a kern_scheme" where
  "fdalloc f s =
     (case find (\<lambda>fd. ofile (myproc s) ! fd = None) [0..<NOFILE] of
        None \<Rightarrow> (-1, s)
      | Some fd \<Rightarrow> (int fd, upd_proc (cur s) (\<lambda>x. x\<lparr>ofile := (ofile x)[fd := Some f]\<rparr>) s))"

definition clear_fd :: "nat \<Rightarrow> 'a kern_scheme \<Rightarrow> 'a kern_scheme" where
  "clear_fd fd s = upd_proc (cur s) (\<lambda>x. x\<lparr>ofile := (ofile x)[fd := None]\<rparr>) s"

definition sys_dup :: "'a filst_scheme \<Rightarrow> (u64 \<times> 'a filst_scheme) res" where
  "sys_dup s =
     rbind (argfd 0 s) (\<lambda>r. case r of
       None \<Rightarrow> Inr (-1, s)
     | Some (_, f) \<Rightarrow>
         let (fd, s) = fdalloc f s in
         if fd < 0 then Inr (-1, s)
         else rbind (filedup f s) (\<lambda>s. Inr (of_int fd, s)))"

definition sys_read :: "'a filst_scheme \<Rightarrow> (u64 \<times> 'a filst_scheme) res" where
  "sys_read s =
     rbind (argaddr 1 s) (\<lambda>p.
     rbind (argint 2 s) (\<lambda>n.
     rbind (argfd 0 s) (\<lambda>r. case r of
       None \<Rightarrow> Inr (-1, s)
     | Some (_, f) \<Rightarrow> rbind (fileread f p n s) (\<lambda>(r, s). Inr (of_int r, s)))))"

definition sys_write :: "'a filst_scheme \<Rightarrow> (u64 \<times> 'a filst_scheme) res" where
  "sys_write s =
     rbind (argaddr 1 s) (\<lambda>p.
     rbind (argint 2 s) (\<lambda>n.
     rbind (argfd 0 s) (\<lambda>r. case r of
       None \<Rightarrow> Inr (-1, s)
     | Some (_, f) \<Rightarrow> rbind (filewrite f p n s) (\<lambda>(r, s). Inr (of_int r, s)))))"

definition sys_close :: "'a filst_scheme \<Rightarrow> (u64 \<times> 'a filst_scheme) res" where
  "sys_close s =
     rbind (argfd 0 s) (\<lambda>r. case r of
       None \<Rightarrow> Inr (-1, s)
     | Some (fd, f) \<Rightarrow> rbind (fileclose f (clear_fd fd s)) (\<lambda>s. Inr (0, s)))"

definition sys_fstat :: "'a filst_scheme \<Rightarrow> (u64 \<times> 'a filst_scheme) res" where
  "sys_fstat s =
     rbind (argaddr 1 s) (\<lambda>st.
     rbind (argfd 0 s) (\<lambda>r. case r of
       None \<Rightarrow> Inr (-1, s)
     | Some (_, f) \<Rightarrow> rbind (filestat f st s) (\<lambda>(r, s). Inr (of_int r, s))))"

subsection \<open>Names\<close>

text \<open>\<open>nlink\<close> is a 16-bit counter.\<close>

definition add_nlink :: "nat \<Rightarrow> u16 \<Rightarrow> 'a fss_scheme \<Rightarrow> 'a fss_scheme" where
  "add_nlink ip d s = upd_inode ip (\<lambda>x. x\<lparr>i_nlink := i_nlink x + d\<rparr>) s"

text \<open>End of the transaction with the value to return.\<close>

definition end_ret :: "u64 \<Rightarrow> 'a logst_scheme \<Rightarrow> (u64 \<times> 'a logst_scheme) res" where
  "end_ret v s = rbind (end_op s) (\<lambda>s. Inr (v, s))"

text \<open>The label \<^verbatim>\<open>bad\<close> of \<^verbatim>\<open>sys_link\<close>.\<close>

definition link_bad :: "nat \<Rightarrow> 'a fss_scheme \<Rightarrow> (u64 \<times> 'a fss_scheme) res" where
  "link_bad ip s =
     rbind (ilock ip s) (\<lambda>s.
     rbind (iupdate ip (add_nlink ip (-1) s)) (\<lambda>s.
     rbind (iunlockput ip s) (\<lambda>s.
     end_ret (-1) s)))"

definition sys_link :: "'a fss_scheme \<Rightarrow> (u64 \<times> 'a fss_scheme) res" where
  "sys_link s =
     rbind (argstr 0 MAXPATH s) (\<lambda>(r0, old).
     rbind (if r0 < 0 then Inr (r0, []) else argstr 1 MAXPATH s) (\<lambda>(r1, nw).
       if r0 < 0 \<or> r1 < 0 then Inr (-1, s)
       else
         rbind (begin_op s) (\<lambda>s.
         rbind (namei old s) (\<lambda>(ip, s). case ip of
           None \<Rightarrow> end_ret (-1) s
         | Some ip \<Rightarrow>
             rbind (ilock ip s) (\<lambda>s.
               if i_type (itable s ip) = T_DIR
               then rbind (iunlockput ip s) (\<lambda>s. end_ret (-1) s)
               else
                 rbind (iupdate ip (add_nlink ip 1 s)) (\<lambda>s.
                 rbind (iunlock ip s) (\<lambda>s.
                 rbind (nameiparent nw (replicate DIRSIZ 0) s) (\<lambda>(dp, nm, s). case dp of
                   None \<Rightarrow> link_bad ip s
                 | Some dp \<Rightarrow>
                     rbind (ilock dp s) (\<lambda>s.
                     rbind (if i_dev (itable s dp) \<noteq> i_dev (itable s ip) then Inr (-1, s)
                            else dirlink dp nm (i_inum (itable s ip)) s) (\<lambda>(r, s).
                       if r < 0 then rbind (iunlockput dp s) (\<lambda>s. link_bad ip s)
                       else
                         rbind (iunlockput dp s) (\<lambda>s.
                         rbind (iput ip s) (\<lambda>s.
                         end_ret 0 s))))))))))))"

function isdirempty_loop :: "nat \<Rightarrow> nat \<Rightarrow> nat \<Rightarrow> 'a fss_scheme \<Rightarrow> (bool \<times> 'a fss_scheme) res" where
  "isdirempty_loop lim off dp s =
     (if off < lim
      then
        rbind (readi dp LocalDst (of_nat off) 16 s) (\<lambda>(r, bs, s).
          if r \<noteq> 16 then Inl (Panic ''isdirempty: readi'')
          else if de_inum (get_dirent bs) \<noteq> 0 then Inr (False, s)
          else isdirempty_loop lim (off + 16) dp s)
      else Inr (True, s))"
  by pat_completeness auto
termination
  by (relation "measure (\<lambda>(lim, off, dp, s). lim - off)") auto

declare isdirempty_loop.simps [simp del]

definition isdirempty :: "nat \<Rightarrow> 'a fss_scheme \<Rightarrow> (bool \<times> 'a fss_scheme) res" where
  "isdirempty dp s = isdirempty_loop (unat (i_size (itable s dp))) 32 dp s"

definition unlink_bad :: "nat \<Rightarrow> 'a fss_scheme \<Rightarrow> (u64 \<times> 'a fss_scheme) res" where
  "unlink_bad dp s = rbind (iunlockput dp s) (\<lambda>s. end_ret (-1) s)"

definition sys_unlink :: "'a fss_scheme \<Rightarrow> (u64 \<times> 'a fss_scheme) res" where
  "sys_unlink s =
     rbind (argstr 0 MAXPATH s) (\<lambda>(r, path).
       if r < 0 then Inr (-1, s)
       else
         rbind (begin_op s) (\<lambda>s.
         rbind (nameiparent path (replicate DIRSIZ 0) s) (\<lambda>(dp, nm, s). case dp of
           None \<Rightarrow> end_ret (-1) s
         | Some dp \<Rightarrow>
             rbind (ilock dp s) (\<lambda>s.
             rbind (namecmp nm [46, 0]) (\<lambda>c1.
             rbind (if c1 = 0 then Inr 0 else namecmp nm [46, 46, 0]) (\<lambda>c2.
               if c1 = 0 \<or> c2 = 0 then unlink_bad dp s
               else
                 rbind (dirlookup dp nm s) (\<lambda>(r, s). case r of
                   None \<Rightarrow> unlink_bad dp s
                 | Some (ip, off) \<Rightarrow>
                     rbind (ilock ip s) (\<lambda>s.
                       if sint (i_nlink (itable s ip)) < 1 then Inl (Panic ''unlink: nlink < 1'')
                       else
                         rbind (if i_type (itable s ip) = T_DIR then isdirempty ip s else Inr (True, s)) (\<lambda>(e, s).
                           if \<not> e then rbind (iunlockput ip s) (\<lambda>s. unlink_bad dp s)
                           else
                             rbind (writei dp (LocalSrc (replicate 16 0)) (of_nat off) 16 s) (\<lambda>(r, s).
                               if r \<noteq> 16 then Inl (Panic ''unlink: writei'')
                               else
                                 rbind (if i_type (itable s ip) = T_DIR then iupdate dp (add_nlink dp (-1) s)
                                        else Inr s) (\<lambda>s.
                                 rbind (iunlockput dp s) (\<lambda>s.
                                 rbind (iupdate ip (add_nlink ip (-1) s)) (\<lambda>s.
                                 rbind (iunlockput ip s) (\<lambda>s.
                                 end_ret 0 s))))))))))))))"

definition create_fail :: "nat \<Rightarrow> nat \<Rightarrow> 'a fss_scheme \<Rightarrow> (nat option \<times> 'a fss_scheme) res" where
  "create_fail ip dp s =
     rbind (iupdate ip (upd_inode ip (\<lambda>x. x\<lparr>i_nlink := 0\<rparr>) s)) (\<lambda>s.
     rbind (iunlockput ip s) (\<lambda>s.
     rbind (iunlockput dp s) (\<lambda>s.
     Inr (None, s))))"

definition create :: "byte list \<Rightarrow> u16 \<Rightarrow> u16 \<Rightarrow> u16 \<Rightarrow> 'a fss_scheme \<Rightarrow> (nat option \<times> 'a fss_scheme) res" where
  "create path type major minor s =
     rbind (nameiparent path (replicate DIRSIZ 0) s) (\<lambda>(dp, nm, s). case dp of
       None \<Rightarrow> Inr (None, s)
     | Some dp \<Rightarrow>
         rbind (ilock dp s) (\<lambda>s.
         rbind (dirlookup dp nm s) (\<lambda>(r, s). case r of
           Some (ip, _) \<Rightarrow>
             rbind (iunlockput dp s) (\<lambda>s.
             rbind (ilock ip s) (\<lambda>s.
               if type = T_FILE \<and> (i_type (itable s ip) = T_FILE \<or> i_type (itable s ip) = T_DEVICE)
               then Inr (Some ip, s)
               else rbind (iunlockput ip s) (\<lambda>s. Inr (None, s))))
         | None \<Rightarrow>
             rbind (ialloc (i_dev (itable s dp)) type s) (\<lambda>(r, s). case r of
               None \<Rightarrow> rbind (iunlockput dp s) (\<lambda>s. Inr (None, s))
             | Some ip \<Rightarrow>
                 rbind (ilock ip s) (\<lambda>s.
                 let s = upd_inode ip (\<lambda>x. x\<lparr>i_major := major, i_minor := minor, i_nlink := 1\<rparr>) s in
                 rbind (iupdate ip s) (\<lambda>s.
                 rbind (if type = T_DIR
                        then rbind (dirlink ip [46, 0] (i_inum (itable s ip)) s) (\<lambda>(r, s).
                             if r < 0 then Inr (r, s)
                             else dirlink ip [46, 46, 0] (i_inum (itable s dp)) s)
                        else Inr (0, s)) (\<lambda>(r, s).
                   if r < 0 then create_fail ip dp s
                   else
                     rbind (dirlink dp nm (i_inum (itable s ip)) s) (\<lambda>(r, s).
                       if r < 0 then create_fail ip dp s
                       else
                         rbind (if type = T_DIR then iupdate dp (add_nlink dp 1 s) else Inr s) (\<lambda>s.
                         rbind (iunlockput dp s) (\<lambda>s.
                         Inr (Some ip, s)))))))))))"

definition O_RDONLY :: u32 where [simp]: "O_RDONLY = 0"
definition O_WRONLY :: u32 where [simp]: "O_WRONLY = 1"
definition O_RDWR :: u32 where [simp]: "O_RDWR = 2"
definition O_CREATE :: u32 where [simp]: "O_CREATE = 0x200"
definition O_TRUNC :: u32 where [simp]: "O_TRUNC = 0x400"

definition put_end :: "nat \<Rightarrow> u64 \<Rightarrow> 'a fss_scheme \<Rightarrow> (u64 \<times> 'a fss_scheme) res" where
  "put_end ip v s = rbind (iunlockput ip s) (\<lambda>s. end_ret v s)"

definition sys_open :: "'a filst_scheme \<Rightarrow> (u64 \<times> 'a filst_scheme) res" where
  "sys_open s =
     rbind (argint 1 s) (\<lambda>om.
     let omode = (of_int om :: u32) in
     rbind (argstr 0 MAXPATH s) (\<lambda>(n, path).
       if n < 0 then Inr (-1, s)
       else
         rbind (begin_op s) (\<lambda>s.
         rbind (if omode AND O_CREATE \<noteq> 0 then create path T_FILE 0 0 s
                else
                  rbind (namei path s) (\<lambda>(ip, s). case ip of
                    None \<Rightarrow> Inr (None, s)
                  | Some ip \<Rightarrow> rbind (ilock ip s) (\<lambda>s. Inr (Some ip, s)))) (\<lambda>(r, s). case r of
           None \<Rightarrow> end_ret (-1) s
         | Some ip \<Rightarrow>
             if omode AND O_CREATE = 0 \<and> i_type (itable s ip) = T_DIR \<and> omode \<noteq> O_RDONLY
             then put_end ip (-1) s
             else if i_type (itable s ip) = T_DEVICE \<and> \<not> valid_major (i_major (itable s ip))
             then put_end ip (-1) s
             else
               case filealloc s of
                 (None, s) \<Rightarrow> put_end ip (-1) s
               | (Some f, s) \<Rightarrow>
                   (case fdalloc f s of (fd, s) \<Rightarrow>
                     if fd < 0 then rbind (fileclose f s) (\<lambda>s. put_end ip (-1) s)
                     else
                       let s = (if i_type (itable s ip) = T_DEVICE
                                then upd_file f (\<lambda>x. x\<lparr>f_type := FD_DEVICE, f_major := i_major (itable s ip)\<rparr>) s
                                else upd_file f (\<lambda>x. x\<lparr>f_type := FD_INODE, f_off := 0\<rparr>) s);
                           s = upd_file f (\<lambda>x. x\<lparr>f_ip := ip, f_readable := (omode AND O_WRONLY = 0),
                                 f_writable := (omode AND O_WRONLY \<noteq> 0 \<or> omode AND O_RDWR \<noteq> 0)\<rparr>) s
                       in
                       rbind (if omode AND O_TRUNC \<noteq> 0 \<and> i_type (itable s ip) = T_FILE then itrunc ip s else Inr s) (\<lambda>s.
                       rbind (iunlock ip s) (\<lambda>s.
                       end_ret (of_int fd) s)))))))"

definition sys_mkdir :: "'a fss_scheme \<Rightarrow> (u64 \<times> 'a fss_scheme) res" where
  "sys_mkdir s =
     rbind (begin_op s) (\<lambda>s.
     rbind (argstr 0 MAXPATH s) (\<lambda>(r, path).
       if r < 0 then end_ret (-1) s
       else
         rbind (create path T_DIR 0 0 s) (\<lambda>(ip, s). case ip of
           None \<Rightarrow> end_ret (-1) s
         | Some ip \<Rightarrow> put_end ip 0 s)))"

definition sys_mknod :: "'a fss_scheme \<Rightarrow> (u64 \<times> 'a fss_scheme) res" where
  "sys_mknod s =
     rbind (begin_op s) (\<lambda>s.
     rbind (argint 1 s) (\<lambda>major.
     rbind (argint 2 s) (\<lambda>minor.
     rbind (argstr 0 MAXPATH s) (\<lambda>(r, path).
       if r < 0 then end_ret (-1) s
       else
         rbind (create path T_DEVICE (of_int major) (of_int minor) s) (\<lambda>(ip, s). case ip of
           None \<Rightarrow> end_ret (-1) s
         | Some ip \<Rightarrow> put_end ip 0 s)))))"

definition sys_chdir :: "'a fss_scheme \<Rightarrow> (u64 \<times> 'a fss_scheme) res" where
  "sys_chdir s =
     rbind (begin_op s) (\<lambda>s.
     rbind (argstr 0 MAXPATH s) (\<lambda>(r, path).
       if r < 0 then end_ret (-1) s
       else
         rbind (namei path s) (\<lambda>(ip, s). case ip of
           None \<Rightarrow> end_ret (-1) s
         | Some ip \<Rightarrow>
             rbind (ilock ip s) (\<lambda>s.
               if i_type (itable s ip) \<noteq> T_DIR then put_end ip (-1) s
               else
                 rbind (iunlock ip s) (\<lambda>s.
                 rbind (case cwd (myproc s) of None \<Rightarrow> Inl OutOfBounds | Some d \<Rightarrow> iput d s) (\<lambda>s.
                 rbind (end_op s) (\<lambda>s.
                 Inr (0, upd_proc (cur s) (\<lambda>x. x\<lparr>cwd := Some ip\<rparr>) s))))))))"

subsection \<open>Exec and pipe\<close>

text \<open>
  The loop of \<^verbatim>\<open>sys_exec\<close> that copies the arguments into pages: whether all were copied, and
  the pages. A page is in the array as soon as it is allocated.
\<close>

fun exec_args :: "nat \<Rightarrow> nat \<Rightarrow> u64 \<Rightarrow> addr list \<Rightarrow> 'a kern_scheme \<Rightarrow> (bool \<times> addr list \<times> 'a kern_scheme) res" where
  "exec_args 0 i uargv argv s = Inr (False, argv, s)"
| "exec_args (Suc k) i uargv argv s =
     rbind (fetchaddr (uargv + 8 * of_nat i) s) (\<lambda>(r, uarg).
       if r < 0 then Inr (False, argv, s)
       else if uarg = 0 then Inr (True, argv, s)
       else
         (case kalloc (phy s) of (pg, m) \<Rightarrow>
           let s = s\<lparr>phy := m\<rparr> in
           if pg = 0 then Inr (False, argv, s)
           else
             rbind (fetchstr uarg (unat PGSIZE) s) (\<lambda>(r, bs).
               let s = s\<lparr>phy := (phy s)\<lparr>pmem := store_bytes pg bs (pmem (phy s))\<rparr>\<rparr> in
               if r < 0 then Inr (False, argv @ [pg], s)
               else exec_args k (Suc i) uargv (argv @ [pg]) s)))"

definition free_args :: "addr list \<Rightarrow> 'a kern_scheme \<Rightarrow> 'a kern_scheme res" where
  "free_args argv s = rbind (rfold kfree argv (phy s)) (\<lambda>m. Inr (s\<lparr>phy := m\<rparr>))"

definition sys_exec :: "'a fss_scheme \<Rightarrow> (u64 \<times> 'a fss_scheme) res" where
  "sys_exec s =
     rbind (argaddr 1 s) (\<lambda>uargv.
     rbind (argstr 0 MAXPATH s) (\<lambda>(r, path).
       if r < 0 then Inr (-1, s)
       else
         rbind (exec_args MAXARG 0 uargv [] s) (\<lambda>(ok, argv, s).
           if \<not> ok then rbind (free_args argv s) (\<lambda>s. Inr (-1, s))
           else
             rbind (exec path argv s) (\<lambda>(r, s).
             rbind (free_args argv s) (\<lambda>s.
             Inr (of_int r, s))))))"

definition sys_pipe :: "'a filst_scheme \<Rightarrow> (u64 \<times> 'a filst_scheme) res" where
  "sys_pipe s =
     rbind (argaddr 0 s) (\<lambda>fdarray.
     rbind (pipealloc s) (\<lambda>(r, (f0, f1), s).
       if r < 0 then Inr (-1, s)
       else
         let rf = the f0; wf = the f1;
             close_both = (\<lambda>s. rbind (fileclose rf s) (\<lambda>s. rbind (fileclose wf s) (\<lambda>s. Inr (-1, s))));
             (fd0, s) = fdalloc rf s;
             (fd1, s) = (if fd0 < 0 then (-1, s) else fdalloc wf s)
         in if fd0 < 0 \<or> fd1 < 0
            then close_both (if fd0 \<ge> 0 then clear_fd (nat fd0) s else s)
            else
              rbind (copyout (pagetable (myproc s)) fdarray (le_bytes 4 (of_int fd0 :: u32)) (phy s)) (\<lambda>(r0, m).
              rbind (if r0 < 0 then Inr (r0, m)
                     else copyout (pagetable (myproc s)) (fdarray + 4) (le_bytes 4 (of_int fd1 :: u32)) m) (\<lambda>(r1, m).
              let s = s\<lparr>phy := m\<rparr> in
              if r0 < 0 \<or> r1 < 0 then close_both (clear_fd (nat fd1) (clear_fd (nat fd0) s))
              else Inr (0, s)))))"

end
