(* ===== verification/Riscv.thy ===== *)
theory Riscv
  imports PhysMem
begin

text \<open>
  The control and status registers of a hart and the functions of \<^verbatim>\<open>kernel/riscv.h\<close> that
  access them. \<open>csrfile\<close> is their content. The thread pointer, which holds the number of the
  hart, is kept beside them.
\<close>

section \<open>Model\<close>

datatype csr =
    Mhartid | Mstatus | Mepc | Sstatus | Sip | Sie | Mie | Sepc | Medeleg | Mideleg | Stvec | Mtvec
  | Pmpcfg0 | Pmpaddr0 | Satp | Mscratch | Scause | Stval | Mcounteren | Time | Sscratch | Tp

type_synonym csrfile = "csr \<Rightarrow> u64"

definition MSTATUS_MPP_MASK :: u64 where [simp]: "MSTATUS_MPP_MASK = 0x1800"
definition MSTATUS_MPP_S :: u64 where [simp]: "MSTATUS_MPP_S = 0x800"
definition MSTATUS_MIE :: u64 where [simp]: "MSTATUS_MIE = 8"
definition SSTATUS_SPP :: u64 where [simp]: "SSTATUS_SPP = 0x100"
definition SSTATUS_SPIE :: u64 where [simp]: "SSTATUS_SPIE = 0x20"
definition SSTATUS_SIE :: u64 where [simp]: "SSTATUS_SIE = 2"
definition SIE_SEIE :: u64 where [simp]: "SIE_SEIE = 0x200"
definition SIE_STIE :: u64 where [simp]: "SIE_STIE = 0x20"
definition SIE_SSIE :: u64 where [simp]: "SIE_SSIE = 2"
definition MIE_MTIE :: u64 where [simp]: "MIE_MTIE = 0x80"

definition r_mhartid :: "csrfile \<Rightarrow> u64" where [simp]: "r_mhartid c = c Mhartid"
definition r_mstatus :: "csrfile \<Rightarrow> u64" where [simp]: "r_mstatus c = c Mstatus"
definition r_sstatus :: "csrfile \<Rightarrow> u64" where [simp]: "r_sstatus c = c Sstatus"
definition r_sip :: "csrfile \<Rightarrow> u64" where [simp]: "r_sip c = c Sip"
definition r_sie :: "csrfile \<Rightarrow> u64" where [simp]: "r_sie c = c Sie"
definition r_mie :: "csrfile \<Rightarrow> u64" where [simp]: "r_mie c = c Mie"
definition r_sepc :: "csrfile \<Rightarrow> u64" where [simp]: "r_sepc c = c Sepc"
definition r_medeleg :: "csrfile \<Rightarrow> u64" where [simp]: "r_medeleg c = c Medeleg"
definition r_mideleg :: "csrfile \<Rightarrow> u64" where [simp]: "r_mideleg c = c Mideleg"
definition r_stvec :: "csrfile \<Rightarrow> u64" where [simp]: "r_stvec c = c Stvec"
definition r_satp :: "csrfile \<Rightarrow> u64" where [simp]: "r_satp c = c Satp"
definition r_scause :: "csrfile \<Rightarrow> u64" where [simp]: "r_scause c = c Scause"
definition r_stval :: "csrfile \<Rightarrow> u64" where [simp]: "r_stval c = c Stval"
definition r_mcounteren :: "csrfile \<Rightarrow> u64" where [simp]: "r_mcounteren c = c Mcounteren"
definition r_time :: "csrfile \<Rightarrow> u64" where [simp]: "r_time c = c Time"
definition r_tp :: "csrfile \<Rightarrow> u64" where [simp]: "r_tp c = c Tp"

definition w_mstatus :: "u64 \<Rightarrow> csrfile \<Rightarrow> csrfile" where [simp]: "w_mstatus v c = c(Mstatus := v)"
definition w_mepc :: "u64 \<Rightarrow> csrfile \<Rightarrow> csrfile" where [simp]: "w_mepc v c = c(Mepc := v)"
definition w_sstatus :: "u64 \<Rightarrow> csrfile \<Rightarrow> csrfile" where [simp]: "w_sstatus v c = c(Sstatus := v)"
definition w_sip :: "u64 \<Rightarrow> csrfile \<Rightarrow> csrfile" where [simp]: "w_sip v c = c(Sip := v)"
definition w_sie :: "u64 \<Rightarrow> csrfile \<Rightarrow> csrfile" where [simp]: "w_sie v c = c(Sie := v)"
definition w_mie :: "u64 \<Rightarrow> csrfile \<Rightarrow> csrfile" where [simp]: "w_mie v c = c(Mie := v)"
definition w_sepc :: "u64 \<Rightarrow> csrfile \<Rightarrow> csrfile" where [simp]: "w_sepc v c = c(Sepc := v)"
definition w_medeleg :: "u64 \<Rightarrow> csrfile \<Rightarrow> csrfile" where [simp]: "w_medeleg v c = c(Medeleg := v)"
definition w_mideleg :: "u64 \<Rightarrow> csrfile \<Rightarrow> csrfile" where [simp]: "w_mideleg v c = c(Mideleg := v)"
definition w_stvec :: "u64 \<Rightarrow> csrfile \<Rightarrow> csrfile" where [simp]: "w_stvec v c = c(Stvec := v)"
definition w_mtvec :: "u64 \<Rightarrow> csrfile \<Rightarrow> csrfile" where [simp]: "w_mtvec v c = c(Mtvec := v)"
definition w_pmpcfg0 :: "u64 \<Rightarrow> csrfile \<Rightarrow> csrfile" where [simp]: "w_pmpcfg0 v c = c(Pmpcfg0 := v)"
definition w_pmpaddr0 :: "u64 \<Rightarrow> csrfile \<Rightarrow> csrfile" where [simp]: "w_pmpaddr0 v c = c(Pmpaddr0 := v)"
definition w_satp :: "u64 \<Rightarrow> csrfile \<Rightarrow> csrfile" where [simp]: "w_satp v c = c(Satp := v)"
definition w_mscratch :: "u64 \<Rightarrow> csrfile \<Rightarrow> csrfile" where [simp]: "w_mscratch v c = c(Mscratch := v)"
definition w_mcounteren :: "u64 \<Rightarrow> csrfile \<Rightarrow> csrfile" where [simp]: "w_mcounteren v c = c(Mcounteren := v)"
definition w_tp :: "u64 \<Rightarrow> csrfile \<Rightarrow> csrfile" where [simp]: "w_tp v c = c(Tp := v)"

definition intr_on :: "csrfile \<Rightarrow> csrfile" where
  "intr_on c = w_sstatus (r_sstatus c OR SSTATUS_SIE) c"

definition intr_off :: "csrfile \<Rightarrow> csrfile" where
  "intr_off c = w_sstatus (r_sstatus c AND NOT SSTATUS_SIE) c"

definition intr_get :: "csrfile \<Rightarrow> bool" where
  "intr_get c \<longleftrightarrow> r_sstatus c AND SSTATUS_SIE \<noteq> 0"

section \<open>Interrupt enable\<close>

lemma sie_bit: "x AND SSTATUS_SIE \<noteq> 0 \<longleftrightarrow> bit x 1"
proof -
  have "x AND 2 = (if bit x 1 then 2 else 0)"
    by (rule bit_word_eqI) (auto simp: bit_simps bit_2_iff)
  then show ?thesis by simp
qed

lemma intr_get_on [simp]: "intr_get (intr_on c)"
  unfolding intr_get_def intr_on_def by (simp del: SSTATUS_SIE_def add: sie_bit) (simp add: bit_simps)

lemma intr_get_off [simp]: "\<not> intr_get (intr_off c)"
  unfolding intr_get_def intr_off_def by (simp del: SSTATUS_SIE_def add: sie_bit) (simp add: bit_simps)

lemma intr_off_off [simp]: "\<not> intr_get c \<Longrightarrow> intr_off c = c"
proof -
  assume "\<not> intr_get c"
  then have "\<not> bit (c Sstatus) 1" unfolding intr_get_def by (simp del: SSTATUS_SIE_def add: sie_bit)
  then have "c Sstatus AND NOT 2 = c Sstatus" by (intro bit_word_eqI) (auto simp: bit_simps bit_2_iff)
  then show ?thesis by (simp add: intr_off_def fun_eq_iff)
qed

lemma intr_on_off: "intr_get c \<Longrightarrow> intr_on (intr_off c) = c"
proof -
  assume "intr_get c"
  then have "bit (c Sstatus) 1" unfolding intr_get_def by (simp del: SSTATUS_SIE_def add: sie_bit)
  then have "(c Sstatus AND NOT 2) OR 2 = c Sstatus" by (intro bit_word_eqI) (auto simp: bit_simps bit_2_iff)
  then show ?thesis by (simp add: intr_off_def intr_on_def fun_eq_iff)
qed

end
