(* ===== verification/Trap.thy ===== *)
theory Trap
  imports Sysfile Virtio Riscv
begin

text \<open>
  \<^verbatim>\<open>kernel/sysproc.c\<close>, the dispatch of \<^verbatim>\<open>kernel/syscall.c\<close>, \<^verbatim>\<open>kernel/plic.c\<close> and \<^verbatim>\<open>kernel/trap.c\<close>. The
  state adds to the kernel the registers of the hart it runs on, the interrupt controller (the
  interrupts it has pending, the registers written), the disk driver, and the
  addresses the linker gives to \<^verbatim>\<open>uservec\<close>, \<^verbatim>\<open>userret\<close>, \<^verbatim>\<open>kernelvec\<close> and \<^verbatim>\<open>usertrap\<close>. \<open>disk_reg\<close> is how the disk
  device answers when one of its registers is read.
\<close>

section \<open>Model\<close>

record trapst = filst +
  csrs :: csrfile
  forkret_first :: bool
  vd :: vdisk
  disk_reg :: "(nat \<times> u32) list \<Rightarrow> nat \<Rightarrow> u32"
  plic_pending :: "u32 list"
  plic_regs :: "addr \<Rightarrow> u32"
  kernel_pagetable :: addr
  uservec :: addr
  userret :: addr
  kernelvec :: addr
  usertrap_addr :: addr

subsection \<open>System calls on processes\<close>

text \<open>A system call that does not come back returns \<open>None\<close> instead of a value.\<close>

definition sys_exit :: "'a filst_scheme \<Rightarrow> (u64 option \<times> 'a filst_scheme) res" where
  "sys_exit s =
     rbind (argint 0 s) (\<lambda>n.
     rbind (exit_proc n s) (\<lambda>s.
     Inr (None, s)))"

definition sys_getpid :: "'a kern_scheme \<Rightarrow> (u64 \<times> 'a kern_scheme) res" where
  "sys_getpid s = Inr (of_int (pid (myproc s)), s)"

definition sys_fork :: "'a filst_scheme \<Rightarrow> (u64 \<times> 'a filst_scheme) res" where
  "sys_fork s = rbind (fork s) (\<lambda>(r, s). Inr (of_int r, s))"

definition sys_wait :: "'a kern_scheme \<Rightarrow> (u64 \<times> 'a kern_scheme) res" where
  "sys_wait s =
     rbind (argaddr 0 s) (\<lambda>p.
     rbind (wait p s) (\<lambda>(r, s).
     Inr (of_int r, s)))"

definition sys_sbrk :: "'a kern_scheme \<Rightarrow> (u64 \<times> 'a kern_scheme) res" where
  "sys_sbrk s =
     rbind (argint 0 s) (\<lambda>n.
     let adr = psz (myproc s) in
     rbind (growproc n s) (\<lambda>(r, s).
     Inr (if r < 0 then -1 else adr, s)))"

text \<open>The loop of \<^verbatim>\<open>sys_sleep\<close>, entered again after each clock tick with the same \<open>ticks0\<close>.\<close>

definition sleep_loop :: "u32 \<Rightarrow> u32 \<Rightarrow> 'a kern_scheme \<Rightarrow> (u64 \<times> 'a kern_scheme) res" where
  "sleep_loop ticks0 n s =
     (if ticks s - ticks0 < n
      then if killed (cur s) s \<noteq> 0 then Inr (-1, s) else Inl (Sleeps ChTicks)
      else Inr (0, s))"

definition sys_sleep :: "'a kern_scheme \<Rightarrow> (u64 \<times> 'a kern_scheme) res" where
  "sys_sleep s =
     rbind (argint 0 s) (\<lambda>n.
     sleep_loop (ticks s) (if n < 0 then 0 else of_int n) s)"

definition sys_kill :: "'a kern_scheme \<Rightarrow> (u64 \<times> 'a kern_scheme) res" where
  "sys_kill s =
     rbind (argint 0 s) (\<lambda>k.
     let (r, s) = kill k s in Inr (of_int r, s))"

definition sys_uptime :: "'a kern_scheme \<Rightarrow> (u64 \<times> 'a kern_scheme) res" where
  "sys_uptime s = Inr (ucast (ticks s), s)"

subsection \<open>Dispatch\<close>

definition returns :: "(u64 \<times> 'a) res \<Rightarrow> (u64 option \<times> 'a) res" where
  "returns m = rbind m (\<lambda>(v, s). Inr (Some v, s))"

text \<open>The table \<^verbatim>\<open>syscalls\<close> under the numbers of \<^verbatim>\<open>kernel/syscall.h\<close>.\<close>

definition syscalls :: "int \<Rightarrow> ('a filst_scheme \<Rightarrow> (u64 option \<times> 'a filst_scheme) res) option" where
  "syscalls num =
     (if num = 1 then Some (\<lambda>s. returns (sys_fork s))
      else if num = 2 then Some sys_exit
      else if num = 3 then Some (\<lambda>s. returns (sys_wait s))
      else if num = 4 then Some (\<lambda>s. returns (sys_pipe s))
      else if num = 5 then Some (\<lambda>s. returns (sys_read s))
      else if num = 6 then Some (\<lambda>s. returns (sys_kill s))
      else if num = 7 then Some (\<lambda>s. returns (sys_exec s))
      else if num = 8 then Some (\<lambda>s. returns (sys_fstat s))
      else if num = 9 then Some (\<lambda>s. returns (sys_chdir s))
      else if num = 10 then Some (\<lambda>s. returns (sys_dup s))
      else if num = 11 then Some (\<lambda>s. returns (sys_getpid s))
      else if num = 12 then Some (\<lambda>s. returns (sys_sbrk s))
      else if num = 13 then Some (\<lambda>s. returns (sys_sleep s))
      else if num = 14 then Some (\<lambda>s. returns (sys_uptime s))
      else if num = 15 then Some (\<lambda>s. returns (sys_open s))
      else if num = 16 then Some (\<lambda>s. returns (sys_write s))
      else if num = 17 then Some (\<lambda>s. returns (sys_mknod s))
      else if num = 18 then Some (\<lambda>s. returns (sys_unlink s))
      else if num = 19 then Some (\<lambda>s. returns (sys_link s))
      else if num = 20 then Some (\<lambda>s. returns (sys_mkdir s))
      else if num = 21 then Some (\<lambda>s. returns (sys_close s))
      else None)"

text \<open>Whether the call comes back to the process, and the state.\<close>

definition syscall :: "'a filst_scheme \<Rightarrow> (bool \<times> 'a filst_scheme) res" where
  "syscall s =
     (let p = cur s; num = sint (ucast (tf_get p tf_a7 s) :: u32) in
      case syscalls num of
        Some f \<Rightarrow>
          rbind (f s) (\<lambda>(v, s). case v of
            None \<Rightarrow> Inr (False, s)
          | Some v \<Rightarrow> Inr (True, tf_set p tf_a0 v s))
      | None \<Rightarrow>
          rbind (printf (bytes ''%d %s: unknown sys call %d'' @ [10, 0])
                   [AInt (of_int (pid (procs s p))), AStr (Some (pname (procs s p))), AInt (of_int num)] s) (\<lambda>s.
          Inr (True, tf_set p tf_a0 (-1) s)))"

subsection \<open>The interrupt controller\<close>

definition UART0_IRQ :: u32 where [simp]: "UART0_IRQ = 10"
definition VIRTIO0_IRQ :: u32 where [simp]: "VIRTIO0_IRQ = 1"

definition PLIC_SENABLE :: "u64 \<Rightarrow> addr" where "PLIC_SENABLE hart = PLIC + 0x2080 + hart * 0x100"
definition PLIC_SPRIORITY :: "u64 \<Rightarrow> addr" where "PLIC_SPRIORITY hart = PLIC + 0x201000 + hart * 0x2000"
definition PLIC_SCLAIM :: "u64 \<Rightarrow> addr" where "PLIC_SCLAIM hart = PLIC + 0x201004 + hart * 0x2000"

definition cpuid :: "'a trapst_scheme \<Rightarrow> u64" where
  "cpuid s = scast (ucast (r_tp (csrs s)) :: u32)"

definition w_plic :: "addr \<Rightarrow> u32 \<Rightarrow> 'a trapst_scheme \<Rightarrow> 'a trapst_scheme" where
  "w_plic a v s = s\<lparr>plic_regs := (plic_regs s)(a := v)\<rparr>"

definition plicinit :: "'a trapst_scheme \<Rightarrow> 'a trapst_scheme" where
  "plicinit s = w_plic (PLIC + ucast VIRTIO0_IRQ * 4) 1 (w_plic (PLIC + ucast UART0_IRQ * 4) 1 s)"

definition plicinithart :: "'a trapst_scheme \<Rightarrow> 'a trapst_scheme" where
  "plicinithart s =
     (let hart = cpuid s;
          s = w_plic (PLIC_SENABLE hart) (push_bit 10 1 OR push_bit 1 1) s
      in w_plic (PLIC_SPRIORITY hart) 0 s)"

text \<open>Reading the claim register takes a pending interrupt, or gives 0.\<close>

definition plic_claim :: "'a trapst_scheme \<Rightarrow> u32 \<times> 'a trapst_scheme" where
  "plic_claim s = (case plic_pending s of [] \<Rightarrow> (0, s) | irq # irqs \<Rightarrow> (irq, s\<lparr>plic_pending := irqs\<rparr>))"

definition plic_complete :: "u32 \<Rightarrow> 'a trapst_scheme \<Rightarrow> 'a trapst_scheme" where
  "plic_complete irq s = w_plic (PLIC_SCLAIM (cpuid s)) irq s"

subsection \<open>Interrupts\<close>

definition clockintr :: "'a kern_scheme \<Rightarrow> 'a kern_scheme" where
  "clockintr s = wakeup ChTicks (s\<lparr>ticks := ticks s + 1\<rparr>)"

definition set_csrs :: "(csrfile \<Rightarrow> csrfile) \<Rightarrow> 'a trapst_scheme \<Rightarrow> 'a trapst_scheme" where
  "set_csrs f s = s\<lparr>csrs := f (csrs s)\<rparr>"

definition devintr :: "'a trapst_scheme \<Rightarrow> (nat \<times> 'a trapst_scheme) res" where
  "devintr s =
     (let scause = r_scause (csrs s) in
      if scause AND 0x8000000000000000 \<noteq> 0 \<and> scause AND 0xff = 9
      then
        let (irq, s) = plic_claim s in
        rbind (if irq = UART0_IRQ then uartintr s
               else if irq = VIRTIO0_IRQ
               then rbind (virtio_disk_intr (disk_reg s) (vd s, s)) (\<lambda>(d, s). Inr (s\<lparr>vd := d\<rparr>))
               else if irq \<noteq> 0 then printf (bytes ''unexpected interrupt irq=%d'' @ [10, 0]) [AInt irq] s
               else Inr s) (\<lambda>s.
        Inr (1, if irq \<noteq> 0 then plic_complete irq s else s))
      else if scause = 0x8000000000000001
      then
        let s = (if cpuid s = 0 then clockintr s else s) in
        Inr (2, set_csrs (\<lambda>c. w_sip (r_sip c AND NOT 2) c) s)
      else Inr (0, s))"

subsection \<open>Traps\<close>

definition trapinithart :: "'a trapst_scheme \<Rightarrow> 'a trapst_scheme" where
  "trapinithart s = set_csrs (w_stvec (kernelvec s)) s"

text \<open>\<^verbatim>\<open>usertrapret\<close> up to the jump to \<^verbatim>\<open>userret\<close>, with its argument, the page table.\<close>

definition usertrapret :: "'a trapst_scheme \<Rightarrow> u64 \<times> 'a trapst_scheme" where
  "usertrapret s =
     (let p = cur s;
          s = set_csrs intr_off s;
          s = set_csrs (w_stvec (TRAMPOLINE + (uservec s - trampoline s))) s;
          s = tf_set p kernel_satp (r_satp (csrs s)) s;
          s = tf_set p kernel_sp (kstack (procs s p) + PGSIZE) s;
          s = tf_set p kernel_trap (usertrap_addr s) s;
          s = tf_set p kernel_hartid (r_tp (csrs s)) s;
          x = r_sstatus (csrs s);
          x = x AND NOT SSTATUS_SPP;
          x = x OR SSTATUS_SPIE;
          s = set_csrs (w_sstatus x) s;
          s = set_csrs (w_sepc (tf_get p epc s)) s
      in (MAKE_SATP (pagetable (procs s p)), s))"

text \<open>
  How \<^verbatim>\<open>usertrap\<close> goes on: it has reached its call of \<^verbatim>\<open>usertrapret\<close>, it gives up the CPU (and
  calls \<^verbatim>\<open>usertrapret\<close> when the process runs again), or the process is gone.
\<close>

datatype 'a trapped = ToUser 'a | Yields 'a | Exited 'a

definition usertrap_end :: "nat \<Rightarrow> nat \<Rightarrow> 'a trapst_scheme \<Rightarrow> 'a trapst_scheme trapped res" where
  "usertrap_end p which_dev s =
     (if killed p s \<noteq> 0 then rbind (exit_proc (-1) s) (\<lambda>s. Inr (Exited s))
      else if which_dev = 2 then rbind (yield s) (\<lambda>s. Inr (Yields s))
      else Inr (ToUser s))"

definition usertrap :: "'a trapst_scheme \<Rightarrow> 'a trapst_scheme trapped res" where
  "usertrap s =
     (if r_sstatus (csrs s) AND SSTATUS_SPP \<noteq> 0 then Inl (Panic ''usertrap: not from user mode'')
      else
        let s = set_csrs (w_stvec (kernelvec s)) s;
            p = cur s;
            s = tf_set p epc (r_sepc (csrs s)) s
        in if r_scause (csrs s) = 8
           then
             if killed p s \<noteq> 0 then rbind (exit_proc (-1) s) (\<lambda>s. Inr (Exited s))
             else
               let s = tf_set p epc (tf_get p epc s + 4) s;
                   s = set_csrs intr_on s
               in rbind (syscall s) (\<lambda>(back, s).
                    if back then usertrap_end p 0 s else Inr (Exited s))
           else
             rbind (devintr s) (\<lambda>(which_dev, s).
               if which_dev \<noteq> 0 then usertrap_end p which_dev s
               else
                 rbind (printf (bytes ''usertrap(): unexpected scause %p pid=%d'' @ [10, 0])
                          [APtr (r_scause (csrs s)), AInt (of_int (pid (procs s p)))] s) (\<lambda>s.
                 rbind (printf (bytes ''            sepc=%p stval=%p'' @ [10, 0])
                          [APtr (r_sepc (csrs s)), APtr (r_stval (csrs s))] s) (\<lambda>s.
                 usertrap_end p 0 (setkilled p s)))))"

text \<open>
  \<^verbatim>\<open>kerneltrap\<close>, whose yield gives up the CPU in the middle: the first part, whether it yields, and
  the saved registers for the rest.
\<close>

definition kerneltrap :: "'a trapst_scheme \<Rightarrow> ((bool \<times> u64 \<times> u64) \<times> 'a trapst_scheme) res" where
  "kerneltrap s =
     (let sepc = r_sepc (csrs s); sstatus = r_sstatus (csrs s); scause = r_scause (csrs s) in
      if sstatus AND SSTATUS_SPP = 0 then Inl (Panic ''kerneltrap: not from supervisor mode'')
      else if intr_get (csrs s) then Inl (Panic ''kerneltrap: interrupts enabled'')
      else
        rbind (devintr s) (\<lambda>(which_dev, s).
          if which_dev = 0 then Inl (Panic ''kerneltrap'')
          else if which_dev = 2 \<and> cur s \<noteq> NPROC \<and> pstate (myproc s) = RUNNING
          then rbind (yield s) (\<lambda>s. Inr ((True, sepc, sstatus), s))
          else Inr ((False, sepc, sstatus), s)))"

definition kerneltrap_end :: "u64 \<Rightarrow> u64 \<Rightarrow> 'a trapst_scheme \<Rightarrow> 'a trapst_scheme" where
  "kerneltrap_end sepc sstatus s = set_csrs (\<lambda>c. w_sstatus sstatus (w_sepc sepc c)) s"

text \<open>The first scheduling of a process.\<close>

definition forkret :: "'a trapst_scheme \<Rightarrow> (u64 \<times> 'a trapst_scheme) res" where
  "forkret s =
     rbind (if forkret_first s then rbind (fsinit ROOTDEV s) (\<lambda>s. Inr (s\<lparr>forkret_first := False\<rparr>)) else Inr s) (\<lambda>s.
     Inr (usertrapret s))"

end
