(* ===== verification/Asm.thy ===== *)
theory Asm
  imports Riscv
begin

text \<open>
  The assembly code of the kernel: \<^verbatim>\<open>kernel/trampoline.S\<close>, \<^verbatim>\<open>kernel/kernelvec.S\<close>, \<^verbatim>\<open>kernel/swtch.S\<close> and
  \<^verbatim>\<open>kernel/entry.S\<close>, as lists of instructions with an interpreter. \<open>mmu satp va\<close> is
  the physical address that the hardware finds for \<open>va\<close> with the page table in \<^verbatim>\<open>satp\<close>; in machine mode
  addresses are physical.
\<close>

section \<open>Model\<close>

datatype reg =
    RA | SP | GP | TP | T0 | T1 | T2 | T3 | T4 | T5 | T6
  | S0 | S1 | S2 | S3 | S4 | S5 | S6 | S7 | S8 | S9 | S10 | S11
  | A0 | A1 | A2 | A3 | A4 | A5 | A6 | A7

datatype instr =
    SD reg u64 reg
  | LD reg u64 reg
  | LI reg u64
  | ADDI reg reg u64
  | ADD reg reg reg
  | MUL reg reg reg
  | CSRW csr reg
  | CSRR reg csr
  | CSRRW reg csr reg
  | SFENCE
  | JR reg
  | SRET
  | MRET

record machine =
  regs :: "reg \<Rightarrow> u64"
  amem :: memory
  acsr :: csrfile
  apc :: u64

type_synonym mmu = "u64 \<Rightarrow> addr \<Rightarrow> addr"

definition set_reg :: "reg \<Rightarrow> u64 \<Rightarrow> machine \<Rightarrow> machine" where
  "set_reg r v m = m\<lparr>regs := (regs m)(r := v)\<rparr>"

fun exec1 :: "mmu \<Rightarrow> instr \<Rightarrow> machine \<Rightarrow> machine" where
  "exec1 mmu (SD r off b) m =
     m\<lparr>amem := store64 (mmu (acsr m Satp) (regs m b + off)) (regs m r) (amem m)\<rparr>"
| "exec1 mmu (LD r off b) m = set_reg r (load64 (mmu (acsr m Satp) (regs m b + off)) (amem m)) m"
| "exec1 mmu (LI r v) m = set_reg r v m"
| "exec1 mmu (ADDI r a v) m = set_reg r (regs m a + v) m"
| "exec1 mmu (ADD r a b) m = set_reg r (regs m a + regs m b) m"
| "exec1 mmu (MUL r a b) m = set_reg r (regs m a * regs m b) m"
| "exec1 mmu (CSRW c r) m = m\<lparr>acsr := (acsr m)(c := regs m r)\<rparr>"
| "exec1 mmu (CSRR r c) m = set_reg r (acsr m c) m"
| "exec1 mmu (CSRRW r c a) m = (set_reg r (acsr m c) m)\<lparr>acsr := (acsr m)(c := regs m a)\<rparr>"
| "exec1 mmu SFENCE m = m"
| "exec1 mmu (JR r) m = m\<lparr>apc := regs m r\<rparr>"
| "exec1 mmu SRET m = m\<lparr>apc := acsr m Sepc\<rparr>"
| "exec1 mmu MRET m = m\<lparr>apc := acsr m Mepc\<rparr>"

definition run :: "mmu \<Rightarrow> instr list \<Rightarrow> machine \<Rightarrow> machine" where
  "run mmu is m = fold (exec1 mmu) is m"

definition uservec_code :: "instr list" where
  "uservec_code =
    [CSRW Sscratch A0,
     LI A0 TRAPFRAME,
     SD RA 40 A0, SD SP 48 A0, SD GP 56 A0, SD TP 64 A0, SD T0 72 A0, SD T1 80 A0, SD T2 88 A0,
     SD S0 96 A0, SD S1 104 A0, SD A1 120 A0, SD A2 128 A0, SD A3 136 A0, SD A4 144 A0, SD A5 152 A0,
     SD A6 160 A0, SD A7 168 A0, SD S2 176 A0, SD S3 184 A0, SD S4 192 A0, SD S5 200 A0, SD S6 208 A0,
     SD S7 216 A0, SD S8 224 A0, SD S9 232 A0, SD S10 240 A0, SD S11 248 A0, SD T3 256 A0, SD T4 264 A0,
     SD T5 272 A0, SD T6 280 A0,
     CSRR T0 Sscratch,
     SD T0 112 A0,
     LD SP 8 A0,
     LD TP 32 A0,
     LD T0 16 A0,
     LD T1 0 A0,
     SFENCE,
     CSRW Satp T1,
     SFENCE,
     JR T0]"

definition userret_code :: "instr list" where
  "userret_code =
    [SFENCE,
     CSRW Satp A0,
     SFENCE,
     LI A0 TRAPFRAME,
     LD RA 40 A0, LD SP 48 A0, LD GP 56 A0, LD TP 64 A0, LD T0 72 A0, LD T1 80 A0, LD T2 88 A0,
     LD S0 96 A0, LD S1 104 A0, LD A1 120 A0, LD A2 128 A0, LD A3 136 A0, LD A4 144 A0, LD A5 152 A0,
     LD A6 160 A0, LD A7 168 A0, LD S2 176 A0, LD S3 184 A0, LD S4 192 A0, LD S5 200 A0, LD S6 208 A0,
     LD S7 216 A0, LD S8 224 A0, LD S9 232 A0, LD S10 240 A0, LD S11 248 A0, LD T3 256 A0, LD T4 264 A0,
     LD T5 272 A0, LD T6 280 A0,
     LD A0 112 A0,
     SRET]"

text \<open>\<^verbatim>\<open>kernelvec\<close> before and after its call of \<^verbatim>\<open>kerneltrap\<close>.\<close>

definition kernelvec_save :: "instr list" where
  "kernelvec_save =
    [ADDI SP SP (-256),
     SD RA 0 SP, SD SP 8 SP, SD GP 16 SP, SD TP 24 SP, SD T0 32 SP, SD T1 40 SP, SD T2 48 SP, SD S0 56 SP,
     SD S1 64 SP, SD A0 72 SP, SD A1 80 SP, SD A2 88 SP, SD A3 96 SP, SD A4 104 SP, SD A5 112 SP, SD A6 120 SP,
     SD A7 128 SP, SD S2 136 SP, SD S3 144 SP, SD S4 152 SP, SD S5 160 SP, SD S6 168 SP, SD S7 176 SP,
     SD S8 184 SP, SD S9 192 SP, SD S10 200 SP, SD S11 208 SP, SD T3 216 SP, SD T4 224 SP, SD T5 232 SP,
     SD T6 240 SP]"

definition kernelvec_restore :: "instr list" where
  "kernelvec_restore =
    [LD RA 0 SP, LD SP 8 SP, LD GP 16 SP, LD T0 32 SP, LD T1 40 SP, LD T2 48 SP, LD S0 56 SP,
     LD S1 64 SP, LD A0 72 SP, LD A1 80 SP, LD A2 88 SP, LD A3 96 SP, LD A4 104 SP, LD A5 112 SP, LD A6 120 SP,
     LD A7 128 SP, LD S2 136 SP, LD S3 144 SP, LD S4 152 SP, LD S5 160 SP, LD S6 168 SP, LD S7 176 SP,
     LD S8 184 SP, LD S9 192 SP, LD S10 200 SP, LD S11 208 SP, LD T3 216 SP, LD T4 224 SP, LD T5 232 SP,
     LD T6 240 SP,
     ADDI SP SP 256,
     SRET]"

definition timervec_code :: "instr list" where
  "timervec_code =
    [CSRRW A0 Mscratch A0,
     SD A1 0 A0, SD A2 8 A0, SD A3 16 A0,
     LD A1 24 A0,
     LD A2 32 A0,
     LD A3 0 A1,
     ADD A3 A3 A2,
     SD A3 0 A1,
     LI A1 2,
     CSRW Sip A1,
     LD A3 16 A0, LD A2 8 A0, LD A1 0 A0,
     CSRRW A0 Mscratch A0,
     MRET]"

definition swtch_code :: "instr list" where
  "swtch_code =
    [SD RA 0 A0, SD SP 8 A0, SD S0 16 A0, SD S1 24 A0, SD S2 32 A0, SD S3 40 A0, SD S4 48 A0, SD S5 56 A0,
     SD S6 64 A0, SD S7 72 A0, SD S8 80 A0, SD S9 88 A0, SD S10 96 A0, SD S11 104 A0,
     LD RA 0 A1, LD SP 8 A1, LD S0 16 A1, LD S1 24 A1, LD S2 32 A1, LD S3 40 A1, LD S4 48 A1, LD S5 56 A1,
     LD S6 64 A1, LD S7 72 A1, LD S8 80 A1, LD S9 88 A1, LD S10 96 A1, LD S11 104 A1,
     JR RA]"

text \<open>\<^verbatim>\<open>_entry\<close>, up to its call of \<^verbatim>\<open>start\<close>, with the address of \<^verbatim>\<open>stack0\<close>.\<close>

definition entry_code :: "addr \<Rightarrow> instr list" where
  "entry_code stack0 =
    [LI SP stack0,
     LI A0 (1024 * 4),
     CSRR A1 Mhartid,
     ADDI A1 A1 1,
     MUL A0 A0 A1,
     ADD SP SP A0]"

section \<open>Saving and restoring registers\<close>

definition saves :: "reg \<Rightarrow> (reg \<times> u64) list \<Rightarrow> instr list" where
  "saves b rs = map (\<lambda>(r, off). SD r off b) rs"

definition loads :: "reg \<Rightarrow> (reg \<times> u64) list \<Rightarrow> instr list" where
  "loads b rs = map (\<lambda>(r, off). LD r off b) rs"

text \<open>The memory after the registers \<open>rs\<close> have been stored at their offsets from \<open>p\<close>.\<close>

definition saved :: "addr \<Rightarrow> (reg \<Rightarrow> u64) \<Rightarrow> (reg \<times> u64) list \<Rightarrow> memory \<Rightarrow> memory" where
  "saved p f rs m = fold (\<lambda>(r, off). store64 (p + off) (f r)) rs m"

text \<open>Offsets of different 64-bit words.\<close>

definition word_offs :: "u64 list \<Rightarrow> bool" where
  "word_offs offs \<longleftrightarrow> distinct offs \<and> (\<forall>off\<in>set offs. 8 dvd unat off)"

definition mapped_at :: "mmu \<Rightarrow> u64 \<Rightarrow> addr \<Rightarrow> addr \<Rightarrow> u64 list \<Rightarrow> bool" where
  "mapped_at mmu satp va pa offs \<longleftrightarrow> (\<forall>off\<in>set offs. mmu satp (va + off) = pa + off)"

lemma run_append: "run mmu (is @ js) m = run mmu js (run mmu is m)"
  by (simp add: run_def)

lemma run_saves:
  "mapped_at mmu (acsr m Satp) (regs m b) p (map snd rs) \<Longrightarrow>
   run mmu (saves b rs) m = m\<lparr>amem := saved p (regs m) rs (amem m)\<rparr>"
  by (induction rs arbitrary: m) (auto simp: run_def saves_def saved_def mapped_at_def)

lemma run_loads:
  assumes "mapped_at mmu (acsr m Satp) (regs m b) p (map snd rs)" and "distinct (map fst rs)"
    and "\<forall>(r, off)\<in>set rs. r = b \<longrightarrow> load64 (p + off) (amem m) = regs m b"
  shows "run mmu (loads b rs) m
    = m\<lparr>regs := \<lambda>x. case map_of rs x of None \<Rightarrow> regs m x | Some off \<Rightarrow> load64 (p + off) (amem m)\<rparr>"
  using assms
proof (induction rs arbitrary: m)
  case Nil
  then show ?case by (simp add: run_def loads_def)
next
  case (Cons ro rs)
  obtain r off where ro: "ro = (r, off)" by (cases ro)
  let ?m = "set_reg r (load64 (p + off) (amem m)) m"
  have b: "regs ?m b = regs m b" using Cons.prems(3) by (auto simp: set_reg_def ro)
  have st: "run mmu (loads b (ro # rs)) m = run mmu (loads b rs) ?m"
    using Cons.prems(1) by (simp add: run_def loads_def ro mapped_at_def)
  have "run mmu (loads b rs) ?m
      = ?m\<lparr>regs := \<lambda>x. case map_of rs x of None \<Rightarrow> regs ?m x | Some off \<Rightarrow> load64 (p + off) (amem ?m)\<rparr>"
    using Cons.prems b by (intro Cons.IH) (auto simp: set_reg_def mapped_at_def)
  moreover have "map_of rs r = None" using Cons.prems(2) by (simp add: ro map_of_eq_None_iff)
  moreover have "(case if x = r then Some off else map_of rs x of None \<Rightarrow> regs m x | Some off \<Rightarrow> load64 (p + off) (amem m))
      = (case map_of rs x of None \<Rightarrow> regs ?m x | Some off \<Rightarrow> load64 (p + off) (amem ?m))" for x
    using \<open>map_of rs r = None\<close> by (auto simp: set_reg_def split: option.split)
  ultimately show ?case unfolding st by (simp add: set_reg_def ro)
qed

lemma aligned_add: "8 dvd unat (p :: u64) \<Longrightarrow> 8 dvd unat off \<Longrightarrow> 8 dvd unat (p + off)"
proof -
  assume "8 dvd unat p" "8 dvd unat off"
  then have "8 dvd unat p + unat off" by simp
  moreover have "8 dvd (2 :: nat) ^ 64" by simp
  ultimately show ?thesis by (simp only: unat_word_ariths len_num1 dvd_mod) (simp add: dvd_mod)
qed

lemma saved_other:
  "8 dvd unat a \<Longrightarrow> 8 dvd unat p \<Longrightarrow> word_offs (map snd rs) \<Longrightarrow> \<forall>off\<in>set (map snd rs). a \<noteq> p + off \<Longrightarrow>
   load64 a (saved p f rs m) = load64 a m"
proof (induction rs arbitrary: m)
  case (Cons ro rs)
  obtain r off where ro: "ro = (r, off)" by (cases ro)
  have "load64 a (store64 (p + off) (f r) m) = load64 a m"
    using Cons.prems by (intro load64_store64_other aligned_add) (auto simp: ro word_offs_def)
  moreover have "load64 a (saved p f rs (store64 (p + off) (f r) m)) = load64 a (store64 (p + off) (f r) m)"
    using Cons.prems by (intro Cons.IH) (auto simp: word_offs_def)
  ultimately show ?case by (simp add: saved_def ro)
qed (simp add: saved_def)

lemma saved_word:
  "8 dvd unat p \<Longrightarrow> word_offs (map snd rs) \<Longrightarrow> (r, off) \<in> set rs \<Longrightarrow> load64 (p + off) (saved p f rs m) = f r"
proof (induction rs arbitrary: m)
  case (Cons ro rs)
  show ?case
  proof (cases "(r, off) = ro")
    case True
    have "load64 (p + off) (saved p f rs (store64 (p + off) (f r) m)) = load64 (p + off) (store64 (p + off) (f r) m)"
      using Cons.prems True by (intro saved_other aligned_add) (auto simp: word_offs_def image_iff)
    then show ?thesis by (simp add: saved_def flip: True)
  next
    case False
    obtain r' off' where ro: "ro = (r', off')" by (cases ro)
    have "load64 (p + off) (saved p f rs (store64 (p + off') (f r') m)) = f r"
      using Cons.prems False by (intro Cons.IH) (auto simp: word_offs_def)
    then show ?thesis by (simp add: saved_def ro)
  qed
qed simp

section \<open>Traps from user space\<close>

text \<open>The registers \<^verbatim>\<open>uservec\<close> saves before \<open>a0\<close>, with their offsets in the trapframe.\<close>

definition user_frame :: "(reg \<times> u64) list" where
  "user_frame =
    [(RA, 40), (SP, 48), (GP, 56), (TP, 64), (T0, 72), (T1, 80), (T2, 88), (S0, 96), (S1, 104), (A1, 120),
     (A2, 128), (A3, 136), (A4, 144), (A5, 152), (A6, 160), (A7, 168), (S2, 176), (S3, 184), (S4, 192),
     (S5, 200), (S6, 208), (S7, 216), (S8, 224), (S9, 232), (S10, 240), (S11, 248), (T3, 256), (T4, 264),
     (T5, 272), (T6, 280)]"

definition frame_offs :: "u64 list" where
  "frame_offs = [0, 8, 16, 32, 112] @ map snd user_frame"

lemma uservec_split:
  "uservec_code = [CSRW Sscratch A0, LI A0 TRAPFRAME] @ saves A0 user_frame @
     [CSRR T0 Sscratch, SD T0 112 A0, LD SP 8 A0, LD TP 32 A0, LD T0 16 A0, LD T1 0 A0, SFENCE, CSRW Satp T1, SFENCE, JR T0]"
  by (simp add: uservec_code_def saves_def user_frame_def)

lemma userret_split:
  "userret_code = [SFENCE, CSRW Satp A0, SFENCE, LI A0 TRAPFRAME] @ loads A0 user_frame @ [LD A0 112 A0, SRET]"
  by (simp add: userret_code_def loads_def user_frame_def)

lemma user_frame_ok: "word_offs (map snd user_frame)" "distinct (map fst user_frame)" "A0 \<notin> fst ` set user_frame"
  by (simp_all add: user_frame_def word_offs_def)

lemma user_frame_all: "r \<noteq> A0 \<Longrightarrow> \<exists>off. map_of user_frame r = Some off"
  by (cases r) (simp_all add: user_frame_def)

text \<open>After \<^verbatim>\<open>uservec\<close>: the trapframe holds the user registers, and the kernel's own registers are loaded.\<close>

lemma uservec_saves:
  assumes al: "8 dvd unat tf" and map: "mapped_at mmu (acsr m Satp) TRAPFRAME tf frame_offs"
  defines "m' \<equiv> run mmu uservec_code m"
  shows "\<forall>(r, off)\<in>set user_frame. load64 (tf + off) (amem m') = regs m r"
    and "load64 (tf + 112) (amem m') = regs m A0"
    and "regs m' SP = load64 (tf + 8) (amem m)" and "regs m' TP = load64 (tf + 32) (amem m)"
    and "acsr m' Satp = load64 tf (amem m)" and "apc m' = load64 (tf + 16) (amem m)"
proof -
  note [simp del] = TRAPFRAME_def
  let ?m0 = "run mmu [CSRW Sscratch A0, LI A0 TRAPFRAME] m"
  have m0: "regs ?m0 = (regs m)(A0 := TRAPFRAME)" "acsr ?m0 = (acsr m)(Sscratch := regs m A0)" "amem ?m0 = amem m"
    by (simp_all add: run_def set_reg_def)
  define mem where "mem = saved tf (regs ?m0) user_frame (amem m)"
  have "mapped_at mmu (acsr ?m0 Satp) (regs ?m0 A0) tf (map snd user_frame)"
    using map by (auto simp: m0 mapped_at_def frame_offs_def)
  then have m1: "run mmu (saves A0 user_frame) ?m0 = ?m0\<lparr>amem := mem\<rparr>"
    using run_saves [of mmu ?m0 A0 tf user_frame] by (simp add: m0 mem_def)
  have mm: "mmu (acsr m Satp) (TRAPFRAME + off) = tf + off" if "off \<in> set frame_offs" for off
    using map that by (simp add: mapped_at_def)
  have mm': "mmu (acsr m Satp) (TRAPFRAME + 112) = tf + 112" "mmu (acsr m Satp) (TRAPFRAME + 8) = tf + 8"
    "mmu (acsr m Satp) (TRAPFRAME + 32) = tf + 32" "mmu (acsr m Satp) (TRAPFRAME + 16) = tf + 16"
    "mmu (acsr m Satp) TRAPFRAME = tf"
    using mm [of 112] mm [of 8] mm [of 32] mm [of 16] mm [of 0] by (simp_all add: frame_offs_def)
  define mem' where "mem' = store64 (tf + 112) (regs m A0) mem"
  have other: "load64 (tf + off) mem' = load64 (tf + off) mem" if "8 dvd unat off" "off \<noteq> 112" for off
    unfolding mem'_def using al that by (intro load64_store64_other aligned_add) auto
  have keep: "load64 (tf + off) mem = load64 (tf + off) (amem m)" if "8 dvd unat off" "off \<notin> snd ` set user_frame" for off
    unfolding mem_def using al that user_frame_ok(1) by (intro saved_other aligned_add) (auto simp: image_iff)
  have word: "load64 (tf + off) mem = regs m r" if "(r, off) \<in> set user_frame" for r off
  proof -
    have "r \<noteq> A0" using that user_frame_ok(3) by (force simp: image_iff)
    then show ?thesis unfolding mem_def using saved_word [OF al user_frame_ok(1) that] by (simp add: m0)
  qed
  have m': "amem m' = mem'" "regs m' SP = load64 (tf + 8) mem'" "regs m' TP = load64 (tf + 32) mem'"
    "acsr m' Satp = load64 (tf + 0) mem'" "apc m' = load64 (tf + 16) mem'"
    unfolding m'_def uservec_split run_append m1
    by (simp_all add: run_def set_reg_def m0 mm' mem'_def)
  have kept: "off \<notin> snd ` set user_frame" if "off \<in> {0, 8, 16, 32}" for off :: u64
    using that by (auto simp: user_frame_def)
  show "\<forall>(r, off)\<in>set user_frame. load64 (tf + off) (amem m') = regs m r"
  proof clarify
    fix r off
    assume ro: "(r, off) \<in> set user_frame"
    then have "off \<in> set (map snd user_frame)" by force
    then have "8 dvd unat off" "off \<noteq> 112" using user_frame_ok(1) by (auto simp: word_offs_def user_frame_def)
    then show "load64 (tf + off) (amem m') = regs m r" using other word [OF ro] m'(1) by simp
  qed
  show "load64 (tf + 112) (amem m') = regs m A0" by (simp add: m'(1) mem'_def)
  show "regs m' SP = load64 (tf + 8) (amem m)" "regs m' TP = load64 (tf + 32) (amem m)"
    "apc m' = load64 (tf + 16) (amem m)"
    using m' other [of 8] other [of 32] other [of 16] keep [of 8] keep [of 32] keep [of 16] kept by simp_all
  show "acsr m' Satp = load64 tf (amem m)" using m'(4) other [of 0] keep [of 0] kept by simp
qed

lemma userret_loads:
  assumes map: "mapped_at mmu (regs m A0) TRAPFRAME tf frame_offs"
  defines "m' \<equiv> run mmu userret_code m"
  shows "regs m' A0 = load64 (tf + 112) (amem m)"
    and "map_of user_frame r = Some off \<Longrightarrow> regs m' r = load64 (tf + off) (amem m)"
    and "amem m' = amem m" and "acsr m' = (acsr m)(Satp := regs m A0)" and "apc m' = acsr m Sepc"
proof -
  note [simp del] = TRAPFRAME_def
  let ?m0 = "run mmu [SFENCE, CSRW Satp A0, SFENCE, LI A0 TRAPFRAME] m"
  have m0: "regs ?m0 = (regs m)(A0 := TRAPFRAME)" "acsr ?m0 = (acsr m)(Satp := regs m A0)" "amem ?m0 = amem m"
    by (simp_all add: run_def set_reg_def)
  let ?m1 = "?m0\<lparr>regs := \<lambda>x. case map_of user_frame x of None \<Rightarrow> regs ?m0 x | Some off \<Rightarrow> load64 (tf + off) (amem ?m0)\<rparr>"
  have "mapped_at mmu (acsr ?m0 Satp) (regs ?m0 A0) tf (map snd user_frame)"
    using map by (auto simp: m0 mapped_at_def frame_offs_def)
  then have m1: "run mmu (loads A0 user_frame) ?m0 = ?m1"
    using user_frame_ok(2,3) by (intro run_loads) (auto simp: image_iff)
  have n: "map_of user_frame A0 = None" using user_frame_ok(3) by (simp add: map_of_eq_None_iff)
  have "mmu (regs m A0) (TRAPFRAME + 112) = tf + 112" using map by (simp add: mapped_at_def frame_offs_def)
  then have m': "m' = (set_reg A0 (load64 (tf + 112) (amem m)) ?m1)\<lparr>apc := acsr m Sepc\<rparr>"
    unfolding m'_def userret_split run_append m1 using n by (simp add: run_def set_reg_def m0)
  show "regs m' A0 = load64 (tf + 112) (amem m)" "amem m' = amem m" "acsr m' = (acsr m)(Satp := regs m A0)"
    "apc m' = acsr m Sepc"
    by (simp_all add: m' set_reg_def m0)
  show "regs m' r = load64 (tf + off) (amem m)" if "map_of user_frame r = Some off"
    using that n by (cases "r = A0") (simp_all add: m' set_reg_def m0)
qed

text \<open>
  C22: the trampoline preserves the user's registers. A trap from user space through \<^verbatim>\<open>uservec\<close>, the kernel
  running in between with whatever registers, and the return through \<^verbatim>\<open>userret\<close> with the same page table,
  give back all 31 registers, provided the kernel left the words of the trapframe alone; a word the kernel did
  change, such as the one of \<open>a0\<close> for the result of a system call, shows up in exactly that register. The
  kernel starts on the stack, with the hart number, with the page table and at the address that
  the trapframe names.
\<close>

theorem trampoline_registers:
  assumes "8 dvd unat tf" and "mapped_at mmu (acsr m Satp) TRAPFRAME tf frame_offs"
    and "regs k A0 = acsr m Satp"
    and "\<forall>off\<in>set (map snd user_frame). load64 (tf + off) (amem k) = load64 (tf + off) (amem (run mmu uservec_code m))"
  shows "regs (run mmu userret_code k) = (regs m)(A0 := load64 (tf + 112) (amem k))
    \<and> load64 (tf + 112) (amem (run mmu uservec_code m)) = regs m A0
    \<and> apc (run mmu userret_code k) = acsr k Sepc
    \<and> acsr (run mmu userret_code k) Satp = acsr m Satp
    \<and> regs (run mmu uservec_code m) SP = load64 (tf + 8) (amem m)
    \<and> regs (run mmu uservec_code m) TP = load64 (tf + 32) (amem m)
    \<and> apc (run mmu uservec_code m) = load64 (tf + 16) (amem m)
    \<and> acsr (run mmu uservec_code m) Satp = load64 tf (amem m)"
proof -
  note s = uservec_saves [OF assms(1,2)]
  have map: "mapped_at mmu (regs k A0) TRAPFRAME tf frame_offs" using assms(2,3) by simp
  note l = userret_loads [OF map]
  have "regs (run mmu userret_code k) r = ((regs m)(A0 := load64 (tf + 112) (amem k))) r" for r
  proof (cases "r = A0")
    case False
    then obtain off where o: "map_of user_frame r = Some off" using user_frame_all by blast
    then have "(r, off) \<in> set user_frame" by (rule map_of_SomeD)
    then have "load64 (tf + off) (amem k) = regs m r" using assms(4) s(1) by force
    then show ?thesis using l(2) [OF o] False by simp
  qed (simp add: l(1))
  then show ?thesis using s l(4,5) assms(3) by (simp add: fun_eq_iff)
qed

theorem trampoline_registers_witness:
  "\<exists>m k. regs k = (\<lambda>_. 7) \<and> amem k = amem (run (\<lambda>satp va. va - TRAPFRAME + 0x87000000) uservec_code m)
    \<and> regs m = (\<lambda>_. 5) \<and> regs (run (\<lambda>satp va. va - TRAPFRAME + 0x87000000) userret_code k) = (\<lambda>_. 5)"
proof -
  note [simp del] = TRAPFRAME_def
  let ?mmu = "\<lambda>satp va. va - TRAPFRAME + 0x87000000"
  let ?m = "\<lparr>regs = \<lambda>_. 5, amem = \<lambda>_. 0, acsr = (\<lambda>_. 0)(Satp := 7), apc = 0\<rparr>"
  let ?k = "(run ?mmu uservec_code ?m)\<lparr>regs := \<lambda>_. 7\<rparr>"
  have "mapped_at ?mmu (acsr ?m Satp) TRAPFRAME 0x87000000 frame_offs"
    by (simp add: mapped_at_def algebra_simps)
  from trampoline_registers [OF _ this, of ?k]
  have r: "regs (run ?mmu userret_code ?k) = (\<lambda>_. 5)" by (simp add: fun_eq_iff)
  show ?thesis by (intro exI [of _ ?m] exI [of _ ?k] conjI r) simp_all
qed

section \<open>Traps from the kernel\<close>

definition kernel_frame :: "(reg \<times> u64) list" where
  "kernel_frame =
    [(RA, 0), (SP, 8), (GP, 16), (TP, 24), (T0, 32), (T1, 40), (T2, 48), (S0, 56), (S1, 64), (A0, 72), (A1, 80),
     (A2, 88), (A3, 96), (A4, 104), (A5, 112), (A6, 120), (A7, 128), (S2, 136), (S3, 144), (S4, 152), (S5, 160),
     (S6, 168), (S7, 176), (S8, 184), (S9, 192), (S10, 200), (S11, 208), (T3, 216), (T4, 224), (T5, 232), (T6, 240)]"

definition restored_frame :: "(reg \<times> u64) list" where
  "restored_frame = filter (\<lambda>(r, off). r \<noteq> TP) kernel_frame"

lemma kernelvec_split:
  "kernelvec_save = [ADDI SP SP (-256)] @ saves SP kernel_frame"
  "kernelvec_restore = loads SP restored_frame @ [ADDI SP SP 256, SRET]"
  by (simp_all add: kernelvec_save_def kernelvec_restore_def saves_def loads_def kernel_frame_def restored_frame_def)

lemma kernel_frame_ok: "word_offs (map snd kernel_frame)" "distinct (map fst restored_frame)" "(SP, 8) \<in> set kernel_frame"
  by (simp_all add: kernel_frame_def restored_frame_def word_offs_def)

lemma restored_frame_all: "r \<noteq> TP \<Longrightarrow> \<exists>off. map_of restored_frame r = Some off"
  by (cases r) (simp_all add: kernel_frame_def restored_frame_def)

lemma restored_subset: "set restored_frame \<subseteq> set kernel_frame" "TP \<notin> fst ` set restored_frame"
  by (auto simp: restored_frame_def)

text \<open>
  C23: an interrupt of kernel code is transparent. If the handler called by \<^verbatim>\<open>kernelvec\<close> returns with
  the stack pointer it was given and leaves the saved words on the stack alone, all registers are
  as before the interrupt, except \<open>tp\<close>, which keeps the hart number of the hart on which the
  handler returned; execution continues at the saved program counter.
\<close>

theorem kernelvec_transparent:
  assumes al: "8 dvd unat pa" and map: "mapped_at mmu (acsr m Satp) (regs m SP - 256) pa (map snd kernel_frame)"
    and k: "regs k SP = regs m SP - 256" "mapped_at mmu (acsr k Satp) (regs m SP - 256) pa (map snd kernel_frame)"
    and keep: "\<forall>off\<in>set (map snd kernel_frame).
      load64 (pa + off) (amem k) = load64 (pa + off) (amem (run mmu kernelvec_save m))"
  shows "regs (run mmu kernelvec_restore k) = (regs m)(TP := regs k TP)
    \<and> apc (run mmu kernelvec_restore k) = acsr k Sepc \<and> amem (run mmu kernelvec_restore k) = amem k"
proof -
  let ?sp = "regs m SP - 256"
  let ?m0 = "run mmu [ADDI SP SP (-256)] m"
  have m0: "regs ?m0 = (regs m)(SP := ?sp)" "acsr ?m0 = acsr m" "amem ?m0 = amem m"
    by (simp_all add: run_def set_reg_def)
  have "run mmu (saves SP kernel_frame) ?m0 = ?m0\<lparr>amem := saved pa (regs ?m0) kernel_frame (amem ?m0)\<rparr>"
    using map by (intro run_saves) (simp add: m0)
  then have m1: "amem (run mmu kernelvec_save m) = saved pa (regs ?m0) kernel_frame (amem m)"
    unfolding kernelvec_split run_append by (simp add: m0)
  have word: "load64 (pa + off) (amem k) = regs ?m0 r" if "(r, off) \<in> set kernel_frame" for r off
  proof -
    have "off \<in> set (map snd kernel_frame)" using that by force
    then have "load64 (pa + off) (amem k) = load64 (pa + off) (saved pa (regs ?m0) kernel_frame (amem m))"
      using keep unfolding m1 by blast
    then show ?thesis using saved_word [OF al kernel_frame_ok(1) that] by simp
  qed
  define kr where "kr = (\<lambda>x. case map_of restored_frame x of None \<Rightarrow> regs k x | Some off \<Rightarrow> load64 (pa + off) (amem k))"
  have "run mmu (loads SP restored_frame) k = k\<lparr>regs := kr\<rparr>"
    unfolding kr_def
  proof (rule run_loads)
    show "mapped_at mmu (acsr k Satp) (regs k SP) pa (map snd restored_frame)"
      using k restored_subset(1) by (auto simp: mapped_at_def)
    show "\<forall>(r, off)\<in>set restored_frame. r = SP \<longrightarrow> load64 (pa + off) (amem k) = regs k SP"
      using word k(1) restored_subset(1) by (auto simp: m0)
  qed (rule kernel_frame_ok)
  then have e: "run mmu kernelvec_restore k = k\<lparr>regs := kr(SP := kr SP + 256), apc := acsr k Sepc\<rparr>"
    unfolding kernelvec_split run_append by (simp add: run_def set_reg_def)
  have r1: "kr r = (if r = TP then regs k TP else regs ?m0 r)" for r
  proof (cases "r = TP")
    case True
    then have "map_of restored_frame r = None" using restored_subset(2) by (simp add: map_of_eq_None_iff)
    then show ?thesis using True by (simp add: kr_def)
  next
    case False
    then obtain off where o: "map_of restored_frame r = Some off" using restored_frame_all by blast
    then have "(r, off) \<in> set kernel_frame" using map_of_SomeD restored_subset(1) by fastforce
    then show ?thesis using o False word by (simp add: kr_def)
  qed
  have "regs (run mmu kernelvec_restore k) = (regs m)(TP := regs k TP)"
    unfolding e by (rule ext) (simp add: r1 m0)
  then show ?thesis by (simp add: e)
qed

theorem kernelvec_transparent_witness:
  "\<exists>m k. regs k TP = 1 \<and> amem k = amem (run (\<lambda>satp va. va) kernelvec_save m) \<and> regs m = (\<lambda>_. 0x80010000)
    \<and> regs (run (\<lambda>satp va. va) kernelvec_restore k) = (\<lambda>_. 0x80010000)(TP := 1)"
proof -
  let ?mmu = "\<lambda>satp va. va :: u64"
  let ?m = "\<lparr>regs = \<lambda>_. 0x80010000, amem = \<lambda>_. 0, acsr = \<lambda>_. 0, apc = 0\<rparr>"
  let ?k = "(run ?mmu kernelvec_save ?m)\<lparr>regs := (\<lambda>_. 3)(SP := 0x80010000 - 256, TP := 1), acsr := \<lambda>_. 0\<rparr>"
  have map: "mapped_at ?mmu (acsr x Satp) (regs ?m SP - 256) (0x80010000 - 256) (map snd kernel_frame)" for x
    by (simp add: mapped_at_def)
  have r: "regs (run ?mmu kernelvec_restore ?k) = (\<lambda>_. 0x80010000)(TP := 1)"
    using kernelvec_transparent [OF _ map _ map, of ?k] by (simp add: fun_eq_iff)
  show ?thesis by (intro exI [of _ ?m] exI [of _ ?k] conjI r) simp_all
qed

section \<open>Context switch\<close>

definition context_frame :: "(reg \<times> u64) list" where
  "context_frame =
    [(RA, 0), (SP, 8), (S0, 16), (S1, 24), (S2, 32), (S3, 40), (S4, 48), (S5, 56), (S6, 64), (S7, 72), (S8, 80),
     (S9, 88), (S10, 96), (S11, 104)]"

lemma swtch_split: "swtch_code = saves A0 context_frame @ loads A1 context_frame @ [JR RA]"
  by (simp add: swtch_code_def saves_def loads_def context_frame_def)

lemma context_frame_ok: "word_offs (map snd context_frame)" "distinct (map fst context_frame)"
  "A0 \<notin> fst ` set context_frame" "A1 \<notin> fst ` set context_frame" "map_of context_frame RA = Some 0"
  by (simp_all add: context_frame_def word_offs_def)

lemma swtch_ok:
  assumes al: "8 dvd unat po" "8 dvd unat pn"
    and map: "mapped_at mmu (acsr m Satp) (regs m A0) po (map snd context_frame)"
      "mapped_at mmu (acsr m Satp) (regs m A1) pn (map snd context_frame)"
    and apart: "\<forall>o1\<in>set (map snd context_frame). \<forall>o2\<in>set (map snd context_frame). pn + o1 \<noteq> po + o2"
  defines "m' \<equiv> run mmu swtch_code m"
  shows "(r, off) \<in> set context_frame \<Longrightarrow> load64 (po + off) (amem m') = regs m r"
    and "map_of context_frame r = Some off \<Longrightarrow> regs m' r = load64 (pn + off) (amem m)"
    and "map_of context_frame r = None \<Longrightarrow> regs m' r = regs m r"
    and "apc m' = load64 pn (amem m)"
proof -
  let ?mem = "saved po (regs m) context_frame (amem m)"
  define m1 where "m1 = m\<lparr>amem := ?mem\<rparr>"
  have f: "regs m1 = regs m" "amem m1 = ?mem" "acsr m1 = acsr m" by (simp_all add: m1_def)
  have m1: "run mmu (saves A0 context_frame) m = m1" unfolding m1_def by (rule run_saves [OF map(1)])
  define nr where "nr = (\<lambda>x. case map_of context_frame x of None \<Rightarrow> regs m1 x | Some off \<Rightarrow> load64 (pn + off) (amem m1))"
  have "run mmu (loads A1 context_frame) m1 = m1\<lparr>regs := nr\<rparr>"
    unfolding nr_def using map(2) context_frame_ok by (intro run_loads) (auto simp: image_iff f)
  then have m': "m' = m1\<lparr>regs := nr, apc := nr RA\<rparr>"
    unfolding m'_def swtch_split run_append m1 by (simp add: run_def)
  have new: "load64 (pn + off) ?mem = load64 (pn + off) (amem m)" if "off \<in> set (map snd context_frame)" for off
    using al apart that context_frame_ok(1) by (intro saved_other aligned_add) (auto simp: word_offs_def)
  show "load64 (po + off) (amem m') = regs m r" if "(r, off) \<in> set context_frame"
    using saved_word [OF al(1) context_frame_ok(1) that] by (simp add: m' f)
  show "regs m' r = load64 (pn + off) (amem m)" if "map_of context_frame r = Some off"
  proof -
    have "off \<in> set (map snd context_frame)" using map_of_SomeD [OF that] by force
    then show ?thesis using that new by (simp add: m' nr_def f)
  qed
  show "regs m' r = regs m r" if "map_of context_frame r = None" using that by (simp add: m' nr_def f)
  show "apc m' = load64 pn (amem m)" using new [of 0] context_frame_ok(5) by (simp add: m' nr_def f) (simp add: context_frame_def)
qed

text \<open>
  C24: a context switch returns to where it was left. When \<^verbatim>\<open>swtch\<close> has stored the context of one thread and
  a later \<^verbatim>\<open>swtch\<close>, on whichever thread and with the stored words unchanged, loads it again, the
  callee-saved registers with the stack pointer are those of the first call, and execution continues at
  the return address of the first call; the registers a caller saves itself are not touched.
\<close>

theorem swtch_resumes:
  assumes al: "8 dvd unat po" "8 dvd unat pn" "8 dvd unat pq"
    and m: "mapped_at mmu (acsr m Satp) (regs m A0) po (map snd context_frame)"
      "mapped_at mmu (acsr m Satp) (regs m A1) pn (map snd context_frame)"
      "\<forall>o1\<in>set (map snd context_frame). \<forall>o2\<in>set (map snd context_frame). pn + o1 \<noteq> po + o2"
    and k: "mapped_at mmu (acsr k Satp) (regs k A0) pq (map snd context_frame)"
      "mapped_at mmu (acsr k Satp) (regs k A1) po (map snd context_frame)"
      "\<forall>o1\<in>set (map snd context_frame). \<forall>o2\<in>set (map snd context_frame). po + o1 \<noteq> pq + o2"
    and keep: "\<forall>off\<in>set (map snd context_frame). load64 (po + off) (amem k) = load64 (po + off) (amem (run mmu swtch_code m))"
  shows "(\<forall>r\<in>fst ` set context_frame. regs (run mmu swtch_code k) r = regs m r)
    \<and> apc (run mmu swtch_code k) = regs m RA
    \<and> (\<forall>r. r \<notin> fst ` set context_frame \<longrightarrow> regs (run mmu swtch_code k) r = regs k r)"
proof -
  note sm = swtch_ok [OF al(1,2) m] and sk = swtch_ok [OF al(3,1) k]
  have word: "load64 (po + off) (amem k) = regs m r" if "(r, off) \<in> set context_frame" for r off
  proof -
    have "load64 (po + off) (amem k) = load64 (po + off) (amem (run mmu swtch_code m))" using keep that by force
    then show ?thesis using sm(1) [OF that] by simp
  qed
  have "regs (run mmu swtch_code k) r = regs m r" if r: "r \<in> fst ` set context_frame" for r
  proof -
    obtain off where o: "map_of context_frame r = Some off"
      using r by (cases "map_of context_frame r") (simp_all add: map_of_eq_None_iff)
    then show ?thesis using sk(2) [OF o] word [OF map_of_SomeD [OF o]] by simp
  qed
  moreover have "apc (run mmu swtch_code k) = regs m RA"
    using sk(4) word [of RA 0] by (simp add: context_frame_def)
  moreover have "regs (run mmu swtch_code k) r = regs k r" if "r \<notin> fst ` set context_frame" for r
    using that by (intro sk(3)) (simp add: map_of_eq_None_iff)
  ultimately show ?thesis by blast
qed

theorem swtch_resumes_witness:
  "\<exists>(m :: machine) k. regs m SP = 5 \<and> regs k SP = 7 \<and> regs m RA = 11
    \<and> regs (run (\<lambda>satp va. va) swtch_code k) SP = 5 \<and> apc (run (\<lambda>satp va. va) swtch_code k) = 11"
proof -
  let ?mmu = "\<lambda>satp va. va :: u64"
  let ?m = "\<lparr>regs = (\<lambda>_. 5)(RA := 11, A0 := 0x1000, A1 := 0x2000), amem = \<lambda>_. 0, acsr = \<lambda>_. 0, apc = 0\<rparr>"
  let ?k = "(run ?mmu swtch_code ?m)\<lparr>regs := (\<lambda>_. 7)(A0 := 0x3000, A1 := 0x1000)\<rparr>"
  have map: "mapped_at ?mmu x a a (map snd context_frame)" for x a by (simp add: mapped_at_def)
  have "\<forall>o1\<in>set (map snd context_frame). \<forall>o2\<in>set (map snd context_frame). (0x2000 :: u64) + o1 \<noteq> 0x1000 + o2"
    "\<forall>o1\<in>set (map snd context_frame). \<forall>o2\<in>set (map snd context_frame). (0x1000 :: u64) + o1 \<noteq> 0x3000 + o2"
    by (simp_all add: context_frame_def)
  then have r: "(\<forall>r\<in>fst ` set context_frame. regs (run ?mmu swtch_code ?k) r = regs ?m r)
    \<and> apc (run ?mmu swtch_code ?k) = regs ?m RA \<and> (\<forall>r. r \<notin> fst ` set context_frame \<longrightarrow> regs (run ?mmu swtch_code ?k) r = regs ?k r)"
    by (intro swtch_resumes [where po = "0x1000" and pn = "0x2000" and pq = "0x3000"]) (simp_all add: mapped_at_def)
  have "SP \<in> fst ` set context_frame" by (simp add: context_frame_def)
  then have "regs (run ?mmu swtch_code ?k) SP = regs ?m SP" using conjunct1 [OF r] by blast
  then have a: "regs (run ?mmu swtch_code ?k) SP = 5" by simp
  have b: "apc (run ?mmu swtch_code ?k) = 11" using r by simp
  show ?thesis by (intro exI [of _ ?m] exI [of _ ?k] conjI a b) simp_all
qed

section \<open>Timer interrupts\<close>

text \<open>
  The scratch area of a hart at \<open>p\<close>: three words to save registers, the address of the compare register, the
  interval.
\<close>

text \<open>
  C25: a timer interrupt is invisible to the code it interrupts. \<^verbatim>\<open>timervec\<close> moves the compare register of the
  hart forward by the interval and raises a supervisor software interrupt; all registers and
  \<^verbatim>\<open>mscratch\<close> are as before, and execution continues where it was interrupted.
\<close>

theorem timervec_transparent:
  assumes "8 dvd unat p" and "8 dvd unat cmp" and "acsr m Mscratch = p"
    and "load64 (p + 24) (amem m) = cmp" and "load64 (p + 32) (amem m) = interval"
    and "cmp \<notin> {p, p + 8, p + 16}"
  shows "regs (run (\<lambda>satp va. va) timervec_code m) = regs m
    \<and> acsr (run (\<lambda>satp va. va) timervec_code m) = (acsr m)(Sip := 2)
    \<and> load64 cmp (amem (run (\<lambda>satp va. va) timervec_code m)) = load64 cmp (amem m) + interval
    \<and> apc (run (\<lambda>satp va. va) timervec_code m) = acsr m Mepc"
proof -
  define m3 where "m3 = store64 (p + 16) (regs m A3) (store64 (p + 8) (regs m A2) (store64 p (regs m A1) (amem m)))"
  have al: "8 dvd unat (p + 8)" "8 dvd unat (p + 16)" "8 dvd unat (p + 24)" "8 dvd unat (p + 32)"
    using assms(1) by (auto intro!: aligned_add)
  have l: "load64 (p + 24) m3 = cmp" "load64 (p + 32) m3 = interval" "load64 cmp m3 = load64 cmp (amem m)"
    "load64 (p + 16) m3 = regs m A3" "load64 (p + 8) m3 = regs m A2" "load64 p m3 = regs m A1"
    using assms al by (simp_all add: m3_def load64_store64_other)
  let ?m4 = "store64 cmp (load64 cmp (amem m) + interval) m3"
  have l4: "load64 (p + 16) ?m4 = regs m A3" "load64 (p + 8) ?m4 = regs m A2" "load64 p ?m4 = regs m A1"
  proof -
    have "p \<noteq> cmp" "p + 8 \<noteq> cmp" "p + 16 \<noteq> cmp" using assms(6) by auto
    then show "load64 (p + 16) ?m4 = regs m A3" "load64 (p + 8) ?m4 = regs m A2" "load64 p ?m4 = regs m A1"
      using assms(1,2) al l by (simp_all add: load64_store64_other)
  qed
  let ?r = "run (\<lambda>satp va. va) timervec_code m"
  note ev = timervec_code_def run_def set_reg_def m3_def [symmetric] assms(3) l l4
  have "amem ?r = ?m4" "apc ?r = acsr m Mepc" by (simp_all add: ev)
  moreover have "regs ?r = regs m" by (rule ext) (simp add: ev)
  moreover have "acsr ?r = (acsr m)(Sip := 2)" by (rule ext) (simp add: ev)
  ultimately show ?thesis by simp
qed

theorem timervec_transparent_witness:
  "\<exists>m. regs m = (\<lambda>_. 3) \<and> regs (run (\<lambda>satp va. va) timervec_code m) = regs m
    \<and> load64 0x2004000 (amem (run (\<lambda>satp va. va) timervec_code m)) = load64 0x2004000 (amem m) + 1000000"
proof -
  let ?mem = "store64 0x1018 0x2004000 (store64 0x1020 1000000 (\<lambda>_. 0))"
  let ?m = "\<lparr>regs = \<lambda>_. 3, amem = ?mem, acsr = (\<lambda>_. 0)(Mscratch := 0x1000), apc = 0\<rparr>"
  have "load64 0x1020 ?mem = 1000000" by (simp add: load64_store64_other)
  then have "regs (run (\<lambda>satp va. va) timervec_code ?m) = regs ?m
    \<and> acsr (run (\<lambda>satp va. va) timervec_code ?m) = (acsr ?m)(Sip := 2)
    \<and> load64 0x2004000 (amem (run (\<lambda>satp va. va) timervec_code ?m)) = load64 0x2004000 (amem ?m) + 1000000
    \<and> apc (run (\<lambda>satp va. va) timervec_code ?m) = acsr ?m Mepc"
    by (intro timervec_transparent [where p = "0x1000"]) simp_all
  then show ?thesis by (intro exI [of _ ?m]) simp
qed

end
