(* ===== verification/Spinlock.thy ===== *)
theory Spinlock
  imports Riscv
begin

text \<open>
  \<^verbatim>\<open>kernel/spinlock.c\<close> on several harts. The functions that do more than one memory access
  to the lock are split at these accesses, and a step relation interleaves the harts:
  \<^verbatim>\<open>acquire\<close> into its entry, one round of the loop with the atomic swap, and the
  recording of the owner, \<^verbatim>\<open>release\<close> into clearing the owner and clearing the lock. The other theories take
  what runs between \<^verbatim>\<open>acquire\<close> and \<^verbatim>\<open>release\<close> as one step; the invariant here is what justifies this.
\<close>

section \<open>Model\<close>

record spinlock =
  locked :: u32
  lcpu :: "nat option"

record cpu =
  noff :: int
  intena :: bool

record 'l smp =
  cpus :: "nat \<Rightarrow> cpu"
  hcsr :: "nat \<Rightarrow> csrfile"
  locks :: "'l \<Rightarrow> spinlock"

definition initlock :: spinlock where
  "initlock = \<lparr>locked = 0, lcpu = None\<rparr>"

definition holding :: "nat \<Rightarrow> 'l \<Rightarrow> 'l smp \<Rightarrow> bool" where
  "holding h lk s \<longleftrightarrow> locked (locks s lk) \<noteq> 0 \<and> lcpu (locks s lk) = Some h"

definition push_off :: "nat \<Rightarrow> 'l smp \<Rightarrow> 'l smp" where
  "push_off h s =
     (let old = intr_get (hcsr s h);
          s = s\<lparr>hcsr := (hcsr s)(h := intr_off (hcsr s h))\<rparr>;
          c = cpus s h;
          c = (if noff c = 0 then c\<lparr>intena := old\<rparr> else c)
      in s\<lparr>cpus := (cpus s)(h := c\<lparr>noff := noff c + 1\<rparr>)\<rparr>)"

definition pop_off :: "nat \<Rightarrow> 'l smp \<Rightarrow> 'l smp res" where
  "pop_off h s =
     (let c = cpus s h in
      if intr_get (hcsr s h) then Inl (Panic ''pop_off - interruptible'')
      else if noff c < 1 then Inl (Panic ''pop_off'')
      else
        let c = c\<lparr>noff := noff c - 1\<rparr>;
            s = s\<lparr>cpus := (cpus s)(h := c)\<rparr>
        in Inr (if noff c = 0 \<and> intena c then s\<lparr>hcsr := (hcsr s)(h := intr_on (hcsr s h))\<rparr> else s))"

definition set_lock :: "'l \<Rightarrow> (spinlock \<Rightarrow> spinlock) \<Rightarrow> 'l smp \<Rightarrow> 'l smp" where
  "set_lock lk f s = s\<lparr>locks := (locks s)(lk := f (locks s lk))\<rparr>"

definition acquire_enter :: "nat \<Rightarrow> 'l \<Rightarrow> 'l smp \<Rightarrow> 'l smp res" where
  "acquire_enter h lk s =
     (let s = push_off h s in if holding h lk s then Inl (Panic ''acquire'') else Inr s)"

text \<open>One \<^verbatim>\<open>__sync_lock_test_and_set\<close>: the old value, and the lock set.\<close>

definition test_and_set :: "'l \<Rightarrow> 'l smp \<Rightarrow> u32 \<times> 'l smp" where
  "test_and_set lk s = (locked (locks s lk), set_lock lk (\<lambda>l. l\<lparr>locked := 1\<rparr>) s)"

definition acquire_end :: "nat \<Rightarrow> 'l \<Rightarrow> 'l smp \<Rightarrow> 'l smp" where
  "acquire_end h lk s = set_lock lk (\<lambda>l. l\<lparr>lcpu := Some h\<rparr>) s"

text \<open>\<^verbatim>\<open>acquire\<close> without interference: it never ends when the lock is taken.\<close>

definition acquire :: "nat \<Rightarrow> 'l \<Rightarrow> 'l smp \<Rightarrow> 'l smp res" where
  "acquire h lk s =
     rbind (acquire_enter h lk s) (\<lambda>s.
       case test_and_set lk s of (old, s) \<Rightarrow>
         if old \<noteq> 0 then Inl Diverges else Inr (acquire_end h lk s))"

definition release_begin :: "nat \<Rightarrow> 'l \<Rightarrow> 'l smp \<Rightarrow> 'l smp res" where
  "release_begin h lk s =
     (if \<not> holding h lk s then Inl (Panic ''release'')
      else Inr (set_lock lk (\<lambda>l. l\<lparr>lcpu := None\<rparr>) s))"

definition release_end :: "nat \<Rightarrow> 'l \<Rightarrow> 'l smp \<Rightarrow> 'l smp res" where
  "release_end h lk s = pop_off h (set_lock lk (\<lambda>l. l\<lparr>locked := 0\<rparr>) s)"

definition release :: "nat \<Rightarrow> 'l \<Rightarrow> 'l smp \<Rightarrow> 'l smp res" where
  "release h lk s = rbind (release_begin h lk s) (release_end h lk)"

section \<open>Interleaving\<close>

text \<open>Where a hart is: outside these functions, in the loop of \<^verbatim>\<open>acquire\<close>, behind it, or in the middle of \<^verbatim>\<open>release\<close>.\<close>

datatype 'l phase = Out | Spinning 'l | Taken 'l | Dropping 'l

text \<open>
  A configuration: the state, the phase of each hart, and how often each has called \<^verbatim>\<open>push_off\<close> itself
  without a \<^verbatim>\<open>pop_off\<close> yet.
\<close>

type_synonym 'l config = "'l smp \<times> (nat \<Rightarrow> 'l phase) \<times> (nat \<Rightarrow> nat)"

inductive lstep :: "'l config \<Rightarrow> 'l config \<Rightarrow> bool" where
  enter: "ph h = Out \<Longrightarrow> acquire_enter h lk s = Inr s' \<Longrightarrow> lstep (s, ph, n) (s', ph(h := Spinning lk), n)"
| spin: "ph h = Spinning lk \<Longrightarrow> test_and_set lk s = (old, s') \<Longrightarrow> old \<noteq> 0 \<Longrightarrow> lstep (s, ph, n) (s', ph, n)"
| take: "ph h = Spinning lk \<Longrightarrow> test_and_set lk s = (0, s') \<Longrightarrow> lstep (s, ph, n) (s', ph(h := Taken lk), n)"
| own: "ph h = Taken lk \<Longrightarrow> lstep (s, ph, n) (acquire_end h lk s, ph(h := Out), n)"
| drop: "ph h = Out \<Longrightarrow> release_begin h lk s = Inr s' \<Longrightarrow> lstep (s, ph, n) (s', ph(h := Dropping lk), n)"
| free: "ph h = Dropping lk \<Longrightarrow> release_end h lk s = Inr s' \<Longrightarrow> lstep (s, ph, n) (s', ph(h := Out), n)"
| push: "ph h = Out \<Longrightarrow> lstep (s, ph, n) (push_off h s, ph, n(h := n h + 1))"
| pop: "ph h = Out \<Longrightarrow> n h > 0 \<Longrightarrow> pop_off h s = Inr s' \<Longrightarrow> lstep (s, ph, n) (s', ph, n(h := n h - 1))"

inductive_cases lstepE: "lstep (s, ph, n) (s', ph', n')"

text \<open>A hart owns a lock from its successful swap to the clearing of the lock.\<close>

definition owns :: "'l config \<Rightarrow> nat \<Rightarrow> 'l \<Rightarrow> bool" where
  "owns c h lk \<longleftrightarrow> (case c of (s, ph, n) \<Rightarrow>
     ph h = Taken lk \<or> ph h = Dropping lk \<or> lcpu (locks s lk) = Some h)"

definition spins :: "'l phase \<Rightarrow> nat" where
  "spins p = (case p of Spinning _ \<Rightarrow> 1 | _ \<Rightarrow> 0)"

definition linv :: "'l config \<Rightarrow> bool" where
  "linv c \<longleftrightarrow> (case c of (s, ph, n) \<Rightarrow>
     (\<forall>lk. locked (locks s lk) = 0 \<longleftrightarrow> (\<forall>h. \<not> owns c h lk))
     \<and> (\<forall>lk h h'. owns c h lk \<and> owns c h' lk \<longrightarrow> h = h')
     \<and> (\<forall>lk h. (ph h = Taken lk \<or> ph h = Dropping lk) \<longrightarrow> lcpu (locks s lk) = None)
     \<and> (\<forall>h. finite {lk. owns c h lk})
     \<and> (\<forall>h. noff (cpus s h) = int (card {lk. owns c h lk} + spins (ph h) + n h))
     \<and> (\<forall>h. noff (cpus s h) > 0 \<longrightarrow> \<not> intr_get (hcsr s h)))"

text \<open>
  The clauses of the invariant, one by one. \<open>own\<close> stands for the locks the harts own; the invariant depends on
  the configuration through it.
\<close>

lemma linvI:
  assumes "\<And>lk. locked (locks s lk) = 0 \<longleftrightarrow> (\<forall>h. \<not> owns (s, ph, n) h lk)"
    and "\<And>lk h h'. owns (s, ph, n) h lk \<Longrightarrow> owns (s, ph, n) h' lk \<Longrightarrow> h = h'"
    and "\<And>lk h. ph h = Taken lk \<or> ph h = Dropping lk \<Longrightarrow> lcpu (locks s lk) = None"
    and "\<And>h. finite {lk. owns (s, ph, n) h lk}"
    and "\<And>h. noff (cpus s h) = int (card {lk. owns (s, ph, n) h lk} + spins (ph h) + n h)"
    and "\<And>h. noff (cpus s h) > 0 \<Longrightarrow> \<not> intr_get (hcsr s h)"
  shows "linv (s, ph, n)"
  unfolding linv_def using assms by blast

lemma linvD:
  assumes "linv (s, ph, n)"
  shows "locked (locks s lk) = 0 \<longleftrightarrow> (\<forall>h. \<not> owns (s, ph, n) h lk)"
    and "owns (s, ph, n) h lk \<Longrightarrow> owns (s, ph, n) h' lk \<Longrightarrow> h = h'"
    and "ph h = Taken lk \<or> ph h = Dropping lk \<Longrightarrow> lcpu (locks s lk) = None"
    and "finite {lk. owns (s, ph, n) h lk}"
    and "noff (cpus s h) = int (card {lk. owns (s, ph, n) h lk} + spins (ph h) + n h)"
    and "noff (cpus s h) > 0 \<Longrightarrow> \<not> intr_get (hcsr s h)"
  using assms unfolding linv_def by blast+

lemma push_off_simps [simp]:
  "locks (push_off h s) = locks s"
  "noff (cpus (push_off h s) h') = noff (cpus s h') + (if h' = h then 1 else 0)"
  "intr_get (hcsr (push_off h s) h') \<longleftrightarrow> h' \<noteq> h \<and> intr_get (hcsr s h')"
  by (auto simp: push_off_def Let_def)

lemma pop_off_cases:
  assumes "pop_off h s = Inr s'"
  shows "locks s' = locks s" and "noff (cpus s' h') = noff (cpus s h') - (if h' = h then 1 else 0)"
    and "noff (cpus s h) \<ge> 1" and "\<not> intr_get (hcsr s h)"
    and "noff (cpus s' h') > 0 \<Longrightarrow> intr_get (hcsr s' h') = intr_get (hcsr s h')"
  using assms by (auto simp: pop_off_def Let_def split: if_splits)

lemma set_lock_simps [simp]:
  "cpus (set_lock lk f s) = cpus s" "hcsr (set_lock lk f s) = hcsr s"
  "locks (set_lock lk f s) = (locks s)(lk := f (locks s lk))"
  by (simp_all add: set_lock_def)

lemma owns_iff: "owns (s, ph, n) h lk \<longleftrightarrow> ph h = Taken lk \<or> ph h = Dropping lk \<or> lcpu (locks s lk) = Some h"
  by (simp add: owns_def)

lemma spins_simps [simp]: "spins Out = 0" "spins (Spinning lk) = 1" "spins (Taken lk) = 0" "spins (Dropping lk) = 0"
  by (simp_all add: spins_def)

text \<open>A step that changes neither who owns what, nor the locks.\<close>

lemma linv_same_owners:
  assumes inv: "linv (s, ph, n)" and own: "owns (s', ph', n') = owns (s, ph, n)"
    and lkd: "\<And>lk. locked (locks s' lk) = 0 \<longleftrightarrow> locked (locks s lk) = 0"
    and mid: "\<And>lk h. ph' h = Taken lk \<or> ph' h = Dropping lk \<Longrightarrow> lcpu (locks s' lk) = None"
    and noff: "\<And>h. noff (cpus s' h) = noff (cpus s h) + int (spins (ph' h) + n' h) - int (spins (ph h) + n h)"
    and intr: "\<And>h. noff (cpus s' h) > 0 \<Longrightarrow> \<not> intr_get (hcsr s' h)"
  shows "linv (s', ph', n')"
proof (rule linvI)
  note d = linvD [OF inv]
  show "(locked (locks s' lk) = 0) = (\<forall>h. \<not> owns (s', ph', n') h lk)" for lk using d(1) lkd own by simp
  show "h = h'" if "owns (s', ph', n') h lk" "owns (s', ph', n') h' lk" for lk h h' using d(2) that own by metis
  show "lcpu (locks s' lk) = None" if "ph' h = Taken lk \<or> ph' h = Dropping lk" for lk h using mid that by blast
  show "finite {lk. owns (s', ph', n') h lk}" for h using d(4) own by simp
  show "noff (cpus s' h) = int (card {lk. owns (s', ph', n') h lk} + spins (ph' h) + n' h)" for h
    using d(5) [of h] noff [of h] own by simp
  show "\<not> intr_get (hcsr s' h)" if "noff (cpus s' h) > 0" for h using intr that by blast
qed

lemma linv_enter:
  assumes inv: "linv (s, ph, n)" and "ph h = Out" and e: "acquire_enter h lk s = Inr s'"
  shows "linv (s', ph(h := Spinning lk), n)"
proof (rule linv_same_owners [OF inv])
  have s': "s' = push_off h s" using e by (auto simp: acquire_enter_def Let_def split: if_splits)
  show "owns (s', ph(h := Spinning lk), n) = owns (s, ph, n)" using assms(2) by (auto simp: fun_eq_iff owns_iff s')
  show "lcpu (locks s' l) = None" if "(ph(h := Spinning lk)) h' = Taken l \<or> (ph(h := Spinning lk)) h' = Dropping l" for l h'
    using that linvD(3) [OF inv] by (auto simp: s' split: if_splits)
  show "\<not> intr_get (hcsr s' h')" if "noff (cpus s' h') > 0" for h'
    using that linvD(6) [OF inv] by (auto simp: s' split: if_splits)
qed (use assms(2) e in \<open>auto simp: acquire_enter_def Let_def split: if_splits\<close>)

lemma linv_spin:
  assumes inv: "linv (s, ph, n)" and "test_and_set lk s = (old, s')" and "old \<noteq> 0"
  shows "linv (s', ph, n)"
proof (rule linv_same_owners [OF inv])
  have s': "s' = set_lock lk (\<lambda>l. l\<lparr>locked := 1\<rparr>) s" and nz: "locked (locks s lk) \<noteq> 0"
    using assms(2,3) by (auto simp: test_and_set_def)
  have l: "lcpu (locks s' l) = lcpu (locks s l)" for l by (simp add: s')
  show "owns (s', ph, n) = owns (s, ph, n)" by (simp add: fun_eq_iff owns_iff l)
  show "(locked (locks s' l) = 0) = (locked (locks s l) = 0)" for l using nz by (simp add: s')
  show "lcpu (locks s' l) = None" if "ph h = Taken l \<or> ph h = Dropping l" for l h
    using linvD(3) [OF inv that] l by simp
  show "\<not> intr_get (hcsr s' h)" if "noff (cpus s' h) > 0" for h using that linvD(6) [OF inv, of h] by (simp add: s')
  show "noff (cpus s' h) = noff (cpus s h) + int (spins (ph h) + n h) - int (spins (ph h) + n h)" for h
    by (simp add: s')
qed

lemma linv_own:
  assumes inv: "linv (s, ph, n)" and p: "ph h = Taken lk"
  shows "linv (acquire_end h lk s, ph(h := Out), n)"
proof (rule linv_same_owners [OF inv])
  note d = linvD [OF inv]
  have none: "lcpu (locks s lk) = None" using d(3) p by blast
  have only: "h' = h" if "ph h' = Taken lk \<or> ph h' = Dropping lk" for h'
    using d(2) [of h' lk h] that p by (auto simp: owns_iff)
  show "owns (acquire_end h lk s, ph(h := Out), n) = owns (s, ph, n)"
    using p none by (auto simp: fun_eq_iff owns_iff acquire_end_def)
  show "lcpu (locks (acquire_end h lk s) l) = None"
    if "(ph(h := Out)) h' = Taken l \<or> (ph(h := Out)) h' = Dropping l" for l h'
    using that d(3) only by (auto simp: acquire_end_def split: if_splits)
qed (use linvD(6) [OF inv] p in \<open>auto simp: acquire_end_def\<close>)

lemma linv_drop:
  assumes inv: "linv (s, ph, n)" and p: "ph h = Out" and e: "release_begin h lk s = Inr s'"
  shows "linv (s', ph(h := Dropping lk), n)"
proof (rule linv_same_owners [OF inv])
  note d = linvD [OF inv]
  have s': "s' = set_lock lk (\<lambda>l. l\<lparr>lcpu := None\<rparr>) s" and h: "lcpu (locks s lk) = Some h"
    using e by (auto simp: release_begin_def holding_def split: if_splits)
  show "owns (s', ph(h := Dropping lk), n) = owns (s, ph, n)"
    using p h by (auto simp: fun_eq_iff owns_iff s')
  show "lcpu (locks s' l) = None" if "(ph(h := Dropping lk)) h' = Taken l \<or> (ph(h := Dropping lk)) h' = Dropping l" for l h'
    using that d(3) by (auto simp: s' split: if_splits)
  show "(locked (locks s' l) = 0) = (locked (locks s l) = 0)" for l by (simp add: s')
  show "noff (cpus s' h') = noff (cpus s h') + int (spins ((ph(h := Dropping lk)) h') + n h') - int (spins (ph h') + n h')" for h'
    using p by (simp add: s')
  show "\<not> intr_get (hcsr s' h')" if "noff (cpus s' h') > 0" for h' using that d(6) by (simp add: s')
qed

lemma linv_take:
  assumes inv: "linv (s, ph, n)" and p: "ph h = Spinning lk" and e: "test_and_set lk s = (0, s')"
  shows "linv (s', ph(h := Taken lk), n)"
proof (rule linvI)
  note d = linvD [OF inv]
  let ?ph = "ph(h := Taken lk)"
  have s': "s' = set_lock lk (\<lambda>l. l\<lparr>locked := 1\<rparr>) s" and z: "locked (locks s lk) = 0"
    using e by (auto simp: test_and_set_def)
  have no: "\<not> owns (s, ph, n) h' lk" for h' using d(1) z by blast
  have own: "owns (s', ?ph, n) x l \<longleftrightarrow> (x = h \<and> l = lk) \<or> owns (s, ph, n) x l" for x l
    using p by (auto simp: owns_iff s')
  have none: "lcpu (locks s lk) = None" using no by (cases "lcpu (locks s lk)") (auto simp: owns_iff)
  have lkd: "locked (locks s' l) = (if l = lk then 1 else locked (locks s l))" for l by (simp add: s')
  show "(locked (locks s' l) = 0) = (\<forall>h. \<not> owns (s', ?ph, n) h l)" for l
    using d(1) [of l] by (auto simp: own lkd)
  show "x = y" if "owns (s', ?ph, n) x l" "owns (s', ?ph, n) y l" for l x y
    using that d(2) no by (auto simp: own)
  show "lcpu (locks s' l) = None" if "?ph x = Taken l \<or> ?ph x = Dropping l" for l x
    using that d(3) none by (auto simp: s' split: if_splits)
  have set: "{l. owns (s', ?ph, n) x l} = (if x = h then insert lk {l. owns (s, ph, n) x l} else {l. owns (s, ph, n) x l})" for x
    by (auto simp: own)
  show "finite {l. owns (s', ?ph, n) x l}" for x using d(4) by (simp add: set)
  have "noff (cpus s' x) = noff (cpus s x)" for x by (simp add: s')
  then show "noff (cpus s' x) = int (card {l. owns (s', ?ph, n) x l} + spins (?ph x) + n x)" for x
    using d(5) [of x] d(4) no p by (simp add: set)
  show "\<not> intr_get (hcsr s' x)" if "noff (cpus s' x) > 0" for x using that d(6) by (simp add: s')
qed

lemma linv_free:
  assumes inv: "linv (s, ph, n)" and p: "ph h = Dropping lk" and e: "release_end h lk s = Inr s'"
  shows "linv (s', ph(h := Out), n)"
proof (rule linvI)
  note d = linvD [OF inv]
  let ?ph = "ph(h := Out)" and ?s = "set_lock lk (\<lambda>l. l\<lparr>locked := 0\<rparr>) s"
  note pop = pop_off_cases [OF e [unfolded release_end_def]]
  have none: "lcpu (locks s lk) = None" using d(3) p by blast
  have oh: "owns (s, ph, n) h lk" using p by (simp add: owns_iff)
  have only: "owns (s, ph, n) x lk \<longleftrightarrow> x = h" for x using d(2) oh by blast
  have own: "owns (s', ?ph, n) x l \<longleftrightarrow> owns (s, ph, n) x l \<and> l \<noteq> lk" for x l
    using p none only [of x] pop(1) by (auto simp: owns_iff)
  have lkd: "locked (locks s' l) = (if l = lk then 0 else locked (locks s l))" for l by (simp add: pop(1))
  show "(locked (locks s' l) = 0) = (\<forall>h. \<not> owns (s', ?ph, n) h l)" for l
    using d(1) [of l] by (auto simp: own lkd)
  show "x = y" if "owns (s', ?ph, n) x l" "owns (s', ?ph, n) y l" for l x y
    using that d(2) by (auto simp: own)
  show "lcpu (locks s' l) = None" if "?ph x = Taken l \<or> ?ph x = Dropping l" for l x
    using that d(3) by (auto simp: pop(1) split: if_splits)
  have set: "{l. owns (s', ?ph, n) x l} = (if x = h then {l. owns (s, ph, n) x l} - {lk} else {l. owns (s, ph, n) x l})" for x
    using only by (auto simp: own)
  show "finite {l. owns (s', ?ph, n) x l}" for x using d(4) by (simp add: set)
  have c: "card {l. owns (s, ph, n) h l} = Suc (card ({l. owns (s, ph, n) h l} - {lk}))"
    using oh d(4) by (intro card.remove) auto
  show "noff (cpus s' x) = int (card {l. owns (s', ?ph, n) x l} + spins (?ph x) + n x)" for x
    using d(5) [of x] p c pop(2) [of x] by (simp add: set)
  show "\<not> intr_get (hcsr s' x)" if "noff (cpus s' x) > 0" for x
    using that d(6) [of x] pop(2,5) [of x] by (auto split: if_splits)
qed

lemma linv_push:
  assumes inv: "linv (s, ph, n)"
  shows "linv (push_off h s, ph, n(h := n h + 1))"
proof (rule linv_same_owners [OF inv])
  show "lcpu (locks (push_off h s) l) = None" if "ph h' = Taken l \<or> ph h' = Dropping l" for l h'
    using linvD(3) [OF inv that] by simp
  show "\<not> intr_get (hcsr (push_off h s) h')" if "noff (cpus (push_off h s) h') > 0" for h'
    using that linvD(6) [OF inv, of h'] by (auto split: if_splits)
qed (simp_all add: fun_eq_iff owns_iff)

lemma linv_pop:
  assumes inv: "linv (s, ph, n)" and "n h > 0" and e: "pop_off h s = Inr s'"
  shows "linv (s', ph, n(h := n h - 1))"
proof (rule linv_same_owners [OF inv])
  note pop = pop_off_cases [OF e]
  show "\<not> intr_get (hcsr s' h')" if "noff (cpus s' h') > 0" for h'
    using that linvD(6) [OF inv, of h'] pop(2,5) [of h'] by (auto split: if_splits)
  show "lcpu (locks s' l) = None" if "ph h' = Taken l \<or> ph h' = Dropping l" for l h'
    using linvD(3) [OF inv that] by (simp add: pop(1))
  show "noff (cpus s' h') = noff (cpus s h') + int (spins (ph h') + (n(h := n h - 1)) h') - int (spins (ph h') + n h')" for h'
    using assms(2) pop(2) by simp
qed (simp_all add: fun_eq_iff owns_iff pop_off_cases(1) [OF e])

lemmas linv_steps = linv_enter linv_spin linv_take linv_own linv_drop linv_free linv_push linv_pop

lemma lstep_inv: "lstep c c' \<Longrightarrow> linv c \<Longrightarrow> linv c'"
  by (induction rule: lstep.induct) (blast intro: linv_steps)+

inductive lreach :: "'l config \<Rightarrow> 'l config \<Rightarrow> bool" where
  refl: "lreach c c"
| step: "lreach c c' \<Longrightarrow> lstep c' c'' \<Longrightarrow> lreach c c''"

lemma lreach_inv: "lreach c c' \<Longrightarrow> linv c \<Longrightarrow> linv c'"
  by (induction rule: lreach.induct) (auto intro: lstep_inv)

definition boot_smp :: "'l config" where
  "boot_smp = (\<lparr>cpus = \<lambda>_. \<lparr>noff = 0, intena = False\<rparr>, hcsr = \<lambda>_ _. 0, locks = \<lambda>_. initlock\<rparr>, \<lambda>_. Out, \<lambda>_. 0)"

lemma boot_smp_inv: "linv boot_smp"
  unfolding boot_smp_def by (rule linvI) (simp_all add: owns_iff initlock_def)


text \<open>Hart 0 has taken a lock, and hart 1 spins for it.\<close>

definition two_harts :: "nat config" where
  "two_harts = (set_lock 0 (\<lambda>l. l\<lparr>locked := 1\<rparr>) (push_off 1 (push_off 0 (fst boot_smp))),
     (\<lambda>_. Out)(0 := Spinning 0, 1 := Spinning 0, 0 := Taken 0), \<lambda>_. 0)"

lemma two_harts_reach: "lreach boot_smp two_harts"
proof -
  let ?s = "fst boot_smp :: nat smp"
  have nh: "\<not> holding h 0 x" if "locks x = locks ?s" for h x
    using that by (simp add: holding_def boot_smp_def initlock_def)
  have "lstep (?s, \<lambda>_. Out, \<lambda>_. 0) (push_off 0 ?s, (\<lambda>_. Out)(0 := Spinning 0), \<lambda>_. 0)"
    by (rule lstep.enter) (simp_all add: acquire_enter_def Let_def nh)
  moreover have "lstep (push_off 0 ?s, (\<lambda>_. Out)(0 := Spinning 0), \<lambda>_. 0)
      (push_off 1 (push_off 0 ?s), (\<lambda>_. Out)(0 := Spinning 0, 1 := Spinning 0), \<lambda>_. 0)"
    by (rule lstep.enter) (simp_all add: acquire_enter_def Let_def nh)
  moreover have "lstep (push_off 1 (push_off 0 ?s), (\<lambda>_. Out)(0 := Spinning 0, 1 := Spinning 0), \<lambda>_. 0)
      (set_lock 0 (\<lambda>l. l\<lparr>locked := 1\<rparr>) (push_off 1 (push_off 0 ?s)),
        ((\<lambda>_. Out)(0 := Spinning 0, 1 := Spinning 0))(0 := Taken 0), \<lambda>_. 0)"
    by (rule lstep.take) (simp_all add: test_and_set_def boot_smp_def initlock_def)
  moreover have "boot_smp = (?s, \<lambda>_. Out, \<lambda>_. 0)" by (simp add: boot_smp_def)
  ultimately show ?thesis
    unfolding two_harts_def using lreach.step [OF lreach.step [OF lreach.step [OF lreach.refl]]] by simp
qed


end
