(* ===== verification/Boot.thy ===== *)
theory Boot
  imports Trap Asm Spinlock
begin

text \<open>
  Start-up: \<^verbatim>\<open>kernel/start.c\<close> in machine mode and \<^verbatim>\<open>kernel/main.c\<close>, with \<^verbatim>\<open>kvminit\<close> and \<^verbatim>\<open>kvminithart\<close> of
  \<^verbatim>\<open>kernel/vm.c\<close>. The state adds the timer (the clock, the compare register of each hart), the scratch
  areas for timer interrupts, the privilege mode and the program counter of the hart, and the addresses of
  \<^verbatim>\<open>main\<close>, \<^verbatim>\<open>timervec\<close>, \<^verbatim>\<open>timer_scratch\<close> and \<^verbatim>\<open>etext\<close>.
\<close>

section \<open>Model\<close>

datatype mode = Machine | Supervisor | User

record mach = trapst +
  mtime :: u64
  mtimecmp :: "u64 \<Rightarrow> u64"
  timer_scratch :: "u64 \<Rightarrow> nat \<Rightarrow> u64"
  mode :: mode
  mpc :: u64
  main_addr :: addr
  timervec_addr :: addr
  scratch_addr :: addr
  etext :: addr
  started :: bool

definition CLINT :: addr where [simp]: "CLINT = 0x2000000"
definition CLINT_MTIMECMP :: "u64 \<Rightarrow> addr" where "CLINT_MTIMECMP hartid = CLINT + 0x4000 + 8 * hartid"

text \<open>A hart number, as an \<open>int\<close> read from a 64-bit register.\<close>

definition hart_of :: "u64 \<Rightarrow> u64" where
  "hart_of x = scast (ucast x :: u32)"

definition timerinit :: "'a mach_scheme \<Rightarrow> 'a mach_scheme" where
  "timerinit s =
     (let id = hart_of (r_mhartid (csrs s));
          interval = 1000000;
          s = s\<lparr>mtimecmp := (mtimecmp s)(id := mtime s + interval)\<rparr>;
          s = s\<lparr>timer_scratch := (timer_scratch s)(id := (timer_scratch s id)(3 := CLINT_MTIMECMP id, 4 := interval))\<rparr>;
          s = set_csrs (w_mscratch (scratch_addr s + 40 * id)) s;
          s = set_csrs (w_mtvec (timervec_addr s)) s;
          s = set_csrs (\<lambda>c. w_mstatus (r_mstatus c OR MSTATUS_MIE) c) s
      in set_csrs (\<lambda>c. w_mie (r_mie c OR MIE_MTIE) c) s)"

text \<open>The instruction \<^verbatim>\<open>mret\<close>: the mode in the field \<open>MPP\<close>, and the address in \<^verbatim>\<open>mepc\<close>.\<close>

definition mpp_mode :: "u64 \<Rightarrow> mode" where
  "mpp_mode x =
     (if x AND MSTATUS_MPP_MASK = MSTATUS_MPP_S then Supervisor
      else if x AND MSTATUS_MPP_MASK = 0 then User
      else Machine)"

definition mret :: "'a mach_scheme \<Rightarrow> 'a mach_scheme" where
  "mret s = s\<lparr>mode := mpp_mode (csrs s Mstatus), mpc := csrs s Mepc\<rparr>"

definition start :: "'a mach_scheme \<Rightarrow> 'a mach_scheme" where
  "start s =
     (let x = r_mstatus (csrs s);
          x = x AND NOT MSTATUS_MPP_MASK;
          x = x OR MSTATUS_MPP_S;
          s = set_csrs (w_mstatus x) s;
          s = set_csrs (w_mepc (main_addr s)) s;
          s = set_csrs (w_satp 0) s;
          s = set_csrs (w_medeleg 0xffff) s;
          s = set_csrs (w_mideleg 0xffff) s;
          s = set_csrs (\<lambda>c. w_sie (r_sie c OR SIE_SEIE OR SIE_STIE OR SIE_SSIE) c) s;
          s = set_csrs (w_pmpaddr0 0x3fffffffffffff) s;
          s = set_csrs (w_pmpcfg0 0xf) s;
          s = timerinit s;
          id = hart_of (r_mhartid (csrs s));
          s = set_csrs (w_tp id) s
      in mret s)"

definition kvminit :: "'a mach_scheme \<Rightarrow> 'a mach_scheme res" where
  "kvminit s =
     rbind (kvmmake (etext s) (trampoline s) (phy s)) (\<lambda>(pt, m).
     Inr (s\<lparr>phy := m, kernel_pagetable := pt\<rparr>))"

definition kvminithart :: "'a mach_scheme \<Rightarrow> 'a mach_scheme" where
  "kvminithart s = set_csrs (w_satp (MAKE_SATP (kernel_pagetable s))) s"

text \<open>
  \<^verbatim>\<open>main\<close>, up to its call of \<^verbatim>\<open>scheduler\<close>. A hart other than 0 does not go on before \<^verbatim>\<open>started\<close> is set.
\<close>

definition main :: "'a mach_scheme \<Rightarrow> 'a mach_scheme res" where
  "main s =
     (if cpuid s = 0
      then
        let s = consoleinit s in
        rbind (printf [10, 0] [] s) (\<lambda>s.
        rbind (printf (bytes ''xv6 kernel is booting'' @ [10, 0]) [] s) (\<lambda>s.
        rbind (printf [10, 0] [] s) (\<lambda>s.
        rbind (kinit (phy s)) (\<lambda>m.
        rbind (kvminit (s\<lparr>phy := m\<rparr>)) (\<lambda>s.
        let s = kvminithart s;
            s = procinit s;
            s = trapinithart s;
            s = plicinit s;
            s = plicinithart s;
            s = binit s;
            s = iinit s
        in
        rbind (virtio_disk_init (disk_reg s) (vd s) s) (\<lambda>(d, s).
        rbind (userinit (s\<lparr>vd := d\<rparr>)) (\<lambda>s.
        Inr (s\<lparr>started := True\<rparr>))))))))
      else if \<not> started s then Inl Diverges
      else
        rbind (printf (bytes ''hart %d starting'' @ [10, 0]) [AInt (ucast (cpuid s))] s) (\<lambda>s.
        Inr (plicinithart (trapinithart (kvminithart s)))))"

section \<open>Entering the kernel\<close>

lemma clear_or_mask: "((x AND NOT m) OR c) AND m = c AND (m :: u64)"
  by (intro bit_word_eqI) (auto simp: bit_simps)

lemma mpp_supervisor: "mpp_mode ((x AND NOT MSTATUS_MPP_MASK) OR MSTATUS_MPP_S OR MSTATUS_MIE) = Supervisor"
proof -
  have "((x AND NOT MSTATUS_MPP_MASK) OR MSTATUS_MPP_S OR MSTATUS_MIE) AND MSTATUS_MPP_MASK
      = (MSTATUS_MPP_S OR MSTATUS_MIE) AND MSTATUS_MPP_MASK"
    unfolding or.assoc by (rule clear_or_mask)
  also have "\<dots> = MSTATUS_MPP_S" by simp
  finally show ?thesis unfolding mpp_mode_def by (simp only: if_True simp_thms)
qed

lemma hart_of_small: "unat x < 2 ^ 31 \<Longrightarrow> hart_of x = x"
proof -
  assume a: "unat x < 2 ^ 31"
  have "uint x < 2 ^ 31" using a by (metis of_nat_less_iff of_nat_numeral of_nat_power uint_nat)
  then have "signed_take_bit 31 (uint x) = uint x"
    by (intro signed_take_bit_int_eq_self order_trans [OF _ uint_ge_0]) simp_all
  then have "sint (ucast x :: u32) = uint x" by (simp add: signed_ucast_eq)
  then show ?thesis by (simp add: hart_of_def scast_eq)
qed

text \<open>
  C26: \<^verbatim>\<open>start\<close> enters \<^verbatim>\<open>main\<close> in supervisor mode. Whatever the machine status was, the hart runs \<^verbatim>\<open>main\<close> in supervisor
  mode with paging off, exceptions and interrupts delegated, external, timer and software interrupts
  enabled, its own number in \<^verbatim>\<open>tp\<close>, and the timer of this hart, and of no other, set one interval ahead with
  its scratch area prepared for \<^verbatim>\<open>timervec\<close>.
\<close>

theorem start_enters_main:
  assumes "unat (csrs s Mhartid) < NCPU"
  shows "let id = csrs s Mhartid; s' = start s; c = csrs s' in
    mode s' = Supervisor \<and> mpc s' = main_addr s
    \<and> c Satp = 0 \<and> c Medeleg = 0xffff \<and> c Mideleg = 0xffff
    \<and> c Sie = csrs s Sie OR SIE_SEIE OR SIE_STIE OR SIE_SSIE
    \<and> c Mtvec = timervec_addr s \<and> cpuid s' = id
    \<and> mtimecmp s' = (mtimecmp s)(id := mtime s + 1000000)
    \<and> timer_scratch s' id 3 = CLINT_MTIMECMP id \<and> timer_scratch s' id 4 = 1000000
    \<and> c Mscratch = scratch_addr s + 40 * id
    \<and> (\<forall>h. h \<noteq> id \<longrightarrow> timer_scratch s' h = timer_scratch s h)"
proof -
  have h: "hart_of (csrs s Mhartid) = csrs s Mhartid" using assms by (intro hart_of_small) simp
  show ?thesis
    using mpp_supervisor [of "csrs s Mstatus"] h
    by (simp add: start_def timerinit_def mret_def Let_def set_csrs_def cpuid_def or.assoc flip: hart_of_def)
qed

text \<open>A hart as it comes out of \<^verbatim>\<open>_entry\<close>.\<close>

definition reset_vdisk :: vdisk where
  "reset_vdisk = \<lparr>desc = \<lambda>_. zero_desc, avail_idx = 0, avail_ring = \<lambda>_. 0, dev_used_idx = 0, used_ring = \<lambda>_. 0,
     vfree = \<lambda>_. False, used_idx = 0, info_b = \<lambda>_. None, info_status = \<lambda>_. 0,
     ops = \<lambda>_. \<lparr>req_type = 0, req_reserved = 0, req_sector = 0\<rparr>, vregs = []\<rparr>"

definition reset_mach :: "u64 \<Rightarrow> mach" where
  "reset_mach hart = trapst.extend (filst.extend boot_fil
     (trapst.fields ((\<lambda>_. 0)(Mhartid := hart)) True reset_vdisk (\<lambda>_ _. 0) [] (\<lambda>_. 0) 0 0x80007000 0x80007080 0x80005000 0x80002000))
     (mach.fields 0 (\<lambda>_. 0) (\<lambda>_ _. 0) Machine 0x80000000 0x80001000 0x80005100 0x80008000 0x80008000 False)"

theorem start_enters_main_witness:
  "mode (start (reset_mach 2)) = Supervisor \<and> mpc (start (reset_mach 2)) = 0x80001000 \<and> cpuid (start (reset_mach 2)) = 2
    \<and> mtimecmp (start (reset_mach 2)) 2 = 1000000"
proof -
  have r: "csrs (reset_mach 2) Mhartid = 2" "main_addr (reset_mach 2) = 0x80001000" "mtime (reset_mach 2) = 0"
    by (simp_all add: reset_mach_def trapst.defs filst.defs mach.defs)
  show ?thesis using start_enters_main [of "reset_mach 2"] by (simp add: r Let_def)
qed

end
