(* ===== verification/FsAlloc.thy ===== *)
theory FsAlloc
  imports Fs
begin

text \<open>
  The block allocator of \<^verbatim>\<open>kernel/fs.c\<close>, seen through the buffer cache and the log: what
  \<^verbatim>\<open>balloc\<close> and \<^verbatim>\<open>bfree\<close> do to the contents of blocks inside a transaction. The
  lemmas use the laws of the log (\<open>txs_bread\<close>, \<open>txs_log_write\<close>, \<open>txs_brelse\<close>) and
  never look into the cache.
\<close>

section \<open>Blocks inside a transaction\<close>

text \<open>Nothing changed but the buffers, the log header in memory, the inode table and the console output.\<close>

definition fchg :: "'a fss_scheme \<Rightarrow> 'a fss_scheme \<Rightarrow> bool" where
  "fchg s s' \<longleftrightarrow> (\<exists>P K B h T. wakes (procs s) P
     \<and> s' = s\<lparr>procs := P, kout := K, bufs := B, lg := (lg s)\<lparr>lg_lh := h\<rparr>, itable := T\<rparr>)"

lemma fchg_trans: "fchg s t \<Longrightarrow> fchg t u \<Longrightarrow> fchg s u"
proof -
  assume "fchg s t" "fchg t u"
  then obtain P K B h T P' K' B' h' T' where
    "wakes (procs s) P" "t = s\<lparr>procs := P, kout := K, bufs := B, lg := (lg s)\<lparr>lg_lh := h\<rparr>, itable := T\<rparr>"
    "wakes (procs t) P'" "u = t\<lparr>procs := P', kout := K', bufs := B', lg := (lg t)\<lparr>lg_lh := h'\<rparr>, itable := T'\<rparr>"
    unfolding fchg_def by blast
  then have "wakes (procs s) P'"
    "u = s\<lparr>procs := P', kout := K', bufs := B', lg := (lg s)\<lparr>lg_lh := h'\<rparr>, itable := T'\<rparr>"
    using wakes_trans by auto
  then show ?thesis unfolding fchg_def by blast
qed

lemma tchg_fchg:
  assumes "tchg s s'"
  shows "fchg s s'" and "itable s' = itable s"
proof -
  obtain P B h where "wakes (procs s) P" "s' = s\<lparr>procs := P, bufs := B, lg := (lg s)\<lparr>lg_lh := h\<rparr>\<rparr>"
    using assms unfolding tchg_def by blast
  then have "wakes (procs s) P \<and> s' = s\<lparr>procs := P, kout := kout s, bufs := B, lg := (lg s)\<lparr>lg_lh := h\<rparr>, itable := itable s\<rparr>"
    by simp
  then show "fchg s s'" "itable s' = itable s" unfolding fchg_def by (blast, simp)
qed

lemma fchg_refl [simp]: "fchg s s"
  by (rule tchg_fchg) simp

lemma fchg_upd_inode: "fchg s (upd_inode ip f s)"
proof -
  have "wakes (procs s) (procs s) \<and> upd_inode ip f s = s\<lparr>procs := procs s, kout := kout s, bufs := bufs s,
    lg := (lg s)\<lparr>lg_lh := lg_lh (lg s)\<rparr>, itable := (itable s)(ip := f (itable s ip))\<rparr>"
    by (simp add: upd_inode_def)
  then show ?thesis unfolding fchg_def by blast
qed

lemma fchg_kputs: "fchg s (kputs bs s)"
proof -
  have "wakes (procs s) (procs s) \<and> kputs bs s = s\<lparr>procs := procs s, kout := rev bs @ kout s, bufs := bufs s,
    lg := (lg s)\<lparr>lg_lh := lg_lh (lg s)\<rparr>, itable := itable s\<rparr>"
    by (simp add: kputs_kout)
  then show ?thesis unfolding fchg_def by blast
qed

lemma fchgD:
  assumes "fchg s s'"
  shows "sb s' = sb s" and "dimg s' = dimg s" and "dhist s' = dhist s" and "phy s' = phy s" and "cur s' = cur s"
    and "lg_size (lg s') = lg_size (lg s)" and "lg_start (lg s') = lg_start (lg s)"
    and "log_blocks (lg s') = log_blocks (lg s)" and "lg_outstanding (lg s') = lg_outstanding (lg s)"
    and "wakes (procs s) (procs s')" and "curpid s' = curpid s" and "pagetable (myproc s') = pagetable (myproc s)"
  using assms by (auto simp: fchg_def log_blocks_def curpid_def myproc_def wakesD)

text \<open>The abstraction ignores the fields that the file system adds.\<close>

lemma abs_cong:
  assumes "bufs s' = bufs s" and "dimg s' = dimg s" and "curpid s' = curpid s" and "lg s' = lg s"
  shows "con s' = con s" and "handle s' = handle s" and "txs s' ds L = txs s ds L"
proof -
  have h: "holds s' = holds s" using assms by (simp add: holds_def fun_eq_iff)
  show c: "con s' = con s" "handle s' = handle s" 
    unfolding con_def handle_def h assms(1-3) by simp_all
  have "rc s' = rc s" "lk s' = lk s" "bio_inv s' = bio_inv s"
    unfolding rc_def lk_def bio_inv_def h assms(1,2) by simp_all
  then show "txs s' ds L = txs s ds L" using assms by (simp add: txs_def pins_def)
qed

lemma upd_inode_simps [simp]:
  "bufs (upd_inode ip f s) = bufs s" "lg (upd_inode ip f s) = lg s" "sb (upd_inode ip f s) = sb s"
  "itable (upd_inode ip f s) = (itable s)(ip := f (itable s ip))" "dimg (upd_inode ip f s) = dimg s"
  "curpid (upd_inode ip f s) = curpid s"
  by (simp_all add: upd_inode_def curpid_def myproc_def)

lemma abs_upd_inode [simp]:
  "txs (upd_inode ip f s) ds L = txs s ds L" "con (upd_inode ip f s) = con s" "handle (upd_inode ip f s) = handle s"
  by (rule abs_cong; simp)+

lemma kputs_simps [simp]:
  "itable (kputs bs s) = itable s" "lg (kputs bs s) = lg s" "sb (kputs bs s) = sb s" "bufs (kputs bs s) = bufs s"
  by (simp_all add: kputs_kout)

lemma abs_kputs [simp]:
  "txs (kputs bs s) ds L = txs s ds L" "con (kputs bs s) = con s" "handle (kputs bs s) = handle s"
  by (rule abs_cong; simp add: kputs_kout)+

lemma txs_lk: "txs s ds L \<Longrightarrow> handle s i b \<Longrightarrow> b \<in> L"
  using handle_lk [of s i b] by (auto simp: txs_def pins_def)

lemma txs_len: "txs s ds L \<Longrightarrow> length (con s b) = BSIZE"
  using length_con by (auto simp: txs_def pins_def)

lemma txs_handle_data: "txs s ds L \<Longrightarrow> handle s i b \<Longrightarrow> bdata (bufs s i) = con s b"
  by (rule con_holds(1) [symmetric]) (simp_all add: txs_def pins_def handle_def)

lemma txs_finite: "txs s ds L \<Longrightarrow> finite L"
  using pins_finite by (auto simp: txs_def)

text \<open>A block is read, and released again.\<close>

lemma txs_read:
  assumes t: "txs s ds L" and b: "b \<notin> L" and c: "length ds + card L < 30"
  shows "\<exists>i s' s''. bread ROOTDEV b s = Inr (i, s') \<and> brelse i s' = Inr s'' \<and> bdata (bufs s' i) = con s b
    \<and> txs s' ds (insert b L) \<and> handle s' i b \<and> con s' = con s \<and> bchg s s' \<and> (\<forall>j c. handle s j c \<longrightarrow> handle s' j c)
    \<and> txs s'' ds L \<and> con s'' = con s \<and> bchg s s'' \<and> (\<forall>j c. handle s j c \<longrightarrow> handle s'' j c)"
proof -
  obtain i s' where 1: "bread ROOTDEV b s = Inr (i, s')" "txs s' ds (insert b L)" "bchg s s'" "con s' = con s"
    "handle s' i b" "bdata (bufs s' i) = con s b" "\<forall>j c. handle s j c \<longrightarrow> handle s' j c"
    using txs_bread [OF t b] c by auto
  have "b \<in> set ds \<or> con s' b = dimg s' b"
    using pins_con [of s "set ds" L b] t b 1(4) bchgD(1) [OF 1(3)] by (auto simp: txs_def)
  from txs_brelse [OF 1(2,5) this] obtain s'' where 2: "brelse i s' = Inr s''" "txs s'' ds (insert b L - {b})"
    "bchg s' s''" "con s'' = con s'" "\<forall>j c. c \<noteq> b \<longrightarrow> handle s'' j c = handle s' j c" by blast
  have "insert b L - {b} = L" using b by auto
  moreover have "handle s'' j c" if "handle s j c" for j c
    using that 1(7) 2(5) txs_lk [OF t that] b by metis
  ultimately show ?thesis using 1 2 bchg_trans [OF 1(3) 2(3)] by auto
qed

text \<open>A block whose buffer is held is changed, logged, and released.\<close>

lemma txs_held_update:
  assumes t: "txs s ds (insert b L)" and h: "handle s i b" and bL: "b \<notin> L" and b: "b \<notin> log_blocks (lg s)"
    and d: "length d = BSIZE" and n: "int (length ds) < lg_size (lg s) - 1"
  shows "\<exists>s' s''. log_write i (set_data i d s) = Inr s' \<and> brelse i s' = Inr s'' \<and> txs s'' (logged b ds) L
    \<and> tchg s s'' \<and> con s'' = (con s)(b := d) \<and> (\<forall>j c. c \<noteq> b \<longrightarrow> handle s j c \<longrightarrow> handle s'' j c)"
proof -
  note 2 = txs_set_data [OF t h d]
  obtain s3 where 3: "log_write i (set_data i d s) = Inr s3" "txs s3 (logged b ds) (insert b L)"
    "tchg (set_data i d s) s3" "con s3 = con (set_data i d s)" "handle s3 = handle s"
    using txs_log_write [OF 2(1), of i b] h 2(3) b n by (auto simp: bchg_lg [OF 2(4)])
  obtain s4 where 4: "brelse i s3 = Inr s4" "txs s4 (logged b ds) (insert b L - {b})" "bchg s3 s4" "con s4 = con s3"
    "\<forall>j c. c \<noteq> b \<longrightarrow> handle s4 j c = handle s3 j c"
    using txs_brelse [OF 3(2), of i b] 3(5) h by auto
  have "tchg s s4" using tchg_trans bchg_tchg [OF 2(4)] 3(3) bchg_tchg [OF 4(3)] by blast
  moreover have "insert b L - {b} = L" using bL by auto
  ultimately show ?thesis using 2 3 4 by auto
qed

text \<open>A block is read, changed, logged and released.\<close>

lemma txs_update:
  assumes t: "txs s ds L" and bL: "b \<notin> L" and b: "b \<notin> log_blocks (lg s)"
    and f: "length (f (con s b)) = BSIZE" and n: "int (length ds) < lg_size (lg s) - 1" and c: "length ds + card L < 30"
  shows "\<exists>i s1 s2 s'. bread ROOTDEV b s = Inr (i, s1) \<and> bdata (bufs s1 i) = con s b
    \<and> log_write i (set_data i (f (con s b)) s1) = Inr s2 \<and> brelse i s2 = Inr s'
    \<and> txs s' (logged b ds) L \<and> tchg s s' \<and> con s' = (con s)(b := f (con s b)) \<and> (\<forall>j c. handle s j c \<longrightarrow> handle s' j c)
    \<and> bchg s s1"
proof -
  obtain i s1 where 1: "bread ROOTDEV b s = Inr (i, s1)" "txs s1 ds (insert b L)" "bchg s s1" "con s1 = con s"
    "handle s1 i b" "bdata (bufs s1 i) = con s b" "\<forall>j c. handle s j c \<longrightarrow> handle s1 j c"
    using txs_bread [OF t bL] c by auto
  have "b \<notin> log_blocks (lg s1)" "int (length ds) < lg_size (lg s1) - 1"
    using b n by (simp_all add: bchg_lg [OF 1(3)])
  from txs_held_update [OF 1(2,5) bL this(1) f this(2)] obtain s2 s' where
    2: "log_write i (set_data i (f (con s b)) s1) = Inr s2" "brelse i s2 = Inr s'" "txs s' (logged b ds) L"
      "tchg s1 s'" "con s' = (con s1)(b := f (con s b))" "\<forall>j c. c \<noteq> b \<longrightarrow> handle s1 j c \<longrightarrow> handle s' j c"
    by blast
  have "handle s' j c" if "handle s j c" for j c using that 1(7) 2(6) txs_lk [OF t that] bL by metis
  then show ?thesis using 1 2 tchg_trans [OF bchg_tchg [OF 1(3)] 2(4)] by auto
qed

section \<open>The bitmap\<close>

text \<open>Bit \<open>k\<close> of a bitmap block.\<close>

definition bmbit :: "byte list \<Rightarrow> nat \<Rightarrow> bool" where
  "bmbit d k = bit (d ! (k div 8)) (k mod 8)"

lemma bmbit_code: "d ! (k div 8) AND 2 ^ (k mod 8) = 0 \<longleftrightarrow> \<not> bmbit d k"
  by (simp add: bmbit_def and_exp_eq_0_iff_not_bit)

lemma div_mod_8_eq: "(j :: nat) div 8 = k div 8 \<Longrightarrow> j mod 8 = k mod 8 \<Longrightarrow> j = k"
  by (metis div_mult_mod_eq)

lemma bmbit_set: "k div 8 < length d \<Longrightarrow> bmbit (set_bit_byte k d) j \<longleftrightarrow> j = k \<or> bmbit d j"
  using div_mod_8_eq [of j k]
  by (cases "j div 8 = k div 8") (auto simp: bmbit_def set_bit_byte_def bit_simps)

lemma bmbit_clear: "k div 8 < length d \<Longrightarrow> bmbit (clear_bit_byte k d) j \<longleftrightarrow> j \<noteq> k \<and> bmbit d j"
  using div_mod_8_eq [of j k]
  by (cases "j div 8 = k div 8") (auto simp: bmbit_def clear_bit_byte_def bit_simps)

lemma length_bit_byte [simp]: "length (set_bit_byte k d) = length d" "length (clear_bit_byte k d) = length d"
  by (simp_all add: set_bit_byte_def clear_bit_byte_def)

lemma clear_set_bit: "k div 8 < length d \<Longrightarrow> \<not> bmbit d k \<Longrightarrow> clear_bit_byte k (set_bit_byte k d) = d"
proof -
  assume k: "k div 8 < length d" "\<not> bmbit d k"
  have "(d ! (k div 8) OR push_bit (k mod 8) 1) AND NOT (push_bit (k mod 8) 1) = d ! (k div 8)"
    using k(2) by (intro bit_word_eqI) (auto simp: bmbit_def bit_simps)
  then show ?thesis using k(1) by (simp add: clear_bit_byte_def set_bit_byte_def)
qed

lemma balloc_scan_Some:
  "balloc_scan bi b lim d = Some k \<Longrightarrow>
   bi \<le> k \<and> k < BPB \<and> b + k < lim \<and> \<not> bmbit d k \<and> (\<forall>j. bi \<le> j \<and> j < k \<longrightarrow> bmbit d j)"
proof (induction bi b lim d rule: balloc_scan.induct)
  case (1 bi b lim d)
  show ?case
  proof (cases "bmbit d bi")
    case True
    then have "Suc bi \<le> k \<and> k < BPB \<and> b + k < lim \<and> \<not> bmbit d k \<and> (\<forall>j. Suc bi \<le> j \<and> j < k \<longrightarrow> bmbit d j)"
      using 1 by (simp add: balloc_scan.simps [of bi] bmbit_code split: if_splits)
    then show ?thesis using True by (metis Suc_leI le_SucI le_neq_implies_less Suc_leD)
  next
    case False
    then show ?thesis using 1(2) by (auto simp: balloc_scan.simps [of bi] bmbit_code split: if_splits)
  qed
qed

lemma balloc_scan_None:
  "balloc_scan bi b lim d = None \<Longrightarrow> bi \<le> j \<Longrightarrow> j < BPB \<Longrightarrow> b + j < lim \<Longrightarrow> bmbit d j"
proof (induction bi b lim d rule: balloc_scan.induct)
  case (1 bi b lim d)
  then have "bi < BPB \<and> b + bi < lim" by simp
  then have s: "bmbit d bi" "balloc_scan (Suc bi) b lim d = None"
    using 1(2) by (simp_all add: balloc_scan.simps [of bi] bmbit_code split: if_splits)
  then show ?case using 1 \<open>bi < BPB \<and> b + bi < lim\<close> by (cases "j = bi") (simp_all add: bmbit_code)
qed

section \<open>The allocator\<close>

text \<open>The order of the regions on the disk as \<^verbatim>\<open>mkfs\<close> lays them out, with a bitmap of one block.\<close>

definition sb_ok :: "superblock \<Rightarrow> bool" where
  "sb_ok x \<longleftrightarrow> unat (logstart x) + unat (nlog x) \<le> unat (inodestart x)
     \<and> unat (inodestart x) + unat (ninodes x) div IPB < unat (bmapstart x)
     \<and> unat (bmapstart x) < unat (sb_size x) \<and> unat (sb_size x) \<le> BPB"

definition geom :: "'a fss_scheme \<Rightarrow> bool" where
  "geom s \<longleftrightarrow> sb_ok (sb s) \<and> lg_start (lg s) = logstart (sb s) \<and> lg_size (lg s) = uint (nlog (sb s))"

lemma above_log:
  assumes g: "geom s" and b: "unat (inodestart (sb s)) \<le> unat b"
  shows "b \<notin> log_blocks (lg s)"
proof
  assume "b \<in> log_blocks (lg s)"
  then obtain i where i: "i < nat (lg_size (lg s))" "b = lg_start (lg s) + of_nat i" by (auto simp: log_blocks_def)
  then have n: "i < unat (nlog (sb s))" using g by (simp add: geom_def)
  have "unat (logstart (sb s)) + i < 2 ^ 32"
    using n g u32_bound [of "inodestart (sb s)"] by (simp add: geom_def sb_ok_def)
  moreover have "i < 2 ^ 32" using n u32_bound [of "nlog (sb s)"] by simp
  ultimately have "unat b = unat (logstart (sb s)) + i"
    using i(2) g unat_of_nat_id [of i, where 'a = 32] by (simp add: geom_def unat_word_ariths)
  then show False using n b g by (simp add: geom_def sb_ok_def)
qed

lemma geom_fchg: "fchg s s' \<Longrightarrow> geom s' = geom s"
  by (simp add: geom_def fchgD)

definition bmblock :: "'a fss_scheme \<Rightarrow> u32" where
  "bmblock s = bmapstart (sb s)"

lemma bmblock_fchg: "fchg s s' \<Longrightarrow> bmblock s' = bmblock s"
  by (simp add: bmblock_def fchgD)

lemma BBLOCK_bmblock: "unat b < BPB \<Longrightarrow> BBLOCK b (sb s) = bmblock s"
proof -
  assume "unat b < BPB"
  then have "b div 8192 = 0" by (simp add: word_arith_nat_div)
  then show ?thesis by (simp add: BBLOCK_def bmblock_def)
qed

definition used :: "'a fss_scheme \<Rightarrow> u32 \<Rightarrow> bool" where
  "used s b = bmbit (con s (bmblock s)) (unat b)"

text \<open>The blocks before the data blocks are marked as used.\<close>

definition meta_used :: "'a fss_scheme \<Rightarrow> bool" where
  "meta_used s \<longleftrightarrow> (\<forall>b. unat b \<le> unat (bmblock s) \<longrightarrow> used s b)"

text \<open>A step on blocks: the inode table is kept, and so are the buffers that the caller holds.\<close>

definition bstep :: "'a fss_scheme \<Rightarrow> u32 list \<Rightarrow> u32 set \<Rightarrow> 'a fss_scheme \<Rightarrow> bool" where
  "bstep s ds' L s' \<longleftrightarrow> txs s' ds' L \<and> fchg s s' \<and> itable s' = itable s \<and> (\<forall>j c. handle s j c \<longrightarrow> handle s' j c)"

lemma bstepI: "txs s' ds' L \<Longrightarrow> tchg s s' \<Longrightarrow> (\<And>j c. handle s j c \<Longrightarrow> handle s' j c) \<Longrightarrow> bstep s ds' L s'"
  by (simp add: bstep_def tchg_fchg)

lemma bstep_trans: "bstep s ds L s' \<Longrightarrow> bstep s' ds' L' s'' \<Longrightarrow> bstep s ds' L' s''"
  using fchg_trans by (auto simp: bstep_def)

lemma bzero_zeroes:
  assumes "txs s ds L" and "b \<notin> L" and "b \<notin> log_blocks (lg s)" and "int (length ds) < lg_size (lg s) - 1"
    and "length ds + card L < 30"
  shows "\<exists>s'. bzero ROOTDEV b s = Inr s' \<and> bstep s (logged b ds) L s' \<and> con s' = (con s)(b := replicate BSIZE 0)"
  using txs_update [OF assms(1-3), of "\<lambda>_. replicate BSIZE 0"] assms(4,5)
  by (auto simp: bzero_def intro!: bstepI)

lemma length_logged: "length ds \<le> length (logged b ds)" "length (logged b ds) \<le> Suc (length ds)"
  by (simp_all add: logged_def)

lemma txs_room: "txs s ds L \<Longrightarrow> int n < lg_size (lg s) - 1 \<Longrightarrow> n < 29"
  by (simp add: txs_def log_wf_def)

text \<open>
  \<^verbatim>\<open>balloc\<close> gives the first block that is not in use, zeroed and marked as used; when every block is
  in use it returns 0 and changes nothing.
\<close>

definition balloc_new :: "'a fss_scheme \<Rightarrow> u32 list \<Rightarrow> u32 set \<Rightarrow> u32 \<Rightarrow> 'a fss_scheme \<Rightarrow> bool" where
  "balloc_new s ds L b s' \<longleftrightarrow> unat (bmblock s) < unat b \<and> unat b < unat (sb_size (sb s)) \<and> \<not> used s b
     \<and> (\<forall>c. unat c < unat b \<longrightarrow> used s c)
     \<and> con s' = (con s)(bmblock s := set_bit_byte (unat b) (con s (bmblock s)), b := replicate BSIZE 0)
     \<and> bstep s (logged b (logged (bmblock s) ds)) L s'"

definition balloc_full :: "'a fss_scheme \<Rightarrow> u32 list \<Rightarrow> u32 set \<Rightarrow> 'a fss_scheme \<Rightarrow> bool" where
  "balloc_full s ds L s' \<longleftrightarrow> (\<forall>c. unat c < unat (sb_size (sb s)) \<longrightarrow> used s c) \<and> con s' = con s \<and> bstep s ds L s'"

lemma balloc_cases:
  assumes t: "txs s ds L" and g: "geom s" and m: "meta_used s" and bL: "bmblock s \<notin> L"
    and L: "\<And>b. b \<in> L \<Longrightarrow> used s b" "card L \<le> 1"
    and n: "int (length (logged (bmblock s) ds)) < lg_size (lg s) - 1"
  shows "\<exists>b s'. balloc ROOTDEV s = Inr (b, s') \<and> (balloc_new s ds L b s' \<or> b = 0 \<and> balloc_full s ds L s')"
proof -
  let ?bm = "bmblock s" and ?lim = "unat (sb_size (sb s))"
  let ?d = "con s ?bm"
  have lim: "?lim \<le> BPB" "0 < ?lim" "unat ?bm < ?lim" using g by (auto simp: geom_def sb_ok_def bmblock_def)
  have bm: "BBLOCK 0 (sb s) = ?bm" by (rule BBLOCK_bmblock) simp
  have ld: "length ?d = BSIZE" by (rule txs_len [OF t])
  have n0: "int (length ds) < lg_size (lg s) - 1" using n length_logged(1) [of ds ?bm] by linarith
  have c: "length ds + card L < 30" "length (logged ?bm ds) + card L < 30"
    using txs_room [OF t n0] txs_room [OF t n] L(2) by simp_all
  show ?thesis
  proof (cases "balloc_scan 0 0 ?lim ?d")
    case None
    have full: "used s b" if "unat b < ?lim" for b
      using balloc_scan_None [OF None, of "unat b"] that lim(1) by (simp add: used_def)
    obtain i s1 s2 where r: "bread ROOTDEV ?bm s = Inr (i, s1)" "brelse i s1 = Inr s2" "bdata (bufs s1 i) = ?d"
      "txs s2 ds L" "con s2 = con s" "bchg s s2" "\<forall>j c. handle s j c \<longrightarrow> handle s2 j c"
      using txs_read [OF t bL c(1)] by auto
    have "balloc ROOTDEV s = Inr (0, kputs (bytes (''balloc: out of blocks'' @ [CHR 0x0A])) s2)"
      using lim(1,2) r(1-3) None bm
      by (simp add: balloc_def balloc_loop.simps [of _ 0] balloc_loop.simps [of _ 8192] del: ROOTDEV_def)
    moreover have "bstep s ds L (kputs (bytes (''balloc: out of blocks'' @ [CHR 0x0A])) s2)"
      using r(4,6,7) fchg_trans [OF tchg_fchg(1) [OF bchg_tchg [OF r(6)]] fchg_kputs] tchg_fchg(2) [OF bchg_tchg [OF r(6)]]
      by (simp add: bstep_def)
    ultimately show ?thesis using full r(5) by (auto simp: balloc_full_def)
  next
    case (Some k)
    note k = balloc_scan_Some [OF Some]
    let ?b = "of_nat k :: u32"
    have ub: "unat ?b = k" using k lim(1) by (intro unat_of_nat_id) simp
    have free: "\<not> used s ?b" using k ub by (simp add: used_def)
    have above: "unat ?bm < unat ?b" using free m by (auto simp: meta_used_def not_le [symmetric])
    have first: "used s c" if "unat c < unat ?b" for c using k that ub by (simp add: used_def)
    have io: "unat (inodestart (sb s)) \<le> unat ?bm" using g by (simp add: geom_def sb_ok_def bmblock_def)
    note out = above_log [OF g, of ?bm] above_log [OF g, of ?b]
    obtain i s1 s2 s3 where r: "bread ROOTDEV ?bm s = Inr (i, s1)" "bdata (bufs s1 i) = ?d"
      "log_write i (set_data i (set_bit_byte k ?d) s1) = Inr s2" "brelse i s2 = Inr s3"
      "txs s3 (logged ?bm ds) L" "tchg s s3" "con s3 = (con s)(?bm := set_bit_byte k ?d)"
      "\<forall>j c. handle s j c \<longrightarrow> handle s3 j c"
      using txs_update [OF t bL, of "set_bit_byte k"] out(1) io n0 c(1) ld by auto
    have z: "?b \<notin> L" "?b \<notin> log_blocks (lg s3)" "int (length (logged ?bm ds)) < lg_size (lg s3) - 1"
      using free L(1) out(2) io above n tchgD [OF r(6)] by auto
    obtain s4 where s4: "bzero ROOTDEV ?b s3 = Inr s4" "bstep s3 (logged ?b (logged ?bm ds)) L s4"
      "con s4 = (con s3)(?b := replicate BSIZE 0)"
      using bzero_zeroes [OF r(5) z c(2)] by blast
    have "balloc ROOTDEV s = Inr (?b, s4)"
      using lim(2) r(1-4) Some s4(1) bm by (simp add: balloc_def balloc_loop.simps [of _ 0] del: ROOTDEV_def)
    moreover have "bstep s (logged ?b (logged ?bm ds)) L s4"
      using bstep_trans [OF bstepI [OF r(5,6)] s4(2)] r(8) by blast
    ultimately show ?thesis using free first above r(7) s4(3) k ub by (auto simp: balloc_new_def)
  qed
qed

lemma bfree_frees:
  assumes t: "txs s ds L" and g: "geom s" and bL: "bmblock s \<notin> L" and L: "card L \<le> 1"
    and b: "unat b < BPB" and n: "int (length ds) < lg_size (lg s) - 1"
  shows "used s b \<Longrightarrow> \<exists>s'. bfree ROOTDEV b s = Inr s' \<and> bstep s (logged (bmblock s) ds) L s'
      \<and> con s' = (con s)(bmblock s := clear_bit_byte (unat b) (con s (bmblock s)))"
    and "\<not> used s b \<Longrightarrow> bfree ROOTDEV b s = Inl (Panic ''freeing free block'')"
proof -
  let ?bm = "bmblock s"
  let ?d = "con s ?bm"
  have out: "?bm \<notin> log_blocks (lg s)" using above_log [OF g, of ?bm] g by (simp add: geom_def sb_ok_def bmblock_def)
  have ld: "length ?d = BSIZE" by (rule txs_len [OF t])
  have c: "length ds + card L < 30" using txs_room [OF t n] L by simp
  have k: "unat b mod BPB = unat b" using b by simp
  obtain i s1 s2 s3 where r: "bread ROOTDEV ?bm s = Inr (i, s1)" "bdata (bufs s1 i) = ?d"
    "log_write i (set_data i (clear_bit_byte (unat b) ?d) s1) = Inr s2" "brelse i s2 = Inr s3"
    "txs s3 (logged ?bm ds) L" "tchg s s3" "con s3 = (con s)(?bm := clear_bit_byte (unat b) ?d)"
    "\<forall>j c. handle s j c \<longrightarrow> handle s3 j c"
    using txs_update [OF t bL, of "clear_bit_byte (unat b)"] out n c ld by auto
  have e: "bfree ROOTDEV b s = (if used s b then Inr s3 else Inl (Panic ''freeing free block''))"
    using r(1-4) BBLOCK_bmblock [OF b, of s] k by (simp add: bfree_def Let_def bmbit_code used_def del: ROOTDEV_def BPB_def)
  show "used s b \<Longrightarrow> \<exists>s'. bfree ROOTDEV b s = Inr s' \<and> bstep s (logged ?bm ds) L s'
      \<and> con s' = (con s)(?bm := clear_bit_byte (unat b) ?d)"
    using e r(5,7,8) bstepI [OF r(5,6)] by auto
  show "\<not> used s b \<Longrightarrow> bfree ROOTDEV b s = Inl (Panic ''freeing free block'')" using e by simp
qed

end
