(* ===== verification/FsData.thy ===== *)
theory FsData
  imports FsAlloc
begin

text \<open>
  The contents of files: \<^verbatim>\<open>bmap\<close>, \<^verbatim>\<open>readi\<close>, \<^verbatim>\<open>writei\<close> and \<^verbatim>\<open>iupdate\<close> of
  \<^verbatim>\<open>kernel/fs.c\<close>. The first part works on the contents of blocks alone: which blocks an inode
  owns, and how its block map may grow. The second shows that the code moves between such contents.
\<close>

section \<open>Blocks of an inode\<close>

text \<open>The indirect block, the address of block \<open>bn\<close> of a file (0 when there is none), and all blocks of an inode.\<close>

definition iblk :: "inode \<Rightarrow> u32" where
  "iblk x = i_addrs x ! NDIRECT"

definition baddr :: "(u32 \<Rightarrow> byte list) \<Rightarrow> inode \<Rightarrow> nat \<Rightarrow> u32" where
  "baddr c x bn = (if bn < NDIRECT then i_addrs x ! bn
     else if iblk x = 0 then 0 else get32 (4 * (bn - NDIRECT)) (c (iblk x)))"

definition owns :: "(u32 \<Rightarrow> byte list) \<Rightarrow> inode \<Rightarrow> u32 set" where
  "owns c x = {a. a \<noteq> 0 \<and> (a = iblk x \<or> (\<exists>k<MAXFILE. a = baddr c x k))}"

text \<open>The bitmap marks a block; the bitmap and the blocks before it are marked.\<close>

definition marked :: "superblock \<Rightarrow> (u32 \<Rightarrow> byte list) \<Rightarrow> u32 \<Rightarrow> bool" where
  "marked g c b = bmbit (c (bmapstart g)) (unat b)"

definition metas :: "superblock \<Rightarrow> (u32 \<Rightarrow> byte list) \<Rightarrow> bool" where
  "metas g c \<longleftrightarrow> (\<forall>b. length (c b) = BSIZE) \<and> (\<forall>b. unat b \<le> unat (bmapstart g) \<longrightarrow> marked g c b)"

definition data_block :: "superblock \<Rightarrow> u32 \<Rightarrow> bool" where
  "data_block g b \<longleftrightarrow> unat (bmapstart g) < unat b \<and> unat b < unat (sb_size g)"

definition inode_ok :: "superblock \<Rightarrow> (u32 \<Rightarrow> byte list) \<Rightarrow> inode \<Rightarrow> bool" where
  "inode_ok g c x \<longleftrightarrow> i_dev x = ROOTDEV \<and> length (i_addrs x) = NDIRECT + 1
     \<and> (\<forall>a. a \<in> owns c x \<longrightarrow> data_block g a \<and> marked g c a)
     \<and> (\<forall>k k'. k < MAXFILE \<longrightarrow> k' < MAXFILE \<longrightarrow> baddr c x k = baddr c x k' \<longrightarrow> baddr c x k \<noteq> 0 \<longrightarrow> k = k')
     \<and> (\<forall>k. k < MAXFILE \<longrightarrow> iblk x \<noteq> 0 \<longrightarrow> baddr c x k \<noteq> iblk x)"

text \<open>
  From content \<open>c\<close> and inode \<open>x\<close> to \<open>c'\<close> and \<open>x'\<close> the file may have got blocks that nobody used,
  and only its own blocks and the bitmap have changed.
\<close>

definition grows :: "superblock \<Rightarrow> (u32 \<Rightarrow> byte list) \<Rightarrow> inode \<Rightarrow> (u32 \<Rightarrow> byte list) \<Rightarrow> inode \<Rightarrow> bool" where
  "grows g c x c' x' \<longleftrightarrow> x' = x\<lparr>i_addrs := i_addrs x'\<rparr> \<and> inode_ok g c' x' \<and> metas g c'
     \<and> (\<forall>k<MAXFILE. baddr c x k \<noteq> 0 \<longrightarrow> baddr c' x' k = baddr c x k)
     \<and> (\<forall>b. marked g c b \<longrightarrow> b \<noteq> bmapstart g \<longrightarrow> b \<notin> owns c x \<longrightarrow> c' b = c b)
     \<and> (\<forall>b. marked g c' b \<longleftrightarrow> marked g c b \<or> b \<in> owns c' x')
     \<and> owns c x \<subseteq> owns c' x' \<and> (\<forall>b. b \<in> owns c' x' \<longrightarrow> b \<in> owns c x \<or> \<not> marked g c b)"

definition keeps :: "(u32 \<Rightarrow> byte list) \<Rightarrow> inode \<Rightarrow> (u32 \<Rightarrow> byte list) \<Rightarrow> bool" where
  "keeps c x c' \<longleftrightarrow> (\<forall>k<MAXFILE. baddr c x k \<noteq> 0 \<longrightarrow> c' (baddr c x k) = c (baddr c x k))"

lemma inode_okD:
  assumes "inode_ok g c x"
  shows "i_dev x = ROOTDEV" and "length (i_addrs x) = 13"
    and "\<And>a. a \<in> owns c x \<Longrightarrow> data_block g a \<and> marked g c a"
    and "\<And>k k'. k < MAXFILE \<Longrightarrow> k' < MAXFILE \<Longrightarrow> baddr c x k = baddr c x k' \<Longrightarrow> baddr c x k \<noteq> 0 \<Longrightarrow> k = k'"
    and "\<And>k. k < MAXFILE \<Longrightarrow> iblk x \<noteq> 0 \<Longrightarrow> baddr c x k \<noteq> iblk x"
  using assms unfolding inode_ok_def by auto

lemma baddr_owned: "k < MAXFILE \<Longrightarrow> baddr c x k \<noteq> 0 \<Longrightarrow> baddr c x k \<in> owns c x"
  by (auto simp: owns_def)

lemma iblk_owned: "iblk x \<noteq> 0 \<Longrightarrow> iblk x \<in> owns c x"
  by (simp add: owns_def)

lemma data_block_bm: "data_block g b \<Longrightarrow> b \<noteq> bmapstart g \<and> b \<noteq> 0"
  by (auto simp: data_block_def)

lemma grows_refl: "inode_ok g c x \<Longrightarrow> metas g c \<Longrightarrow> grows g c x c x"
  using inode_okD(3) by (auto simp: grows_def)

lemma grows_trans:
  assumes "grows g c x c' x'" and "grows g c' x' c'' x''"
  shows "grows g c x c'' x''"
proof -
  have x: "x'' = x\<lparr>i_addrs := i_addrs x''\<rparr>" using assms unfolding grows_def by (metis inode.update_convs(11) inode.surjective)
  have b: "\<forall>k<MAXFILE. baddr c x k \<noteq> 0 \<longrightarrow> baddr c'' x'' k = baddr c x k" using assms unfolding grows_def by metis
  have f: "c'' b = c b" if "marked g c b" "b \<noteq> bmapstart g" "b \<notin> owns c x" for b
    using that assms unfolding grows_def by metis
  have m: "marked g c'' b \<longleftrightarrow> marked g c b \<or> b \<in> owns c'' x''" for b using assms unfolding grows_def by blast
  have o: "owns c x \<subseteq> owns c'' x''" "\<And>b. b \<in> owns c'' x'' \<Longrightarrow> b \<in> owns c x \<or> \<not> marked g c b"
    using assms unfolding grows_def by blast+
  show ?thesis using x b f m o assms(2) unfolding grows_def by blast
qed

text \<open>A new block becomes block \<open>k\<close> of the file, or its indirect block.\<close>

lemma grows_alloc:
  assumes ok: "inode_ok g c x" and g: "metas g c" and b: "data_block g b" "\<not> marked g c b"
    and x': "x' = x\<lparr>i_addrs := as\<rparr>" "length as = NDIRECT + 1"
    and mk: "\<And>y. marked g c' y \<longleftrightarrow> y = b \<or> marked g c y" and len: "\<And>y. length (c' y) = BSIZE"
    and fr: "\<And>y. y \<noteq> bmapstart g \<Longrightarrow> y \<noteq> b \<Longrightarrow> y \<notin> owns c x \<Longrightarrow> c' y = c y"
    and a: "\<And>j. j < MAXFILE \<Longrightarrow> baddr c' x' j = (if k = Some j then b else baddr c x j)"
    and i: "iblk x' = (if k = None then b else iblk x)"
    and k: "\<And>j. k = Some j \<Longrightarrow> j < MAXFILE \<and> baddr c x j = 0" "k = None \<Longrightarrow> iblk x = 0"
  shows "grows g c x c' x'"
proof -
  note ok' = inode_okD [OF ok]
  have b0: "b \<noteq> 0" "b \<noteq> bmapstart g" using data_block_bm [OF b(1)] by auto
  have nb: "b \<notin> owns c x" using ok'(3) b(2) by blast
  have own: "owns c' x' = insert b (owns c x)"
  proof (cases k)
    case None
    then have "iblk x' = b" "iblk x = 0" "\<And>j. j < MAXFILE \<Longrightarrow> baddr c' x' j = baddr c x j" using i k a by simp_all
    then show ?thesis unfolding owns_def using b0 by auto
  next
    case (Some j)
    then have j: "iblk x' = iblk x" "j < MAXFILE" "baddr c x j = 0"
      "\<And>j'. j' < MAXFILE \<Longrightarrow> baddr c' x' j' = (if j' = j then b else baddr c x j')" using i k a by auto
    show ?thesis
    proof (intro set_eqI iffI)
      fix y assume "y \<in> owns c' x'"
      then show "y \<in> insert b (owns c x)" using j unfolding owns_def by (auto split: if_splits)
    next
      fix y assume y: "y \<in> insert b (owns c x)"
      show "y \<in> owns c' x'"
      proof (cases "y = b")
        case True
        then show ?thesis using j(2,4) b0 unfolding owns_def by auto
      next
        case False
        then have "y \<noteq> 0" "y = iblk x \<or> (\<exists>k<MAXFILE. y = baddr c x k)" using y by (auto simp: owns_def)
        then show ?thesis using j(1,3,4) unfolding owns_def mem_Collect_eq by metis
      qed
    qed
  qed
  have m': "metas g c'" using g mk len by (simp add: metas_def)
  have inj: "j = j'" if j: "j < MAXFILE" "j' < MAXFILE" "baddr c' x' j = baddr c' x' j'" "baddr c' x' j \<noteq> 0" for j j'
  proof (cases "k = Some j \<or> k = Some j'")
    case True
    then show ?thesis using j a nb baddr_owned [of j c x] baddr_owned [of j' c x] by (auto split: if_splits)
  next
    case False
    then show ?thesis using j a ok'(4) [of j j'] by auto
  qed
  have ni: "baddr c' x' j \<noteq> iblk x'" if j: "j < MAXFILE" "iblk x' \<noteq> 0" for j
    using j a [of j] i nb baddr_owned [of j c x] iblk_owned [of x c] ok'(5) [of j] b0 by (auto split: if_splits)
  have ok2: "inode_ok g c' x'"
    using own ok'(1,3) b(1) mk inj ni x' unfolding inode_ok_def by auto
  have x1: "x' = x\<lparr>i_addrs := i_addrs x'\<rparr>" using x'(1) by simp
  have keep: "\<forall>j<MAXFILE. baddr c x j \<noteq> 0 \<longrightarrow> baddr c' x' j = baddr c x j" using a k by auto
  have mo: "\<forall>y. marked g c' y \<longleftrightarrow> marked g c y \<or> y \<in> owns c' x'" using mk own ok'(3) by auto
  have frm: "\<forall>y. marked g c y \<longrightarrow> y \<noteq> bmapstart g \<longrightarrow> y \<notin> owns c x \<longrightarrow> c' y = c y" using fr b(2) by blast
  have sub: "owns c x \<subseteq> owns c' x'" "\<forall>y. y \<in> owns c' x' \<longrightarrow> y \<in> owns c x \<or> \<not> marked g c y" using own b(2) by auto
  show ?thesis unfolding grows_def by (intro conjI x1 ok2 m' keep mo frm sub)
qed

lemma marked_alloc:
  assumes "sb_ok g" and "metas g c" and b: "data_block g b"
  shows "marked g (c(bmapstart g := set_bit_byte (unat b) (c (bmapstart g)), b := z)) y \<longleftrightarrow> y = b \<or> marked g c y"
proof -
  have "unat b div 8 < length (c (bmapstart g))" using assms by (auto simp: sb_ok_def metas_def data_block_def)
  then show ?thesis using data_block_bm [OF b] by (simp add: marked_def bmbit_set word_unat_eq_iff)
qed

lemma len_alloc: "metas g c \<Longrightarrow> length (z :: byte list) = BSIZE \<Longrightarrow>
  length ((c(bmapstart g := set_bit_byte n (c (bmapstart g)), b := z)) y) = BSIZE"
  by (simp add: metas_def)

lemma get32_zero: "off + 4 \<le> n \<Longrightarrow> get32 off (replicate n 0) = 0"
  by (simp add: get32_def get_bytes_def min_def eval_nat_numeral)

lemma grows_direct:
  assumes sb: "sb_ok g" and ok: "inode_ok g c x" and g: "metas g c" and b: "data_block g b" "\<not> marked g c b"
    and k: "k < NDIRECT" "i_addrs x ! k = 0"
    and c': "c' = c(bmapstart g := set_bit_byte (unat b) (c (bmapstart g)), b := replicate BSIZE 0)"
    and x': "x' = x\<lparr>i_addrs := (i_addrs x)[k := b]\<rparr>"
  shows "grows g c x c' x'" and "baddr c' x' k = b" and "keeps c x c'"
proof -
  note ok' = inode_okD [OF ok]
  have len: "length (i_addrs x) = 13" by (rule ok'(2))
  have own: "y \<noteq> b \<and> y \<noteq> bmapstart g" if "y \<in> owns c x" for y
    using ok'(3) [OF that] b(2) data_block_bm [of g y] by blast
  have ib: "iblk x' = iblk x" using k(1) x' by (simp add: iblk_def)
  have ci: "c' (iblk x) = c (iblk x)" if "iblk x \<noteq> 0" using own [OF iblk_owned [OF that]] c' by simp
  have a: "baddr c' x' j = (if Some k = Some j then b else baddr c x j)" if "j < MAXFILE" for j
    using k(1) x' len ib ci by (simp add: baddr_def)
  show "grows g c x c' x'"
  proof (rule grows_alloc [OF ok g b x' _ _ _ _ a])
    show "marked g c' y \<longleftrightarrow> y = b \<or> marked g c y" for y unfolding c' by (rule marked_alloc [OF sb g b(1)])
    show "length (c' y) = BSIZE" for y unfolding c' by (rule len_alloc [OF g]) simp
  qed (use len c' ib k in \<open>auto simp: baddr_def\<close>)
  show "baddr c' x' k = b" using a [of k] k(1) by simp
  show "keeps c x c'" using own baddr_owned [of _ c x] c' by (simp add: keeps_def)
qed

lemma grows_indirect:
  assumes sb: "sb_ok g" and ok: "inode_ok g c x" and g: "metas g c" and b: "data_block g b" "\<not> marked g c b"
    and k: "iblk x = 0"
    and c': "c' = c(bmapstart g := set_bit_byte (unat b) (c (bmapstart g)), b := replicate BSIZE 0)"
    and x': "x' = x\<lparr>i_addrs := (i_addrs x)[NDIRECT := b]\<rparr>"
  shows "grows g c x c' x'" and "iblk x' = b" and "keeps c x c'"
proof -
  note ok' = inode_okD [OF ok]
  have len: "length (i_addrs x) = 13" by (rule ok'(2))
  have own: "y \<noteq> b \<and> y \<noteq> bmapstart g" if "y \<in> owns c x" for y
    using ok'(3) [OF that] b(2) data_block_bm [of g y] by blast
  show ib: "iblk x' = b" using x' len by (simp add: iblk_def)
  have a: "baddr c' x' j = (if (None :: nat option) = Some j then b else baddr c x j)" if "j < MAXFILE" for j
    using that x' len ib k c' get32_zero [of "4 * (j - 12)" 1024] by (auto simp: baddr_def)
  show "grows g c x c' x'"
  proof (rule grows_alloc [OF ok g b x' _ _ _ _ a])
    show "marked g c' y \<longleftrightarrow> y = b \<or> marked g c y" for y unfolding c' by (rule marked_alloc [OF sb g b(1)])
    show "length (c' y) = BSIZE" for y unfolding c' by (rule len_alloc [OF g]) simp
  qed (use len c' ib k in auto)
  show "keeps c x c'" using own baddr_owned [of _ c x] c' by (simp add: keeps_def)
qed

lemma grows_entry:
  assumes sb: "sb_ok g" and ok: "inode_ok g c x" and g: "metas g c" and b: "data_block g b" "\<not> marked g c b"
    and k: "j < NINDIRECT" "iblk x \<noteq> 0" "baddr c x (NDIRECT + j) = 0"
    and c': "c' = c(bmapstart g := set_bit_byte (unat b) (c (bmapstart g)), b := replicate BSIZE 0,
      iblk x := put32 (4 * j) b (c (iblk x)))"
  shows "grows g c x c' x" and "baddr c' x (NDIRECT + j) = b" and "keeps c x c'"
proof -
  note ok' = inode_okD [OF ok]
  have len: "length (i_addrs x) = 13" by (rule ok'(2))
  have own: "y \<noteq> b \<and> y \<noteq> bmapstart g" if "y \<in> owns c x" for y
    using ok'(3) [OF that] b(2) data_block_bm [of g y] by blast
  have li: "length (c (iblk x)) = 1024" using g by (simp add: metas_def)
  have ci: "c' (iblk x) = put32 (4 * j) b (c (iblk x))" using c' by simp
  have a: "baddr c' x i = (if Some (NDIRECT + j) = Some i then b else baddr c x i)" if "i < MAXFILE" for i
  proof (cases "i < NDIRECT \<or> i = NDIRECT + j")
    case True
    then show ?thesis using k(1,2) li ci by (auto simp: baddr_def)
  next
    case False
    then have "get32 (4 * (i - 12)) (put32 (4 * j) b (c (iblk x))) = get32 (4 * (i - 12)) (c (iblk x))"
      using that k(1) li by (intro get_put32_other) auto
    then show ?thesis using False k(2) ci by (simp add: baddr_def)
  qed
  have mk: "marked g c' y \<longleftrightarrow> y = b \<or> marked g c y" for y
    using marked_alloc [OF sb g b(1), of "replicate BSIZE 0" y] own [OF iblk_owned [OF k(2), of c]] c'
    by (auto simp: marked_def)
  show "grows g c x c' x"
  proof (rule grows_alloc [OF ok g b _ _ mk _ _ a])
    show "x = x\<lparr>i_addrs := i_addrs x\<rparr>" by simp
    show "length (c' y) = BSIZE" for y using g li k(1) c' by (simp add: metas_def)
    show "c' y = c y" if "y \<noteq> bmapstart g" "y \<noteq> b" "y \<notin> owns c x" for y
      using that iblk_owned [OF k(2), of c] c' by auto
  qed (use len k in auto)
  show "baddr c' x (NDIRECT + j) = b" using a [of "NDIRECT + j"] k(1) by simp
  have "c' y = c y" if "y \<in> owns c x" "y \<noteq> iblk x" for y using own [OF that(1)] that(2) c' by simp
  then show "keeps c x c'" using baddr_owned [of _ c x] ok'(5) k(2) by (simp add: keeps_def)
qed

text \<open>A data block of the file is overwritten.\<close>

lemma grows_write:
  assumes ok: "inode_ok g c x" and g: "metas g c" and k: "k < MAXFILE" "baddr c x k = a" "a \<noteq> 0" and d: "length d = BSIZE"
  shows "grows g c x (c(a := d)) x" and "baddr (c(a := d)) x = baddr c x"
proof -
  note ok' = inode_okD [OF ok]
  let ?c = "c(a := d)"
  have o: "a \<in> owns c x" using baddr_owned [OF k(1), of c x] k by simp
  have "a \<noteq> iblk x \<or> iblk x = 0" using ok'(5) [OF k(1)] k(2) by blast
  then show ba: "baddr ?c x = baddr c x" by (auto simp: baddr_def fun_eq_iff)
  then have ow: "owns ?c x = owns c x" by (simp add: owns_def)
  have "a \<noteq> bmapstart g" using ok'(3) [OF o] data_block_bm by blast
  then have mk: "marked g ?c y = marked g c y" for y by (simp add: marked_def)
  have ok2: "inode_ok g ?c x" using ok unfolding inode_ok_def ba ow mk .
  have g2: "metas g ?c" using g d by (simp add: metas_def mk)
  have m: "marked g c y = (marked g c y \<or> y \<in> owns c x)" for y using ok'(3) by blast
  show "grows g c x ?c x" unfolding grows_def ba ow mk using ok2 g2 o m by auto
qed

section \<open>The block map\<close>

lemma used_marked: "used s b = marked (sb s) (con s) b"
  by (simp add: used_def marked_def bmblock_def)

lemma metas_iff: "txs s ds L \<Longrightarrow> metas (sb s) (con s) \<longleftrightarrow> meta_used s"
  using txs_len [of s ds L] by (simp add: metas_def meta_used_def used_marked bmblock_def)

text \<open>
  The number of blocks in the log, counting the bitmap and the indirect block as logged: what the log will
  hold when nothing but data blocks is added.
\<close>

definition need :: "'a fss_scheme \<Rightarrow> u32 list \<Rightarrow> inode \<Rightarrow> nat" where
  "need s ds x = length ds + (if bmblock s \<in> set ds then 0 else 1)
     + (if iblk x \<noteq> 0 \<and> iblk x \<in> set ds then 0 else 1)"

definition bmap_post :: "'a fss_scheme \<Rightarrow> nat \<Rightarrow> nat \<Rightarrow> u32 list \<Rightarrow> u32 \<Rightarrow> 'a fss_scheme \<Rightarrow> u32 list \<Rightarrow> bool" where
  "bmap_post s ip bn ds a s' ds' \<longleftrightarrow> txs s' ds' {} \<and> fchg s s' \<and> itable s' = (itable s)(ip := itable s' ip)
     \<and> grows (sb s) (con s) (itable s ip) (con s') (itable s' ip) \<and> keeps (con s) (itable s ip) (con s')
     \<and> need s' ds' (itable s' ip) + (if a \<in> set ds' then 0 else 1) \<le> need s ds (itable s ip) + 1
     \<and> (if a = 0 then \<forall>b. unat b < unat (sb_size (sb s)) \<longrightarrow> marked (sb s) (con s') b
        else a = baddr (con s') (itable s' ip) bn)"

lemma bmap_old:
  assumes t: "txs s ds {}" and ok: "inode_ok (sb s) (con s) (itable s ip)" and k: "bn < MAXFILE"
    and a: "baddr (con s) (itable s ip) bn \<noteq> 0"
  shows "\<exists>s'. bmap ip bn s = Inr (baddr (con s) (itable s ip) bn, s') \<and> bstep s ds {} s' \<and> con s' = con s"
proof (cases "bn < NDIRECT")
  case True
  moreover have "bstep s ds {} s" using t by (simp add: bstep_def)
  ultimately show ?thesis using a inode_okD(2) [OF ok] by (auto simp: bmap_def baddr_def)
next
  case False
  let ?x = "itable s ip"
  have i: "iblk ?x \<noteq> 0" "baddr (con s) ?x bn = get32 (4 * (bn - 12)) (con s (iblk ?x))"
    using a False by (auto simp: baddr_def split: if_splits)
  have "length ds < 30" using t log_wfD(5) by (auto simp: txs_def)
  then obtain j s1 s2 where r: "bread ROOTDEV (iblk ?x) s = Inr (j, s1)" "brelse j s1 = Inr s2"
    "bdata (bufs s1 j) = con s (iblk ?x)" "txs s2 ds {}" "con s2 = con s" "bchg s s2" "\<forall>j c. handle s j c \<longrightarrow> handle s2 j c"
    using txs_read [OF t, of "iblk ?x"] by auto
  have "bstep s ds {} s2" using r(4,7) bstepI [OF r(4) bchg_tchg [OF r(6)]] by blast
  moreover have "bmap ip bn s = Inr (baddr (con s) ?x bn, s2)"
    using False k i r(1-3) a inode_okD(1,2) [OF ok] by (simp add: bmap_def iblk_def Let_def del: ROOTDEV_def)
  ultimately show ?thesis using r(5) by blast
qed

lemma need_logged: "length (logged b ds) = length ds + (if b \<in> set ds then 0 else 1)" "set (logged b ds) = insert b (set ds)"
  by (auto simp: logged_def)

lemma balloc_new_post:
  assumes "balloc_new s ds L b s'" and "txs s ds L"
  shows "data_block (sb s) b" and "\<not> marked (sb s) (con s) b" and "b \<noteq> 0"
    and "con s' = (con s)(bmapstart (sb s) := set_bit_byte (unat b) (con s (bmapstart (sb s))), b := replicate BSIZE 0)"
    and "txs s' (logged b (logged (bmblock s) ds)) L" and "fchg s s'" and "itable s' = itable s"
    and "\<And>j c. handle s j c \<Longrightarrow> handle s' j c"
  using assms by (auto simp: balloc_new_def data_block_def used_marked bmblock_def bstep_def)

lemma balloc_full_post:
  assumes "balloc_full s ds L s'"
  shows "\<forall>b. unat b < unat (sb_size (sb s)) \<longrightarrow> marked (sb s) (con s) b" and "con s' = con s"
    and "txs s' ds L" and "fchg s s'" and "itable s' = itable s" and "\<And>j c. handle s j c \<Longrightarrow> handle s' j c"
  using assms by (auto simp: balloc_full_def used_marked bstep_def)

lemma bmap_direct:
  assumes t: "txs s ds {}" and g: "geom s" and m: "meta_used s" and ok: "inode_ok (sb s) (con s) (itable s ip)"
    and k: "bn < NDIRECT" "baddr (con s) (itable s ip) bn = 0" and n: "int (need s ds (itable s ip)) + 1 < lg_size (lg s) - 1"
  shows "\<exists>a s' ds'. bmap ip bn s = Inr (a, s') \<and> bmap_post s ip bn ds a s' ds'"
proof -
  let ?x = "itable s ip"
  note x = inode_okD [OF ok]
  have ms: "metas (sb s) (con s)" using metas_iff [OF t] m by simp
  have "int (length (logged (bmblock s) ds)) < lg_size (lg s) - 1" using n by (simp add: need_def need_logged)
  then obtain b s1 where b: "balloc ROOTDEV s = Inr (b, s1)" "balloc_new s ds {} b s1 \<or> b = 0 \<and> balloc_full s ds {} s1"
    using balloc_cases [OF t g m] by auto
  have e: "bmap ip bn s = (if b = 0 then Inr (0, s1)
      else Inr (b, upd_inode ip (\<lambda>x. x\<lparr>i_addrs := (i_addrs x)[bn := b]\<rparr>) s1))"
    using k x(1,2) b(1) by (simp add: bmap_def baddr_def del: ROOTDEV_def)
  show ?thesis using b(2)
  proof (elim disjE conjE)
    assume "balloc_new s ds {} b s1"
    note p = balloc_new_post [OF this t]
    define s2 where "s2 = upd_inode ip (\<lambda>x. x\<lparr>i_addrs := (i_addrs x)[bn := b]\<rparr>) s1"
    have it: "itable s2 = (itable s)(ip := ?x\<lparr>i_addrs := (i_addrs ?x)[bn := b]\<rparr>)" using p(7) by (simp add: s2_def)
    have cs: "con s2 = con s1" "\<And>D. txs s2 D {} = txs s1 D {}" by (simp_all add: s2_def)
    have sb: "sb_ok (sb s)" using g by (simp add: geom_def)
    have "i_addrs ?x ! bn = 0" using k by (simp add: baddr_def)
    note gr = grows_direct [OF sb ok ms p(1,2) k(1) this p(4), OF refl]
    have f: "fchg s s2" unfolding s2_def using fchg_trans [OF p(6) fchg_upd_inode] .
    have "iblk (itable s2 ip) = iblk ?x" using k(1) by (simp add: it iblk_def)
    then have nd: "need s2 (logged b (logged (bmblock s) ds)) (itable s2 ip) \<le> need s ds ?x + 1"
      by (auto simp: need_def need_logged bmblock_fchg [OF f])
    have "bmap_post s ip bn ds b s2 (logged b (logged (bmblock s) ds))"
      unfolding bmap_post_def using p(3,5) f nd gr by (simp add: it cs)
    then show ?thesis using e p(3) s2_def by auto
  next
    assume "b = 0" and "balloc_full s ds {} s1"
    note p = balloc_full_post [OF this(2)]
    have "bmap_post s ip bn ds b s1 ds"
      unfolding bmap_post_def using p grows_refl [OF ok ms] \<open>b = 0\<close>
      by (simp add: keeps_def need_def bmblock_fchg [OF p(4)])
    then show ?thesis using e \<open>b = 0\<close> by auto
  qed
qed

lemma bmap_entry:
  assumes t: "txs s ds {}" and g: "geom s" and m: "meta_used s" and ok: "inode_ok (sb s) (con s) (itable s ip)"
    and k: "NDIRECT \<le> bn" "bn < MAXFILE" "iblk (itable s ip) \<noteq> 0" "baddr (con s) (itable s ip) bn = 0"
    and n: "int (need s ds (itable s ip)) + 1 < lg_size (lg s) - 1"
  shows "\<exists>a s' ds'. bmap ip bn s = Inr (a, s') \<and> bmap_post s ip bn ds a s' ds'"
proof -
  let ?x = "itable s ip" and ?bm = "bmblock s"
  let ?i = "iblk ?x" and ?j = "bn - NDIRECT"
  note x = inode_okD [OF ok]
  have sb: "sb_ok (sb s)" using g by (simp add: geom_def)
  have ms: "metas (sb s) (con s)" using metas_iff [OF t] m by simp
  have own: "data_block (sb s) ?i" "marked (sb s) (con s) ?i" using x(3) iblk_owned [OF k(3)] by blast+
  have nbm: "?bm \<noteq> ?i" using data_block_bm [OF own(1)] by (auto simp: bmblock_def)
  have room: "int (length (logged ?bm ds)) < lg_size (lg s) - 1" "int (length ds) < lg_size (lg s) - 1"
    using n by (simp_all add: need_def need_logged)
  have jb: "?j < NINDIRECT" using k by simp
  have en: "get32 (4 * ?j) (con s ?i) = 0" using k by (simp add: baddr_def)
  obtain h s1 where r: "bread ROOTDEV ?i s = Inr (h, s1)" "txs s1 ds {?i}" "bchg s s1" "con s1 = con s" "handle s1 h ?i"
    "bdata (bufs s1 h) = con s ?i"
    using txs_bread [OF t, of ?i] txs_room [OF t room(2)] by auto
  note f1 = tchg_fchg [OF bchg_tchg [OF r(3)]]
  have s1: "geom s1" "meta_used s1" "bmblock s1 = ?bm" "sb s1 = sb s" "lg s1 = lg s" "used s1 ?i"
    using g m own(2) r(4) fchgD(1) [OF f1(1)] bmblock_fchg [OF f1(1)] bchg_lg [OF r(3)]
    by (simp_all add: geom_fchg [OF f1(1)] meta_used_def used_marked)
  obtain b s2 where b: "balloc ROOTDEV s1 = Inr (b, s2)" "balloc_new s1 ds {?i} b s2 \<or> b = 0 \<and> balloc_full s1 ds {?i} s2"
    using balloc_cases [OF r(2) s1(1,2)] s1 nbm room(1) by auto
  have e: "bmap ip bn s = rbind (if b \<noteq> 0 then rbind (log_write h (set_data h (put32 (4 * ?j) b (bdata (bufs s2 h))) s2)) (\<lambda>s. Inr (b, s))
      else Inr (b, s2)) (\<lambda>(a, s). rbind (brelse h s) (\<lambda>s. Inr (a, s)))"
    using k x(1,2) r(1,6) b(1) en f1(2) jb by (simp add: bmap_def iblk_def Let_def del: ROOTDEV_def)
  show ?thesis using b(2)
  proof (elim disjE conjE)
    assume "balloc_new s1 ds {?i} b s2"
    note p = balloc_new_post [OF this r(2)]
    have bi: "b \<noteq> ?i" using p(2) own(2) s1(4) r(4) by auto
    have i2: "con s2 ?i = con s ?i" using p(4) bi nbm r(4) s1(4) by (auto simp: bmblock_def)
    let ?ds = "logged b (logged ?bm ds)"
    have t2: "txs s2 ?ds (insert ?i {})" using p(5) s1(3) by simp
    have io: "unat (inodestart (sb s)) \<le> unat ?i" using own(1) sb by (simp add: data_block_def sb_ok_def)
    have l2: "lg_size (lg s2) = lg_size (lg s)" "log_blocks (lg s2) = log_blocks (lg s)" using fchgD [OF p(6)] s1(5) by simp_all
    have "int (length ?ds) < lg_size (lg s2) - 1" using n l2 by (simp add: need_def need_logged split: if_splits)
    moreover have "?i \<notin> log_blocks (lg s2)" using above_log [OF g io] l2 by simp
    moreover have "length (put32 (4 * ?j) b (con s ?i)) = BSIZE" using txs_len [OF t, of ?i] k(2) by simp
    ultimately obtain s3 s4 where u: "log_write h (set_data h (put32 (4 * ?j) b (con s ?i)) s2) = Inr s3"
      "brelse h s3 = Inr s4" "txs s4 (logged ?i ?ds) {}" "tchg s2 s4" "con s4 = (con s2)(?i := put32 (4 * ?j) b (con s ?i))"
      using txs_held_update [OF t2 p(8) [OF r(5)], of "put32 (4 * ?j) b (con s ?i)"] by auto
    have bd: "bdata (bufs s2 h) = con s ?i" using txs_handle_data [OF t2 p(8) [OF r(5)]] i2 by simp
    have f: "fchg s s4" using fchg_trans [OF fchg_trans [OF f1(1) p(6)] tchg_fchg(1) [OF u(4)]] .
    have it: "itable s4 = itable s" using tchg_fchg(2) [OF u(4)] p(7) f1(2) by simp
    have c4: "con s4 = (con s)(bmapstart (sb s) := set_bit_byte (unat b) (con s (bmapstart (sb s))), b := replicate BSIZE 0,
        ?i := put32 (4 * ?j) b (con s ?i))"
      using u(5) p(4) r(4) s1(4) by simp
    have bn: "NDIRECT + ?j = bn" using k by simp
    note gr = grows_entry [OF sb ok ms, of b ?j "con s4", OF _ _ jb k(3) _ c4, unfolded bn]
    have gr': "grows (sb s) (con s) ?x (con s4) ?x" "baddr (con s4) ?x bn = b" "keeps (con s) ?x (con s4)"
      using gr p(1,2) k(4) s1(4) r(4) by auto
    have nd: "need s4 (logged ?i ?ds) ?x \<le> need s ds ?x + 1"
      using k(3) by (auto simp: need_def need_logged bmblock_fchg [OF f])
    have "bmap_post s ip bn ds b s4 (logged ?i ?ds)"
      unfolding bmap_post_def it using u(3) f gr' nd p(3) by (simp add: need_logged)
    then show ?thesis using e u(1,2) bd p(3) by auto
  next
    assume b0: "b = 0" and "balloc_full s1 ds {?i} s2"
    note p = balloc_full_post [OF this(2)]
    have f2: "fchg s s2" using fchg_trans [OF f1(1) p(4)] .
    have "?i \<in> set ds \<or> con s2 ?i = dimg s2 ?i"
      using pins_con [of s "set ds" "{}" ?i] t p(2) r(4) fchgD(2) [OF f2] by (auto simp: txs_def)
    from txs_brelse [OF p(3) p(6) [OF r(5)] this] obtain s3 where u: "brelse h s2 = Inr s3" "txs s3 ds {}" "bchg s2 s3" "con s3 = con s2"
      by auto
    note f3 = tchg_fchg [OF bchg_tchg [OF u(3)]]
    have f: "fchg s s3" using fchg_trans [OF f2 f3(1)] .
    have it: "itable s3 = itable s" using f3(2) p(5) f1(2) by simp
    have c: "con s3 = con s" using u(4) p(2) r(4) by simp
    have "bmap_post s ip bn ds b s3 ds"
      unfolding bmap_post_def it c using u(2) f grows_refl [OF ok ms] b0 p(1) r(4) s1(4)
      by (simp add: keeps_def need_def bmblock_fchg [OF f])
    then show ?thesis using e u(1) b0 by auto
  qed
qed

lemma keeps_trans:
  assumes "grows g c x c' x'" and "keeps c x c'" and "keeps c' x' c''"
  shows "keeps c x c''"
  using assms unfolding keeps_def grows_def by metis

lemma bmap_new_indirect:
  assumes t: "txs s ds {}" and g: "geom s" and m: "meta_used s" and ok: "inode_ok (sb s) (con s) (itable s ip)"
    and k: "NDIRECT \<le> bn" "bn < MAXFILE" "iblk (itable s ip) = 0"
    and n: "int (need s ds (itable s ip)) + 1 < lg_size (lg s) - 1"
  shows "\<exists>a s' ds'. bmap ip bn s = Inr (a, s') \<and> bmap_post s ip bn ds a s' ds'"
proof -
  let ?x = "itable s ip"
  note x = inode_okD [OF ok]
  have sb: "sb_ok (sb s)" using g by (simp add: geom_def)
  have ms: "metas (sb s) (con s)" using metas_iff [OF t] m by simp
  have "int (length (logged (bmblock s) ds)) < lg_size (lg s) - 1" using n by (simp add: need_def need_logged)
  then obtain b s1 where b: "balloc ROOTDEV s = Inr (b, s1)" "balloc_new s ds {} b s1 \<or> b = 0 \<and> balloc_full s ds {} s1"
    using balloc_cases [OF t g m] by auto
  have jb: "bn - 12 < 256" using k by simp
  define s2 where "s2 = upd_inode ip (\<lambda>x. x\<lparr>i_addrs := (i_addrs x)[NDIRECT := b]\<rparr>) s1"
  show ?thesis using b(2)
  proof (elim disjE conjE)
    assume "balloc_new s ds {} b s1"
    note p = balloc_new_post [OF this t]
    have it: "itable s2 = (itable s)(ip := ?x\<lparr>i_addrs := (i_addrs ?x)[NDIRECT := b]\<rparr>)" using p(7) by (simp add: s2_def)
    have e: "bmap ip bn s = bmap ip bn s2"
      using k x(1,2) b(1) jb p(3,7) by (simp add: bmap_def iblk_def Let_def s2_def del: ROOTDEV_def)
    have cs: "con s2 = con s1" "\<And>D. txs s2 D {} = txs s1 D {}" by (simp_all add: s2_def)
    let ?ds = "logged b (logged (bmblock s) ds)"
    note gr = grows_indirect [OF sb ok ms p(1,2) k(3) p(4), OF refl]
    have f: "fchg s s2" unfolding s2_def using fchg_trans [OF p(6) fchg_upd_inode] .
    have x2: "itable s2 ip = ?x\<lparr>i_addrs := (i_addrs ?x)[NDIRECT := b]\<rparr>" using it by simp
    have gr2: "grows (sb s) (con s) ?x (con s2) (itable s2 ip)" "keeps (con s) ?x (con s2)" using gr x2 cs by simp_all
    have nd: "need s2 ?ds (itable s2 ip) \<le> need s ds ?x"
      using k(3) gr(2) p(3) by (simp add: need_def need_logged bmblock_fchg [OF f] x2)
    have s2: "txs s2 ?ds {}" "geom s2" "sb s2 = sb s" "lg_size (lg s2) = lg_size (lg s)"
      using p(5) cs(2) g fchgD [OF f] by (simp_all add: geom_fchg [OF f])
    have ok2: "inode_ok (sb s2) (con s2) (itable s2 ip)" "metas (sb s2) (con s2)" using gr2 s2(3) by (simp_all add: grows_def)
    then have m2: "meta_used s2" using metas_iff [OF s2(1)] by simp
    have z: "baddr (con s2) (itable s2 ip) bn = 0"
      using k(1,2) gr(2) x2 p(3,4) cs(1) get32_zero [of "4 * (bn - 12)" 1024] by (simp add: baddr_def)
    have "iblk (itable s2 ip) \<noteq> 0" "int (need s2 ?ds (itable s2 ip)) + 1 < lg_size (lg s2) - 1"
      using gr(2) x2 p(3) nd n s2(4) by simp_all
    from bmap_entry [OF s2(1,2) m2 ok2(1) k(1,2) this(1) z this(2)] obtain a s' ds'
      where r: "bmap ip bn s2 = Inr (a, s')" "bmap_post s2 ip bn ?ds a s' ds'" by blast
    have "bmap_post s ip bn ds a s' ds'"
      using r(2) nd it s2(3) fchg_trans [OF f] grows_trans [OF gr2(1)] keeps_trans [OF gr2]
      unfolding bmap_post_def by auto
    then show ?thesis using e r(1) by auto
  next
    assume b0: "b = 0" and "balloc_full s ds {} s1"
    note p = balloc_full_post [OF this(2)]
    have e: "bmap ip bn s = Inr (b, s1)"
      using k x(1,2) b(1) jb b0 by (simp add: bmap_def iblk_def Let_def del: ROOTDEV_def)
    have "bmap_post s ip bn ds b s1 ds"
      unfolding bmap_post_def using p grows_refl [OF ok ms] b0
      by (simp add: keeps_def need_def bmblock_fchg [OF p(4)])
    then show ?thesis using e by auto
  qed
qed

text \<open>
  \<^verbatim>\<open>bmap\<close> on every branch: the address of the block, a block that was free when there was none, or 0 on
  a full disk.
\<close>

lemma bmap_maps:
  assumes t: "txs s ds {}" and g: "geom s" and m: "meta_used s" and ok: "inode_ok (sb s) (con s) (itable s ip)"
    and k: "bn < MAXFILE" and n: "int (need s ds (itable s ip)) + 1 < lg_size (lg s) - 1"
  shows "\<exists>a s' ds'. bmap ip bn s = Inr (a, s') \<and> bmap_post s ip bn ds a s' ds'"
proof (cases "baddr (con s) (itable s ip) bn = 0")
  case True
  then show ?thesis
    using bmap_direct [OF t g m ok _ True n] bmap_entry [OF t g m ok _ k _ True n] bmap_new_indirect [OF t g m ok _ k _ n]
    by (meson linorder_not_le)
next
  case False
  have ms: "metas (sb s) (con s)" using metas_iff [OF t] m by simp
  obtain s' where r: "bmap ip bn s = Inr (baddr (con s) (itable s ip) bn, s')" "bstep s ds {} s'" "con s' = con s"
    using bmap_old [OF t ok k False] by blast
  have "bmap_post s ip bn ds (baddr (con s) (itable s ip) bn) s' ds"
    using r(2,3) False grows_refl [OF ok ms] by (auto simp: bmap_post_def bstep_def keeps_def need_def bmblock_fchg)
  then show ?thesis using r(1) by blast
qed

section \<open>The contents of a file\<close>

definition fbyte :: "(u32 \<Rightarrow> byte list) \<Rightarrow> inode \<Rightarrow> nat \<Rightarrow> byte" where
  "fbyte c x k = c (baddr c x (k div BSIZE)) ! (k mod BSIZE)"

definition file_data :: "(u32 \<Rightarrow> byte list) \<Rightarrow> inode \<Rightarrow> byte list" where
  "file_data c x = map (fbyte c x) [0..<unat (i_size x)]"

text \<open>A file has all the blocks up to its size.\<close>

definition sized :: "(u32 \<Rightarrow> byte list) \<Rightarrow> inode \<Rightarrow> bool" where
  "sized c x \<longleftrightarrow> unat (i_size x) \<le> MAXFILE * BSIZE \<and> (\<forall>k<unat (i_size x). baddr c x (k div BSIZE) \<noteq> 0)"

lemma length_file_data [simp]: "length (file_data c x) = unat (i_size x)"
  by (simp add: file_data_def)

lemma div_mod_block: "off mod BSIZE + m \<le> BSIZE \<Longrightarrow> off \<le> k \<Longrightarrow> k < off + m \<Longrightarrow>
  k div BSIZE = off div BSIZE \<and> k mod BSIZE = off mod BSIZE + (k - off)"
proof -
  assume a: "off mod BSIZE + m \<le> BSIZE" "off \<le> k" "k < off + m"
  let ?r = "off mod BSIZE + (k - off)"
  have "k = ?r + BSIZE * (off div BSIZE)" using a(2) mult_div_mod_eq [of BSIZE off] by linarith
  moreover have "?r < BSIZE" using a by linarith
  ultimately show ?thesis by (metis add.commute div_less div_mult_self2 mod_less mod_mult_self2 add_0 less_nat_zero_code)
qed

lemma fbyte_chunk:
  assumes m: "off mod BSIZE + m \<le> BSIZE" and l: "length (c (baddr c x (off div BSIZE))) = BSIZE"
  shows "take m (drop (off mod BSIZE) (c (baddr c x (off div BSIZE)))) = map (fbyte c x) [off..<off + m]"
proof (rule nth_equalityI)
  show "length (take m (drop (off mod BSIZE) (c (baddr c x (off div BSIZE))))) = length (map (fbyte c x) [off..<off + m])"
    using m l by simp
next
  fix i assume "i < length (take m (drop (off mod BSIZE) (c (baddr c x (off div BSIZE)))))"
  then have "i < m" by simp
  then show "take m (drop (off mod BSIZE) (c (baddr c x (off div BSIZE)))) ! i = map (fbyte c x) [off..<off + m] ! i"
    using m l div_mod_block [OF m, of "off + i"] by (simp add: fbyte_def)
qed

text \<open>The file grew and holds the bytes \<open>bs\<close> at \<open>off\<close>; its other bytes are as they were.\<close>

definition written ::
  "superblock \<Rightarrow> (u32 \<Rightarrow> byte list) \<Rightarrow> inode \<Rightarrow> nat \<Rightarrow> byte list \<Rightarrow> (u32 \<Rightarrow> byte list) \<Rightarrow> inode \<Rightarrow> bool" where
  "written g c x off bs c' x' \<longleftrightarrow> grows g c x c' x'
     \<and> (\<forall>k<MAXFILE * BSIZE. off \<le> k \<and> k < off + length bs \<longrightarrow> baddr c' x' (k div BSIZE) \<noteq> 0 \<and> fbyte c' x' k = bs ! (k - off))
     \<and> (\<forall>k<MAXFILE * BSIZE. \<not> (off \<le> k \<and> k < off + length bs) \<longrightarrow> baddr c x (k div BSIZE) \<noteq> 0 \<longrightarrow> fbyte c' x' k = fbyte c x k)"

lemma block_bound: "k < MAXFILE * BSIZE \<Longrightarrow> k div BSIZE < MAXFILE"
  by (simp add: less_mult_imp_div_less)

lemma written_Nil:
  assumes "grows g c x c' x'" and "keeps c x c'"
  shows "written g c x off [] c' x'"
proof -
  have "fbyte c' x' k = fbyte c x k" if k: "k < MAXFILE * BSIZE" "baddr c x (k div BSIZE) \<noteq> 0" for k
    using assms block_bound [OF k(1)] k(2) unfolding grows_def keeps_def fbyte_def by metis
  then show ?thesis using assms by (auto simp: written_def)
qed

lemma written_append:
  assumes 1: "written g c x off bs c' x'" and 2: "written g c' x' (off + length bs) bs' c'' x''"
  shows "written g c x off (bs @ bs') c'' x''"
proof -
  have g: "grows g c x c' x'" "grows g c' x' c'' x''" using 1 2 by (simp_all add: written_def)
  have ba: "baddr c'' x'' (k div BSIZE) \<noteq> 0" if "k < MAXFILE * BSIZE" "baddr c' x' (k div BSIZE) \<noteq> 0" for k
    using g(2) that block_bound [OF that(1)] by (simp add: grows_def)
  have ba': "baddr c' x' (k div BSIZE) \<noteq> 0" if "k < MAXFILE * BSIZE" "baddr c x (k div BSIZE) \<noteq> 0" for k
    using g(1) that block_bound [OF that(1)] by (simp add: grows_def)
  have new: "baddr c'' x'' (k div BSIZE) \<noteq> 0 \<and> fbyte c'' x'' k = (bs @ bs') ! (k - off)"
    if k: "k < MAXFILE * BSIZE" "off \<le> k" "k < off + length (bs @ bs')" for k
  proof (cases "k < off + length bs")
    case True
    then have "baddr c' x' (k div BSIZE) \<noteq> 0 \<and> fbyte c' x' k = bs ! (k - off)" using 1 k unfolding written_def by blast
    moreover have "fbyte c'' x'' k = fbyte c' x' k" using 2 k(1) True calculation unfolding written_def by (meson linorder_not_le)
    moreover have "k - off < length bs" using True k(2) by linarith
    ultimately show ?thesis using ba [OF k(1)] by (simp add: nth_append)
  next
    case False
    then have "off + length bs \<le> k \<and> k < (off + length bs) + length bs'" using k by simp
    then have "baddr c'' x'' (k div BSIZE) \<noteq> 0 \<and> fbyte c'' x'' k = bs' ! (k - (off + length bs))"
      using 2 k(1) unfolding written_def by blast
    moreover have "\<not> k - off < length bs" "k - off - length bs = k - (off + length bs)" using False k(2) by linarith+
    ultimately show ?thesis by (simp add: nth_append)
  qed
  have old: "fbyte c'' x'' k = fbyte c x k"
    if k: "k < MAXFILE * BSIZE" "\<not> (off \<le> k \<and> k < off + length (bs @ bs'))" "baddr c x (k div BSIZE) \<noteq> 0" for k
  proof -
    have "fbyte c' x' k = fbyte c x k" using 1 k unfolding written_def by (metis length_append trans_less_add1 add.assoc)
    moreover have "fbyte c'' x'' k = fbyte c' x' k"
      using 2 k(1,2) ba' [OF k(1,3)] unfolding written_def by (simp add: add.assoc)
    ultimately show ?thesis by simp
  qed
  show ?thesis unfolding written_def using grows_trans [OF g] new old by blast
qed

lemma written_block:
  assumes ok: "inode_ok g c x" and ms: "metas g c" and a: "baddr c x (off div BSIZE) = a" "a \<noteq> 0"
    and m: "off mod BSIZE + length bs \<le> BSIZE" and off: "off div BSIZE < MAXFILE"
  shows "written g c x off bs (c(a := put_bytes (off mod BSIZE) bs (c a))) x"
proof -
  let ?c = "c(a := put_bytes (off mod BSIZE) bs (c a))"
  have l: "length (c a) = BSIZE" using ms by (simp add: metas_def)
  have "length (put_bytes (off mod BSIZE) bs (c a)) = BSIZE" using m l by simp
  note gw = grows_write [OF ok ms off a this]
  have new: "fbyte ?c x k = bs ! (k - off)" if "off \<le> k" "k < off + length bs" for k
  proof -
    note k = div_mod_block [OF m that]
    have "k mod BSIZE < length (c a)" "off mod BSIZE \<le> k mod BSIZE" "k mod BSIZE < off mod BSIZE + length bs"
      "k mod BSIZE - off mod BSIZE = k - off"
      using k l that by auto
    then show ?thesis using k a gw(2) m l nth_put_bytes [of "off mod BSIZE" bs "c a" "k mod BSIZE"] by (simp add: fbyte_def)
  qed
  have old: "fbyte ?c x k = fbyte c x k" if k: "k < MAXFILE * BSIZE" "\<not> (off \<le> k \<and> k < off + length bs)" for k
  proof (cases "baddr c x (k div BSIZE) = a")
    case True
    then have d: "k div BSIZE = off div BSIZE" using inode_okD(4) [OF ok block_bound [OF k(1)] off] a by simp
    have e: "k = BSIZE * (off div BSIZE) + k mod BSIZE" "off = BSIZE * (off div BSIZE) + off mod BSIZE"
      using mult_div_mod_eq [of BSIZE k] mult_div_mod_eq [of BSIZE off] d by metis+
    have "\<not> (off mod BSIZE \<le> k mod BSIZE \<and> k mod BSIZE < off mod BSIZE + length bs)"
      using k(2) e by linarith
    then show ?thesis using True gw(2) m l nth_put_bytes [of "off mod BSIZE" bs "c a" "k mod BSIZE"] by (auto simp: fbyte_def)
  next
    case False
    then show ?thesis using gw(2) by (simp add: fbyte_def)
  qed
  have "baddr ?c x (k div BSIZE) \<noteq> 0" if "off \<le> k" "k < off + length bs" for k
    using div_mod_block [OF m that] a gw(2) by simp
  then show ?thesis unfolding written_def using gw(1) new old by blast
qed

end
