(* ===== verification/FsFile.thy ===== *)
theory FsFile
  imports FsData
begin

text \<open>
  Reading and writing files: \<^verbatim>\<open>readi\<close>, \<^verbatim>\<open>writei\<close> and \<^verbatim>\<open>iupdate\<close> of \<^verbatim>\<open>kernel/fs.c\<close>
  refine slices and updates of the list of bytes of a file, whatever blocks they allocate on the way;
  nothing else on the disk changes.
\<close>

section \<open>Reading\<close>

lemma bstep_fchg: "bstep s ds L s' \<Longrightarrow> fchg s s'"
  by (simp add: bstep_def)

lemma readi_loop_reads:
  assumes t: "txs s ds {}" and ok: "inode_ok (sb s) (con s) (itable s ip)"
    and tot: "tot \<le> n" and off: "off + (n - tot) \<le> MAXFILE * BSIZE"
    and al: "\<forall>k. off \<le> k \<and> k < off + (n - tot) \<longrightarrow> baddr (con s) (itable s ip) (k div BSIZE) \<noteq> 0"
  shows "\<exists>s'. readi_loop ip LocalDst off n tot acc s
      = Inr (int n, acc @ map (fbyte (con s) (itable s ip)) [off..<off + (n - tot)], s')
    \<and> bstep s ds {} s' \<and> con s' = con s"
  using assms
proof (induction "n - tot" arbitrary: off tot acc s rule: less_induct)
  case less
  let ?x = "itable s ip"
  show ?case
  proof (cases "tot < n")
    case False
    then show ?thesis using less.prems(1,3) by (simp add: readi_loop.simps [of ip _ off] bstep_def)
  next
    case True
    let ?bn = "off div BSIZE"
    define m where "m = min (n - tot) (BSIZE - off mod BSIZE)"
    have m: "off mod BSIZE + m \<le> BSIZE" "0 < m" "m \<le> n - tot" using True by (auto simp: m_def min_def)
    have bn: "?bn < MAXFILE" using True less.prems(4) by (intro block_bound) linarith
    have a0: "baddr (con s) ?x ?bn \<noteq> 0" using less.prems(5) True by simp
    let ?a = "baddr (con s) ?x ?bn"
    obtain s1 where 1: "bmap ip ?bn s = Inr (?a, s1)" "bstep s ds {} s1" "con s1 = con s"
      using bmap_old [OF less.prems(1,2) bn a0] by blast
    have t1: "txs s1 ds {}" "itable s1 = itable s" using 1(2) by (simp_all add: bstep_def)
    have "length ds + card ({} :: u32 set) < 30" using t1 log_wfD(5) by (auto simp: txs_def)
    then obtain h s2 s3 where 2: "bread ROOTDEV ?a s1 = Inr (h, s2)" "brelse h s2 = Inr s3" "bdata (bufs s2 h) = con s ?a"
      "txs s3 ds {}" "con s3 = con s" "bchg s1 s3" "\<forall>j c. handle s1 j c \<longrightarrow> handle s3 j c"
      using txs_read [OF t1(1), of ?a] 1(3) by auto
    have b3: "bstep s ds {} s3" using bstep_trans [OF 1(2) bstepI [OF 2(4) bchg_tchg [OF 2(6)]]] 2(7) by blast
    have s3: "sb s3 = sb s" "itable s3 = itable s" using b3 fchgD(1) by (auto simp: bstep_def)
    have ch: "take m (drop (off mod BSIZE) (con s ?a)) = map (fbyte (con s) ?x) [off..<off + m]"
      by (rule fbyte_chunk [OF m(1)]) (rule txs_len [OF less.prems(1)])
    have dv: "i_dev ?x = ROOTDEV" by (rule inode_okD(1) [OF less.prems(2)])
    have r: "readi_loop ip LocalDst off n tot acc s
        = readi_loop ip LocalDst (off + m) n (tot + m) (acc @ map (fbyte (con s) ?x) [off..<off + m]) s3"
      using True 1(1) 2(1-3) a0 ch t1(2) dv
      by (subst readi_loop.simps) (simp add: Let_def either_copyout_def m_def del: ROOTDEV_def)
    have "n - (tot + m) < n - tot" using m(2) True by linarith
    moreover have e2: "off + m + (n - (tot + m)) = off + (n - tot)" "tot + m \<le> n" using m(3) True by linarith+
    moreover have "inode_ok (sb s3) (con s3) (itable s3 ip)" using less.prems(2) 2(5) s3 by simp
    moreover have "\<forall>k. off + m \<le> k \<and> k < off + (n - tot) \<longrightarrow> baddr (con s3) (itable s3 ip) (k div BSIZE) \<noteq> 0"
      using less.prems(5) 2(5) s3 by simp
    ultimately obtain s' where "readi_loop ip LocalDst (off + m) n (tot + m) (acc @ map (fbyte (con s) ?x) [off..<off + m]) s3
       = Inr (int n, (acc @ map (fbyte (con s) ?x) [off..<off + m]) @ map (fbyte (con s) ?x) [off + m..<off + (n - tot)], s')"
      "bstep s3 ds {} s'" "con s' = con s"
      using less.hyps [OF _ 2(4), of "tot + m" "off + m" "acc @ map (fbyte (con s) ?x) [off..<off + m]"]
        less.prems(4) 2(5) s3(2) by metis
    moreover have "[off..<off + m] @ [off + m..<off + (n - tot)] = [off..<off + (n - tot)]"
      using upt_add_eq_append [of off "off + m" "n - (tot + m)"] e2(1) by (metis le_add1)
    ultimately show ?thesis using r bstep_trans [OF b3] by (metis append.assoc map_append)
  qed
qed

text \<open>\<^verbatim>\<open>readi\<close> reads the slice of the file that starts at \<open>off\<close>, cut at the end of the file.\<close>

lemma readi_reads:
  assumes t: "txs s ds {}" and ok: "inode_ok (sb s) (con s) (itable s ip)" and sz: "sized (con s) (itable s ip)"
    and ov: "unat off + unat n < 2 ^ 32"
  defines "bs \<equiv> take (unat n) (drop (unat off) (file_data (con s) (itable s ip)))"
  shows "\<exists>s'. readi ip LocalDst off n s = Inr (int (length bs), bs, s') \<and> bstep s ds {} s' \<and> con s' = con s"
proof -
  let ?x = "itable s ip"
  let ?sz = "i_size ?x"
  have sum: "unat (off + n) = unat off + unat n" using ov by (simp add: unat_word_ariths)
  have no: "\<not> off + n < off" using sum by (simp add: word_less_nat_alt)
  show ?thesis
  proof (cases "off > ?sz")
    case True
    then have "bs = []" by (simp add: bs_def word_less_nat_alt)
    then show ?thesis using True t by (simp add: readi_def bstep_def)
  next
    case False
    define n' where "n' = (if off + n > ?sz then ?sz - off else n)"
    have le: "unat off \<le> unat ?sz" using False by (simp add: word_less_nat_alt)
    have n': "unat n' = min (unat n) (unat ?sz - unat off)"
      using le sum by (auto simp: n'_def word_less_nat_alt unat_sub_if' min_def)
    have e: "readi ip LocalDst off n s = readi_loop ip LocalDst (unat off) (unat n') 0 [] s"
      using False no by (simp add: readi_def Let_def n'_def)
    have b: "map (fbyte (con s) ?x) [unat off..<unat off + unat n'] = bs"
      using le n' by (simp add: bs_def file_data_def drop_map take_map min_def)
    have lb: "length bs = unat n'" using b by (metis length_map length_upt add_diff_cancel_left')
    have "\<exists>s'. readi_loop ip LocalDst (unat off) (unat n') 0 [] s
      = Inr (int (unat n'), [] @ map (fbyte (con s) ?x) [unat off..<unat off + (unat n' - 0)], s') \<and> bstep s ds {} s' \<and> con s' = con s"
      by (rule readi_loop_reads [OF t ok]) (use sz n' le in \<open>auto simp: sized_def\<close>)
    then show ?thesis using e b lb by simp
  qed
qed

section \<open>Writing\<close>

text \<open>A source gives the bytes \<open>bs\<close> however the copy is divided.\<close>

definition supplies :: "ksrc \<Rightarrow> byte list \<Rightarrow> 'a kern_scheme \<Rightarrow> bool" where
  "supplies src bs s \<longleftrightarrow>
     (\<forall>k m. k + m \<le> length bs \<longrightarrow> either_copyin (src_add src k) m s = Inr (0, take m (drop k bs)))"

lemma supplies_local: "supplies (LocalSrc bs) bs s"
  by (auto simp: supplies_def either_copyin_def)

lemma src_add_add: "src_add (src_add src m) k = src_add src (m + k)"
  by (cases src) (simp_all add: add.commute)

lemma supplies_next: "supplies src bs s \<Longrightarrow> m \<le> length bs \<Longrightarrow> supplies (src_add src m) (drop m bs) s"
  unfolding supplies_def src_add_add by (auto simp: add.commute)

lemma supplies_first: "supplies src bs s \<Longrightarrow> m \<le> length bs \<Longrightarrow> either_copyin src m s = Inr (0, take m bs)"
  unfolding supplies_def by (drule spec [of _ 0], drule spec [of _ m]) (cases src; simp)

lemma supplies_cong:
  assumes "phy s' = phy s" and "pagetable (myproc s') = pagetable (myproc s)"
  shows "supplies src bs s' = supplies src bs s"
  unfolding supplies_def either_copyin_def assms by (rule refl)

text \<open>The number of blocks that a range of bytes touches.\<close>

definition nblk :: "nat \<Rightarrow> nat \<Rightarrow> nat" where
  "nblk off n = (if n = 0 then 0 else (off + n - 1) div BSIZE - off div BSIZE + 1)"

lemma nblk_next:
  assumes "0 < n" and "m = min n (BSIZE - off mod BSIZE)"
  shows "nblk (off + m) (n - m) + 1 \<le> nblk off n"
proof (cases "n - m = 0")
  case True
  then show ?thesis using assms(1) by (simp add: nblk_def)
next
  case False
  then have m: "m = BSIZE - off mod BSIZE" "m < n" using assms by (auto simp: min_def split: if_splits)
  have "off mod BSIZE < BSIZE" by simp
  then have "off + m = BSIZE * (off div BSIZE + 1)" using m mult_div_mod_eq [of BSIZE off] unfolding distrib_left by linarith
  then have "(off + m) div BSIZE = off div BSIZE + 1" by (metis BSIZE_def div_mult_self1_is_m zero_less_numeral)
  moreover have "(off + m) div BSIZE \<le> (off + n - 1) div BSIZE" using m(2) by (intro div_le_mono) linarith
  moreover have "off + m + (n - m) - 1 = off + n - 1" using m(2) by simp
  ultimately show ?thesis using False assms(1) by (simp add: nblk_def) linarith
qed

text \<open>The state after bytes were written to a file in a transaction.\<close>

definition wrote_file ::
  "'a fss_scheme \<Rightarrow> nat \<Rightarrow> u32 list \<Rightarrow> nat \<Rightarrow> byte list \<Rightarrow> 'a fss_scheme \<Rightarrow> u32 list \<Rightarrow> bool" where
  "wrote_file s ip ds off bs s' ds' \<longleftrightarrow> txs s' ds' {} \<and> fchg s s' \<and> itable s' = (itable s)(ip := itable s' ip)
     \<and> written (sb s) (con s) (itable s ip) off bs (con s') (itable s' ip)"

lemma wrote_file_append:
  assumes "wrote_file s ip ds off bs s' ds'" and "wrote_file s' ip ds' (off + length bs) bs' s'' ds''"
  shows "wrote_file s ip ds off (bs @ bs') s'' ds''"
proof -
  have f: "fchg s s'" "fchg s' s''" "itable s' = (itable s)(ip := itable s' ip)" "itable s'' = (itable s')(ip := itable s'' ip)"
    using assms by (simp_all add: wrote_file_def)
  have "itable s'' = (itable s)(ip := itable s'' ip)" by (subst f(4), subst f(3), simp)
  moreover have "written (sb s) (con s) (itable s ip) off (bs @ bs') (con s'') (itable s'' ip)"
    using assms fchgD(1) [OF f(1)] by (auto simp: wrote_file_def intro: written_append)
  ultimately show ?thesis using assms(2) fchg_trans [OF f(1,2)] unfolding wrote_file_def by blast
qed

lemma bmap_post_wrote: "bmap_post s ip bn ds a s' ds' \<Longrightarrow> wrote_file s ip ds off [] s' ds'"
  by (simp add: bmap_post_def wrote_file_def written_Nil)

lemma data_not_log: "geom s \<Longrightarrow> data_block (sb s) a \<Longrightarrow> a \<notin> log_blocks (lg s)"
  by (rule above_log) (auto simp: geom_def sb_ok_def data_block_def)

text \<open>One round of the loop of \<^verbatim>\<open>writei\<close> after \<^verbatim>\<open>bmap\<close> has given a block.\<close>

lemma write_chunk:
  assumes t: "txs s ds {}" and g: "geom s" and m: "meta_used s" and ok: "inode_ok (sb s) (con s) (itable s ip)"
    and a: "baddr (con s) (itable s ip) (off div BSIZE) = a" "a \<noteq> 0" "off div BSIZE < MAXFILE"
    and bs: "off mod BSIZE + length bs \<le> BSIZE" and n: "int (length ds) < lg_size (lg s) - 1"
  shows "\<exists>h s1 s2 s'. bread ROOTDEV a s = Inr (h, s1) \<and> fchg s s1 \<and> itable s1 = itable s
    \<and> log_write h (set_data h (put_bytes (off mod BSIZE) bs (bdata (bufs s1 h))) s1) = Inr s2 \<and> brelse h s2 = Inr s'
    \<and> wrote_file s ip ds off bs s' (logged a ds) \<and> itable s' = itable s"
proof -
  let ?f = "put_bytes (off mod BSIZE) bs"
  have ms: "metas (sb s) (con s)" using metas_iff [OF t] m by simp
  have "a \<in> owns (con s) (itable s ip)" using baddr_owned [OF a(3)] a by auto
  then have out: "a \<notin> log_blocks (lg s)" using inode_okD(3) [OF ok] data_not_log [OF g] by blast
  have "length (?f (con s a)) = BSIZE" using txs_len [OF t, of a] bs by simp
  moreover have "length ds + card ({} :: u32 set) < 30" using txs_room [OF t n] by simp
  ultimately obtain h s1 s2 s' where r: "bread ROOTDEV a s = Inr (h, s1)" "bdata (bufs s1 h) = con s a"
    "log_write h (set_data h (?f (con s a)) s1) = Inr s2" "brelse h s2 = Inr s'" "txs s' (logged a ds) {}" "tchg s s'"
    "con s' = (con s)(a := ?f (con s a))" "bchg s s1"
    using txs_update [OF t, of a ?f] out n by auto
  note f = tchg_fchg [OF r(6)]
  have "wrote_file s ip ds off bs s' (logged a ds)"
    using r(5,7) f written_block [OF ok ms a(1,2) bs a(3)] by (simp add: wrote_file_def)
  then show ?thesis using r f(2) tchg_fchg [OF bchg_tchg [OF r(8)]] by auto
qed

lemma writei_loop_writes:
  assumes "txs s ds {}" and "geom s" and "meta_used s" and "inode_ok (sb s) (con s) (itable s ip)"
    and "length bs = n - tot" and "tot \<le> n" and "off + (n - tot) \<le> MAXFILE * BSIZE" and "supplies src bs s"
    and "int (need s ds (itable s ip)) + int (nblk off (n - tot)) < lg_size (lg s) - 1"
  shows "\<exists>k s' ds'. writei_loop ip src off n tot s = Inr (tot + k, off + k, s') \<and> k \<le> n - tot
    \<and> wrote_file s ip ds off (take k bs) s' ds'
    \<and> need s' ds' (itable s' ip) \<le> need s ds (itable s ip) + nblk off (n - tot)
    \<and> (k < n - tot \<longrightarrow> (\<forall>b. unat b < unat (sb_size (sb s)) \<longrightarrow> marked (sb s) (con s') b))"
  using assms
proof (induction "n - tot" arbitrary: off tot src bs s ds rule: less_induct)
  case less
  show ?case
  proof (cases "tot < n")
    case False
    have "metas (sb s) (con s)" using metas_iff [OF less.prems(1)] less.prems(3) by simp
    then have "wrote_file s ip ds off [] s ds"
      using less.prems(1,4) by (auto simp: wrote_file_def keeps_def intro: written_Nil grows_refl)
    then show ?thesis using False less.prems(6)
      by (intro exI [of _ 0] exI [of _ s] exI [of _ ds]) (simp add: writei_loop.simps [of ip src off])
  next
    case True
    let ?bn = "off div BSIZE" and ?N = "n - tot"
    define m where "m = min ?N (BSIZE - off mod BSIZE)"
    have m: "off mod BSIZE + m \<le> BSIZE" "0 < m" "m \<le> ?N" using True by (auto simp: m_def min_def)
    have nb: "nblk (off + m) (?N - m) + 1 \<le> nblk off ?N" using True by (intro nblk_next m_def) simp
    have bn: "?bn < MAXFILE" using True less.prems(7) by (intro block_bound) linarith
    have "int (need s ds (itable s ip)) + 1 < lg_size (lg s) - 1" using nb less.prems(9) by linarith
    from bmap_maps [OF less.prems(1-4) bn this] obtain a s1 ds1
      where 1: "bmap ip ?bn s = Inr (a, s1)" "bmap_post s ip ?bn ds a s1 ds1" by blast
    note P = 1(2) [unfolded bmap_post_def]
    note w1 = bmap_post_wrote [OF 1(2), of off]
    have s1: "txs s1 ds1 {}" "fchg s s1" using P by simp_all
    show ?thesis
    proof (cases "a = 0")
      case a0: True
      have "writei_loop ip src off n tot s = Inr (tot + 0, off + 0, s1)"
        using True 1(1) a0 by (simp add: writei_loop.simps [of ip src off])
      moreover have "need s1 ds1 (itable s1 ip) \<le> need s ds (itable s ip) + nblk off ?N" using P nb by (auto split: if_splits)
      ultimately show ?thesis using w1 P a0 True by (intro exI [of _ 0] exI [of _ s1] exI [of _ ds1]) simp
    next
      case a0: False
      have g1: "geom s1" "sb s1 = sb s" "lg_size (lg s1) = lg_size (lg s)" using less.prems(2) fchgD [OF s1(2)] by (simp_all add: geom_fchg [OF s1(2)])
      have ok1: "inode_ok (sb s1) (con s1) (itable s1 ip)" "meta_used s1"
        using P metas_iff [OF s1(1)] g1(2) by (auto simp: grows_def)
      have ba: "baddr (con s1) (itable s1 ip) ?bn = a" using P a0 by simp
      have nd1: "need s1 ds1 (itable s1 ip) + (if a \<in> set ds1 then 0 else 1) \<le> need s ds (itable s ip) + 1" using P by simp
      have ln: "length ds1 \<le> need s1 ds1 (itable s1 ip)" by (simp add: need_def)
      have room: "int (length ds1) < lg_size (lg s1) - 1" using ln nd1 nb less.prems(9) g1(3) by (simp split: if_splits)
      have lt: "length (take m bs) = m" using less.prems(5) m(3) by simp
      from write_chunk [OF s1(1) g1(1) ok1(2,1) ba a0 bn _ room, of "take m bs"] m(1) lt obtain h s2 s3 s4 where
        2: "bread ROOTDEV a s1 = Inr (h, s2)" "fchg s1 s2" "itable s2 = itable s1"
          "log_write h (set_data h (put_bytes (off mod BSIZE) (take m bs) (bdata (bufs s2 h))) s2) = Inr s3"
          "brelse h s3 = Inr s4" "wrote_file s1 ip ds1 off (take m bs) s4 (logged a ds1)" "itable s4 = itable s1"
        by auto
      have f4: "txs s4 (logged a ds1) {}" "fchg s1 s4" using 2(6) by (simp_all add: wrote_file_def)
      have f2: "fchg s s2" "fchg s s4" using fchg_trans [OF s1(2)] 2(2) f4(2) by blast+
      have sup: "supplies src bs s2" "supplies src bs s4"
        using less.prems(8) supplies_cong [OF fchgD(4,12) [OF f2(1)]] supplies_cong [OF fchgD(4,12) [OF f2(2)]] by simp_all
      have ci: "either_copyin src m s2 = Inr (0, take m bs)" using supplies_first [OF sup(1)] m(3) less.prems(5) by simp
      have dv: "i_dev (itable s1 ip) = ROOTDEV" by (rule inode_okD(1) [OF ok1(1)])
      have r: "writei_loop ip src off n tot s = writei_loop ip (src_add src m) (off + m) n (tot + m) s4"
        using True 1(1) a0 2(1,3-5) ci dv
        by (subst writei_loop.simps) (simp add: Let_def m_def del: ROOTDEV_def)
      have w: "wrote_file s ip ds off (take m bs) s4 (logged a ds1)" using wrote_file_append [OF w1, of "take m bs" s4] 2(6) by simp
      have s4: "geom s4" "sb s4 = sb s" "lg_size (lg s4) = lg_size (lg s)" "bmblock s4 = bmblock s1"
        using less.prems(2) fchgD [OF f2(2)] bmblock_fchg [OF f4(2)] by (simp_all add: geom_fchg [OF f2(2)])
      have ok4: "inode_ok (sb s4) (con s4) (itable s4 ip)" "meta_used s4"
        using w metas_iff [OF f4(1)] s4(2) by (auto simp: wrote_file_def written_def grows_def)
      have nd4: "need s4 (logged a ds1) (itable s4 ip) \<le> need s ds (itable s ip) + 1"
        using nd1 by (auto simp: need_def need_logged 2(7) s4(4) split: if_splits)
      have N: "n - (tot + m) = ?N - m" "n - (tot + m) < ?N" "tot + m \<le> n" using m True by linarith+
      have "length (drop m bs) = n - (tot + m)" "off + m + (n - (tot + m)) \<le> MAXFILE * BSIZE"
        "supplies (src_add src m) (drop m bs) s4"
        "int (need s4 (logged a ds1) (itable s4 ip)) + int (nblk (off + m) (n - (tot + m))) < lg_size (lg s4) - 1"
        using less.prems(5,7,9) N m(3) supplies_next [OF sup(2), of m] nd4 nb s4(3) by auto
      from less.hyps [OF N(2) f4(1) s4(1) ok4(2,1) this(1) N(3) this(2-4)] obtain k s' ds' where
        IH: "writei_loop ip (src_add src m) (off + m) n (tot + m) s4 = Inr (tot + m + k, off + m + k, s')" "k \<le> n - (tot + m)"
          "wrote_file s4 ip (logged a ds1) (off + m) (take k (drop m bs)) s' ds'"
          "need s' ds' (itable s' ip) \<le> need s4 (logged a ds1) (itable s4 ip) + nblk (off + m) (n - (tot + m))"
          "k < n - (tot + m) \<longrightarrow> (\<forall>b. unat b < unat (sb_size (sb s4)) \<longrightarrow> marked (sb s4) (con s') b)"
        by blast
      have "take m bs @ take k (drop m bs) = take (m + k) bs" by (simp add: take_add)
      then have "wrote_file s ip ds off (take (m + k) bs) s' ds'" using wrote_file_append [OF w, of "take k (drop m bs)" s' ds'] IH(3) lt by simp
      moreover have "need s' ds' (itable s' ip) \<le> need s ds (itable s ip) + nblk off ?N" using IH(4) nd4 nb unfolding N(1) by linarith
      moreover have "m + k \<le> ?N" "m + k < ?N \<longrightarrow> k < n - (tot + m)" using IH(2) N(1) m(3) by linarith+
      ultimately show ?thesis using r IH(1,5) s4(2)
        by (intro exI [of _ "m + k"] exI [of _ s'] exI [of _ ds']) (simp add: add.assoc)
    qed
  qed
qed

end
