(* ===== verification/FsInode.thy ===== *)
theory FsInode
  imports FsFile
begin

text \<open>
  The inode on disk and \<^verbatim>\<open>writei\<close> as a whole (\<^verbatim>\<open>kernel/fs.c\<close>): what a write does to the
  bytes of the file, to its inode on disk and to everything else, and that it is atomic under crashes.
\<close>

section \<open>The inode on disk\<close>

definition inode_block :: "superblock \<Rightarrow> u32 \<Rightarrow> u32" where
  "inode_block g i = IBLOCK i g"

lemma inode_block_bounds:
  assumes "sb_ok g" and "unat i < unat (ninodes g)"
  shows "unat (inode_block g i) = unat (inodestart g) + unat i div IPB" and "unat (inode_block g i) < unat (bmapstart g)"
proof -
  have "unat i div 16 \<le> unat (ninodes g) div 16" using assms(2) by (intro div_le_mono) simp
  then have b: "unat (inodestart g) + unat i div 16 < unat (bmapstart g)" using assms(1) by (simp add: sb_ok_def)
  have "unat (i div 16) = unat i div 16" by (simp add: unat_div)
  then show "unat (inode_block g i) = unat (inodestart g) + unat i div IPB"
    using b u32_bound [of "bmapstart g"] unat_word_ariths(1) [of "i div 16" "inodestart g"]
    by (simp add: inode_block_def IBLOCK_def)
  then show "unat (inode_block g i) < unat (bmapstart g)" using b by simp
qed

lemma inode_block_eq:
  assumes "sb_ok g" and "unat i < unat (ninodes g)" and "unat j < unat (ninodes g)"
    and "inode_block g i = inode_block g j" and "ioff i = ioff j"
  shows "i = j"
proof -
  have "unat i div 16 = unat j div 16"
    using inode_block_bounds(1) [OF assms(1,2)] inode_block_bounds(1) [OF assms(1,3)] assms(4) by simp
  moreover have "unat i mod 16 = unat j mod 16" using assms(5) by (simp add: ioff_def)
  ultimately show ?thesis by (metis div_mult_mod_eq word_unat_eq_iff)
qed

lemma ioff_bound: "ioff i + 64 \<le> 1024"
proof -
  have "unat i mod 16 < 16" by simp
  then show ?thesis by (simp add: ioff_def)
qed

lemma ioff_apart: "ioff i \<noteq> ioff j \<Longrightarrow> ioff i + 64 \<le> ioff j \<or> ioff j + 64 \<le> ioff i"
  by (auto simp: ioff_def)

definition disk_inode :: "superblock \<Rightarrow> (u32 \<Rightarrow> byte list) \<Rightarrow> u32 \<Rightarrow> dinode" where
  "disk_inode g c i = get_dinode (ioff i) (c (inode_block g i))"

lemma iupdate_updates:
  assumes t: "txs s ds {}" and g: "geom s" and ok: "inode_ok (sb s) (con s) (itable s ip)"
    and i: "unat (i_inum (itable s ip)) < unat (ninodes (sb s))" and n: "int (length ds) < lg_size (lg s) - 1"
  defines "ib \<equiv> inode_block (sb s) (i_inum (itable s ip))"
  shows "\<exists>s' d. iupdate ip s = Inr s' \<and> bstep s (logged ib ds) {} s' \<and> con s' = (con s)(ib := d) \<and> length d = BSIZE
    \<and> (\<forall>j. unat j < unat (ninodes (sb s)) \<longrightarrow> disk_inode (sb s) (con s') j
        = (if j = i_inum (itable s ip) then dinode_of (itable s ip) else disk_inode (sb s) (con s) j))"
proof -
  let ?x = "itable s ip"
  let ?f = "put_dinode (ioff (i_inum ?x)) (dinode_of ?x)"
  have sb: "sb_ok (sb s)" using g by (simp add: geom_def)
  note bd = inode_block_bounds [OF sb i]
  have out: "ib \<notin> log_blocks (lg s)" unfolding ib_def by (rule above_log [OF g]) (simp add: bd(1))
  have l13: "length (di_addrs (dinode_of ?x)) = NDIRECT + 1" using inode_okD(2) [OF ok] by (simp add: dinode_of_def)
  have len: "length (con s ib) = 1024" using txs_len [OF t, of ib] by simp
  have fl: "length (?f (con s ib)) = BSIZE" using len l13 ioff_bound [of "i_inum ?x"] by simp
  have c: "length ds + card ({} :: u32 set) < 30" using txs_room [OF t n] by simp
  obtain h s1 s2 s' where r: "bread ROOTDEV ib s = Inr (h, s1)" "bdata (bufs s1 h) = con s ib"
    "log_write h (set_data h (?f (con s ib)) s1) = Inr s2" "brelse h s2 = Inr s'" "txs s' (logged ib ds) {}" "tchg s s'"
    "con s' = (con s)(ib := ?f (con s ib))" "\<forall>j c. handle s j c \<longrightarrow> handle s' j c"
    using txs_update [OF t _ out, of ?f] fl n c by auto
  have "iupdate ip s = Inr s'"
    using r(1-4) inode_okD(1) [OF ok] by (simp add: iupdate_def Let_def ib_def inode_block_def del: ROOTDEV_def)
  moreover have "bstep s (logged ib ds) {} s'" using r(8) bstepI [OF r(5,6)] by blast
  moreover have "disk_inode (sb s) (con s') j = (if j = i_inum ?x then dinode_of ?x else disk_inode (sb s) (con s) j)"
    if j: "unat j < unat (ninodes (sb s))" for j
  proof (cases "inode_block (sb s) j = ib")
    case False
    then show ?thesis using r(7) by (auto simp: disk_inode_def ib_def)
  next
    case True
    have o: "ioff (i_inum ?x) + 64 \<le> length (con s ib)" "ioff j + 64 \<le> length (con s ib)" using len ioff_bound by simp_all
    show ?thesis
    proof (cases "ioff j = ioff (i_inum ?x)")
      case eq: True
      then have "j = i_inum ?x" using inode_block_eq [OF sb j i] True by (simp add: ib_def)
      then show ?thesis using True r(7) get_put_dinode [OF o(1) l13] by (simp add: disk_inode_def)
    next
      case False
      then have "get_dinode (ioff j) (?f (con s ib)) = get_dinode (ioff j) (con s ib)"
        using get_put_dinode_other [OF o l13] ioff_apart [of j "i_inum ?x"] by blast
      then show ?thesis using True False r(7) by (auto simp: disk_inode_def)
    qed
  qed
  ultimately show ?thesis using r(7) fl by blast
qed

text \<open>A block before the data blocks is written.\<close>

lemma meta_write:
  assumes g: "metas g c" and b: "unat b < unat (bmapstart g)" and d: "length d = BSIZE"
  shows "metas g (c(b := d))" and "marked g (c(b := d)) = marked g c"
    and "inode_ok g c x \<Longrightarrow> inode_ok g (c(b := d)) x \<and> baddr (c(b := d)) x = baddr c x \<and> owns (c(b := d)) x = owns c x"
    and "inode_ok g c x \<Longrightarrow> k < MAXFILE * BSIZE \<Longrightarrow> baddr c x (k div BSIZE) \<noteq> 0 \<Longrightarrow> fbyte (c(b := d)) x k = fbyte c x k"
proof -
  have nb: "b \<noteq> bmapstart g" using b by auto
  show mk: "marked g (c(b := d)) = marked g c" using nb by (simp add: marked_def fun_eq_iff)
  show "metas g (c(b := d))" using g d by (simp add: metas_def mk)
  have own: "y \<noteq> b" if "inode_ok g c x" "y \<in> owns c x" for y
    using inode_okD(3) [OF that] b by (auto simp: data_block_def)
  have ba: "baddr (c(b := d)) x = baddr c x" if "inode_ok g c x"
    using own [OF that] iblk_owned [of x c] by (auto simp: baddr_def fun_eq_iff)
  show "inode_ok g (c(b := d)) x \<and> baddr (c(b := d)) x = baddr c x \<and> owns (c(b := d)) x = owns c x" if ok: "inode_ok g c x"
  proof -
    have ow: "owns (c(b := d)) x = owns c x" by (simp add: owns_def ba [OF ok])
    have "inode_ok g (c(b := d)) x" using ok unfolding inode_ok_def ba [OF ok] ow mk .
    then show ?thesis using ba [OF ok] ow by blast
  qed
  show "fbyte (c(b := d)) x k = fbyte c x k" if ok: "inode_ok g c x" and k: "k < MAXFILE * BSIZE" "baddr c x (k div BSIZE) \<noteq> 0"
    using own [OF ok baddr_owned [OF block_bound [OF k(1)] k(2)]] ba [OF ok] by (simp add: fbyte_def)
qed

section \<open>Whole writes\<close>

text \<open>A file is open for the operations of the file system inside a transaction that has logged \<open>ds\<close>.\<close>

definition file_ok :: "'a fss_scheme \<Rightarrow> u32 list \<Rightarrow> nat \<Rightarrow> bool" where
  "file_ok s ds ip \<longleftrightarrow> txs s ds {} \<and> geom s \<and> meta_used s \<and> inode_ok (sb s) (con s) (itable s ip)
     \<and> sized (con s) (itable s ip) \<and> unat (i_inum (itable s ip)) < unat (ninodes (sb s))"

text \<open>Which blocks an inode has does not depend on its size or type.\<close>

lemma size_upd [simp]:
  "iblk (x\<lparr>i_size := z\<rparr>) = iblk x" "baddr c (x\<lparr>i_size := z\<rparr>) = baddr c x" "owns c (x\<lparr>i_size := z\<rparr>) = owns c x"
  "fbyte c (x\<lparr>i_size := z\<rparr>) = fbyte c x" "inode_ok g c (x\<lparr>i_size := z\<rparr>) = inode_ok g c x" "need s ds (x\<lparr>i_size := z\<rparr>) = need s ds x"
proof -
  show ib: "iblk (x\<lparr>i_size := z\<rparr>) = iblk x" by (simp add: iblk_def)
  show ba: "baddr c (x\<lparr>i_size := z\<rparr>) = baddr c x" by (simp add: baddr_def fun_eq_iff ib)
  show ow: "owns c (x\<lparr>i_size := z\<rparr>) = owns c x" by (simp add: owns_def ba ib)
  show "fbyte c (x\<lparr>i_size := z\<rparr>) = fbyte c x" by (simp add: fbyte_def fun_eq_iff ba)
  show "inode_ok g c (x\<lparr>i_size := z\<rparr>) = inode_ok g c x" by (simp add: inode_ok_def ba ow ib)
  show "need s ds (x\<lparr>i_size := z\<rparr>) = need s ds x" by (simp add: need_def ib)
qed

text \<open>The bytes of the file after bytes were written at an offset within it.\<close>

lemma written_file_data:
  assumes w: "written g c x off bs c' x'" and sz: "sized c x" and off: "off \<le> unat (i_size x)"
    and lim: "off + length bs \<le> MAXFILE * BSIZE"
    and x2: "x2 = x'\<lparr>i_size := z\<rparr>" and z: "unat z = max (unat (i_size x)) (off + length bs)"
  shows "file_data c' x2 = take off (file_data c x) @ bs @ drop (off + length bs) (file_data c x)" and "sized c' x2"
proof -
  let ?n = "unat (i_size x)" and ?N = "unat z"
  have lN: "?N \<le> MAXFILE * BSIZE" using z sz lim by (simp add: sized_def)
  have old: "fbyte c' x' k = fbyte c x k \<and> baddr c' x' (k div BSIZE) \<noteq> 0" if k: "k < ?n" "\<not> (off \<le> k \<and> k < off + length bs)" for k
  proof -
    have kb: "k < MAXFILE * BSIZE" "baddr c x (k div BSIZE) \<noteq> 0" using k(1) sz by (simp_all add: sized_def)
    have "baddr c' x' (k div BSIZE) = baddr c x (k div BSIZE)"
      using w kb(2) block_bound [OF kb(1)] unfolding written_def grows_def by blast
    moreover have "fbyte c' x' k = fbyte c x k" using w kb k(2) unfolding written_def by blast
    ultimately show ?thesis using kb(2) by simp
  qed
  have new: "fbyte c' x' k = bs ! (k - off) \<and> baddr c' x' (k div BSIZE) \<noteq> 0" if k: "off \<le> k" "k < off + length bs" for k
    using w k lim unfolding written_def by auto
  show "sized c' x2" unfolding sized_def x2
    using lN old new z off by (auto simp: less_max_iff_disj) (metis linorder_not_le le_less_trans)+
  show "file_data c' x2 = take off (file_data c x) @ bs @ drop (off + length bs) (file_data c x)"
  proof (rule nth_equalityI)
    show "length (file_data c' x2) = length (take off (file_data c x) @ bs @ drop (off + length bs) (file_data c x))"
      using z off by (simp add: x2)
  next
    fix k assume "k < length (file_data c' x2)"
    then have k: "k < ?N" by (simp add: x2)
    then have e: "file_data c' x2 ! k = fbyte c' x' k" by (simp add: file_data_def x2)
    consider "k < off" | "off \<le> k" "k < off + length bs" | "off + length bs \<le> k" "k < ?n" using k z by linarith
    then show "file_data c' x2 ! k = (take off (file_data c x) @ bs @ drop (off + length bs) (file_data c x)) ! k"
    proof cases
      case 1
      then show ?thesis using e old [of k] off by (simp add: nth_append file_data_def)
    next
      case 2
      then have "k - off < length bs" by linarith
      then show ?thesis using 2 e new [of k] off by (simp add: nth_append)
    next
      case 3
      then have "\<not> k - off < length bs" "k - off - length bs + (off + length bs) = k" by linarith+
      then show ?thesis using 3 e old [of k] off by (simp add: nth_append file_data_def)
    qed
  qed
qed

text \<open>A file that owns none of the changed blocks has the same bytes.\<close>

lemma other_file_data:
  assumes ok: "inode_ok g c y" and sz: "sized c y" and c': "\<And>b. b \<in> owns c y \<Longrightarrow> c' b = c b"
  shows "file_data c' y = file_data c y" and "baddr c' y = baddr c y"
proof -
  show ba: "baddr c' y = baddr c y" using c' [OF iblk_owned] by (auto simp: baddr_def fun_eq_iff)
  have "fbyte c' y k = fbyte c y k" if "k < unat (i_size y)" for k
  proof -
    have k: "k < MAXFILE * BSIZE" "baddr c y (k div BSIZE) \<noteq> 0" using sz that by (simp_all add: sized_def)
    show ?thesis using c' [OF baddr_owned [OF block_bound [OF k(1)] k(2)]] ba by (simp add: fbyte_def)
  qed
  then show "file_data c' y = file_data c y" by (simp add: file_data_def)
qed

text \<open>What \<^verbatim>\<open>writei\<close> promises when \<open>k\<close> of the bytes \<open>bs\<close> were written at \<open>off\<close>.\<close>

definition writei_post :: "'a fss_scheme \<Rightarrow> u32 list \<Rightarrow> nat \<Rightarrow> nat \<Rightarrow> byte list \<Rightarrow> nat \<Rightarrow> 'a fss_scheme \<Rightarrow> u32 list \<Rightarrow> bool" where
  "writei_post s ds ip off bs k s' ds' \<longleftrightarrow> file_ok s' ds' ip \<and> fchg s s' \<and> itable s' = (itable s)(ip := itable s' ip)
     \<and> itable s' ip = (itable s ip)\<lparr>i_addrs := i_addrs (itable s' ip), i_size := i_size (itable s' ip)\<rparr>
     \<and> file_data (con s') (itable s' ip) = take off (file_data (con s) (itable s ip)) @ take k bs
         @ drop (off + k) (file_data (con s) (itable s ip))
     \<and> length ds' \<le> need s ds (itable s ip) + nblk off (length bs) + 1 \<and> ds' \<noteq> []
     \<and> (\<forall>j. unat j < unat (ninodes (sb s)) \<longrightarrow> disk_inode (sb s) (con s') j
         = (if j = i_inum (itable s ip) then dinode_of (itable s' ip) else disk_inode (sb s) (con s) j))
     \<and> (\<forall>b. marked (sb s) (con s) b \<longrightarrow> unat (bmblock s) < unat b \<longrightarrow> b \<notin> owns (con s) (itable s ip) \<longrightarrow> con s' b = con s b)
     \<and> (\<forall>b. marked (sb s) (con s') b \<longleftrightarrow> marked (sb s) (con s) b \<or> b \<in> owns (con s') (itable s' ip))
     \<and> owns (con s) (itable s ip) \<subseteq> owns (con s') (itable s' ip)
     \<and> (\<forall>b. b \<in> owns (con s') (itable s' ip) \<longrightarrow> b \<in> owns (con s) (itable s ip) \<or> \<not> marked (sb s) (con s) b)"

text \<open>The end of \<^verbatim>\<open>writei\<close>: the new size, and \<^verbatim>\<open>iupdate\<close>.\<close>

definition writei_size :: "nat \<Rightarrow> nat \<Rightarrow> 'a fss_scheme \<Rightarrow> 'a fss_scheme" where
  "writei_size ip off s =
     (if off > unat (i_size (itable s ip)) then upd_inode ip (\<lambda>x. x\<lparr>i_size := of_nat off\<rparr>) s else s)"

lemma writei_size_eq:
  assumes "off < 2 ^ 32"
  shows "\<exists>z. itable (writei_size ip off s) = (itable s)(ip := (itable s ip)\<lparr>i_size := z\<rparr>) \<and> unat z = max (unat (i_size (itable s ip))) off"
    and "con (writei_size ip off s) = con s" and "txs (writei_size ip off s) ds {} = txs s ds {}"
    and "fchg s (writei_size ip off s)"
proof -
  let ?z = "if off > unat (i_size (itable s ip)) then of_nat off else i_size (itable s ip)"
  have "unat (of_nat off :: u32) = off" using assms by (intro unat_of_nat_id) simp
  then have "itable (writei_size ip off s) = (itable s)(ip := (itable s ip)\<lparr>i_size := ?z\<rparr>)
      \<and> unat ?z = max (unat (i_size (itable s ip))) off"
    by (simp add: writei_size_def)
  then show "\<exists>z. itable (writei_size ip off s) = (itable s)(ip := (itable s ip)\<lparr>i_size := z\<rparr>) \<and> unat z = max (unat (i_size (itable s ip))) off"
    by blast
qed (auto simp: writei_size_def fchg_upd_inode)

lemma disk_inode_cong:
  assumes gr: "grows g c x c' x'" and ok: "inode_ok g c x" and ms: "metas g c" and sb: "sb_ok g" and j: "unat j < unat (ninodes g)"
  shows "disk_inode g c' j = disk_inode g c j"
proof -
  let ?b = "inode_block g j"
  have b: "unat ?b < unat (bmapstart g)" by (rule inode_block_bounds(2) [OF sb j])
  then have "marked g c ?b" "?b \<noteq> bmapstart g" "?b \<notin> owns c x"
    using ms inode_okD(3) [OF ok, of ?b] by (auto simp: metas_def data_block_def)
  then have "c' ?b = c ?b" using gr unfolding grows_def by blast
  then show ?thesis by (simp add: disk_inode_def)
qed

lemma logged_ne: "logged b ds \<noteq> []"
  by (auto simp: logged_def)

lemma writei_finish:
  assumes ok: "file_ok s ds ip" and w: "wrote_file s ip ds off bs s1 ds1"
    and off: "off \<le> unat (i_size (itable s ip))" "off + length bs \<le> MAXFILE * BSIZE" and room: "int (length ds1) < lg_size (lg s) - 1"
  shows "\<exists>s' ds'. iupdate ip (writei_size ip (off + length bs) s1) = Inr s' \<and> file_ok s' ds' ip \<and> fchg s s'
     \<and> itable s' = (itable s)(ip := itable s' ip)
     \<and> itable s' ip = (itable s ip)\<lparr>i_addrs := i_addrs (itable s' ip), i_size := i_size (itable s' ip)\<rparr>
     \<and> file_data (con s') (itable s' ip) = take off (file_data (con s) (itable s ip)) @ bs
         @ drop (off + length bs) (file_data (con s) (itable s ip))
     \<and> length ds' \<le> length ds1 + 1 \<and> ds' \<noteq> []
     \<and> (\<forall>j. unat j < unat (ninodes (sb s)) \<longrightarrow> disk_inode (sb s) (con s') j
         = (if j = i_inum (itable s ip) then dinode_of (itable s' ip) else disk_inode (sb s) (con s) j))
     \<and> (\<forall>b. unat (bmblock s) \<le> unat b \<longrightarrow> con s' b = con s1 b) \<and> marked (sb s) (con s') = marked (sb s) (con s1)
     \<and> owns (con s') (itable s' ip) = owns (con s1) (itable s1 ip)"
proof -
  let ?x = "itable s ip"
  define s2 where "s2 = writei_size ip (off + length bs) s1"
  have o: "geom s" "meta_used s" "inode_ok (sb s) (con s) ?x" "sized (con s) ?x" "unat (i_inum ?x) < unat (ninodes (sb s))" "txs s ds {}"
    using ok by (simp_all add: file_ok_def)
  have w': "txs s1 ds1 {}" "fchg s s1" "written (sb s) (con s) ?x off bs (con s1) (itable s1 ip)"
    "itable s1 = (itable s)(ip := itable s1 ip)" using w by (simp_all add: wrote_file_def)
  have sb: "sb_ok (sb s)" using o(1) by (simp add: geom_def)
  have ms: "metas (sb s) (con s)" using metas_iff [OF o(6)] o(2) by simp
  have gr: "grows (sb s) (con s) ?x (con s1) (itable s1 ip)" using w'(3) by (simp add: written_def)
  then obtain A where x1: "itable s1 ip = ?x\<lparr>i_addrs := A\<rparr>" unfolding grows_def by blast
  have it1: "itable s1 = (itable s)(ip := ?x\<lparr>i_addrs := A\<rparr>)" using w'(4) unfolding x1 .
  have "off + length bs < 2 ^ 32" using off(2) by simp
  note sz = writei_size_eq [OF this, where ip = ip and s = s1, folded s2_def]
  obtain z where z: "itable s2 = (itable s)(ip := ?x\<lparr>i_addrs := A, i_size := z\<rparr>)" "unat z = max (unat (i_size ?x)) (off + length bs)"
    using sz(1) by (auto simp: it1)
  have f2: "fchg s s2" using fchg_trans [OF w'(2) sz(4)] .
  let ?x2 = "itable s2 ip"
  have x2: "?x2 = (itable s1 ip)\<lparr>i_size := z\<rparr>" using z(1) x1 by simp
  note fd = written_file_data [OF w'(3) o(4) off x2 z(2)]
  have s2: "txs s2 ds1 {}" "geom s2" "sb s2 = sb s" "con s2 = con s1" "lg_size (lg s2) = lg_size (lg s)"
    using w'(1) sz(2,3) o(1) fchgD [OF f2] by (simp_all add: geom_fchg [OF f2])
  have ok2: "inode_ok (sb s) (con s1) ?x2" "metas (sb s) (con s1)" using gr x2 by (simp_all add: grows_def)
  have i2: "i_inum ?x2 = i_inum ?x" using z(1) by simp
  define ib where "ib = inode_block (sb s) (i_inum ?x)"
  obtain s' d where u: "iupdate ip s2 = Inr s'" "bstep s2 (logged ib ds1) {} s'" "con s' = (con s1)(ib := d)" "length d = BSIZE"
    "\<forall>j. unat j < unat (ninodes (sb s)) \<longrightarrow> disk_inode (sb s) (con s') j
        = (if j = i_inum ?x then dinode_of ?x2 else disk_inode (sb s) (con s1) j)"
    using iupdate_updates [OF s2(1,2), of ip] ok2(1) o(5) room s2(3-5) i2 by (auto simp: ib_def)
  have ibb: "unat ib < unat (bmapstart (sb s))" unfolding ib_def by (rule inode_block_bounds(2) [OF sb o(5)])
  have f': "fchg s s'" "itable s' = itable s2" "txs s' (logged ib ds1) {}"
    using u(2) fchg_trans [OF f2] by (auto simp: bstep_def)
  note mw = meta_write [OF ok2(2) ibb u(4), folded u(3)]
  have ok': "inode_ok (sb s) (con s') ?x2" "baddr (con s') ?x2 = baddr (con s1) ?x2" "owns (con s') ?x2 = owns (con s1) ?x2"
    using mw(3) [OF ok2(1)] by auto
  have sz': "sized (con s') ?x2" using fd(2) ok'(2) by (simp add: sized_def)
  have "fbyte (con s') ?x2 j = fbyte (con s1) ?x2 j" if "j < unat (i_size ?x2)" for j
    using mw(4) [OF ok2(1), of j] fd(2) that by (simp add: sized_def)
  then have fd': "file_data (con s') ?x2 = file_data (con s1) ?x2" by (simp add: file_data_def)
  have fo: "file_ok s' (logged ib ds1) ip"
    using f' ok'(1) sz' i2 o(1,5) mw(1) metas_iff [OF f'(3)] fchgD(1) [OF f'(1)]
    by (simp add: file_ok_def geom_fchg [OF f'(1)])
  have di: "\<forall>j. unat j < unat (ninodes (sb s)) \<longrightarrow> disk_inode (sb s) (con s') j
      = (if j = i_inum ?x then dinode_of (itable s' ip) else disk_inode (sb s) (con s) j)"
    using u(5) disk_inode_cong [OF gr o(3) ms sb] f'(2) by simp
  have fr: "\<forall>b. unat (bmblock s) \<le> unat b \<longrightarrow> con s' b = con s1 b" using u(3) ibb by (auto simp: bmblock_def)
  have "itable s' = (itable s)(ip := itable s' ip)" "itable s' ip = ?x\<lparr>i_addrs := i_addrs (itable s' ip), i_size := i_size (itable s' ip)\<rparr>"
    unfolding f'(2) z(1) by simp_all
  moreover have "owns (con s') (itable s' ip) = owns (con s1) (itable s1 ip)" using ok'(3) f'(2) x2 by simp
  ultimately show ?thesis
    using u(1) fo f'(1,2) fd(1) fd' length_logged(2) [of ib ds1] di fr mw(2) unfolding s2_def [symmetric]
    by (intro exI [of _ s'] exI [of _ "logged ib ds1"]) (simp add: logged_ne)
qed

lemma writei_writes:
  assumes ok: "file_ok s ds ip" and src: "supplies src bs s" and n: "unat n = length bs"
    and off: "unat off \<le> unat (i_size (itable s ip))" "unat off + length bs \<le> MAXFILE * BSIZE"
    and room: "int (need s ds (itable s ip)) + int (nblk (unat off) (length bs)) + 1 < lg_size (lg s) - 1"
  shows "\<exists>k s' ds'. writei ip src off n s = Inr (int k, s') \<and> k \<le> length bs \<and> writei_post s ds ip (unat off) bs k s' ds'
    \<and> (k < length bs \<longrightarrow> (\<forall>b. unat b < unat (sb_size (sb s)) \<longrightarrow> marked (sb s) (con s') b))"
proof -
  let ?x = "itable s ip" and ?off = "unat off"
  have o: "txs s ds {}" "geom s" "meta_used s" "inode_ok (sb s) (con s) ?x" using ok by (simp_all add: file_ok_def)
  have "length bs = unat n - 0" "(0 :: nat) \<le> unat n" "?off + (unat n - 0) \<le> MAXFILE * BSIZE"
    "int (need s ds ?x) + int (nblk ?off (unat n - 0)) < lg_size (lg s) - 1" using n off(2) room by simp_all
  from writei_loop_writes [OF o this(1-3) src this(4)] obtain k s1 ds1 where
    l: "writei_loop ip src ?off (unat n) 0 s = Inr (k, ?off + k, s1)" "k \<le> length bs" "wrote_file s ip ds ?off (take k bs) s1 ds1"
      "need s1 ds1 (itable s1 ip) \<le> need s ds ?x + nblk ?off (length bs)"
      "k < length bs \<longrightarrow> (\<forall>b. unat b < unat (sb_size (sb s)) \<longrightarrow> marked (sb s) (con s1) b)"
    by (auto simp: n)
  have lk: "length (take k bs) = k" using l(2) by simp
  have ln: "length ds1 \<le> need s1 ds1 (itable s1 ip)" by (simp add: need_def)
  have "?off + length (take k bs) \<le> MAXFILE * BSIZE" "int (length ds1) < lg_size (lg s) - 1" using off(2) l(2,4) ln room by simp_all
  from writei_finish [OF ok l(3) off(1) this, unfolded lk] obtain s' ds' where
    f: "iupdate ip (writei_size ip (?off + k) s1) = Inr s'" "file_ok s' ds' ip" "fchg s s'" "itable s' = (itable s)(ip := itable s' ip)"
      "itable s' ip = ?x\<lparr>i_addrs := i_addrs (itable s' ip), i_size := i_size (itable s' ip)\<rparr>"
      "file_data (con s') (itable s' ip) = take ?off (file_data (con s) ?x) @ take k bs @ drop (?off + k) (file_data (con s) ?x)"
      "length ds' \<le> length ds1 + 1 \<and> ds' \<noteq> []"
      "\<forall>j. unat j < unat (ninodes (sb s)) \<longrightarrow> disk_inode (sb s) (con s') j
         = (if j = i_inum ?x then dinode_of (itable s' ip) else disk_inode (sb s) (con s) j)"
      "\<forall>b. unat (bmblock s) \<le> unat b \<longrightarrow> con s' b = con s1 b" "marked (sb s) (con s') = marked (sb s) (con s1)"
      "owns (con s') (itable s' ip) = owns (con s1) (itable s1 ip)"
    by auto
  have sum: "unat (off + n) = ?off + length bs" using off(2) n by (simp add: unat_word_ariths)
  have "\<not> off > i_size ?x" "\<not> off + n < off" "\<not> off + n > of_nat (MAXFILE * BSIZE)"
    using off sum by (simp_all add: word_less_nat_alt)
  then have e: "writei ip src off n s = Inr (int k, s')"
    using l(1) f(1) by (simp add: writei_def Let_def writei_size_def)
  have gr: "grows (sb s) (con s) ?x (con s1) (itable s1 ip)" using l(3) by (simp add: wrote_file_def written_def)
  have fr: "\<forall>b. marked (sb s) (con s) b \<longrightarrow> unat (bmblock s) < unat b \<longrightarrow> b \<notin> owns (con s) ?x \<longrightarrow> con s' b = con s b"
    using gr f(9) unfolding grows_def bmblock_def by (metis less_imp_le less_irrefl_nat)
  have mk: "\<forall>b. marked (sb s) (con s') b \<longleftrightarrow> marked (sb s) (con s) b \<or> b \<in> owns (con s') (itable s' ip)"
    "owns (con s) ?x \<subseteq> owns (con s') (itable s' ip)" "\<forall>b. b \<in> owns (con s') (itable s' ip) \<longrightarrow> b \<in> owns (con s) ?x \<or> \<not> marked (sb s) (con s) b"
    using gr f(10,11) unfolding grows_def by auto
  have len: "length ds' \<le> need s ds ?x + nblk ?off (length bs) + 1" "ds' \<noteq> []" using f(7) ln l(4) by auto
  have "writei_post s ds ip ?off bs k s' ds'"
    unfolding writei_post_def by (intro conjI f(2,3,4,5,6,8) fr mk len)
  then show ?thesis using e l(2,5) f(10) by auto
qed

section \<open>Properties\<close>

text \<open>
  C4: files hold what was written to them. Inside a transaction with room in the log, \<^verbatim>\<open>writei\<close> of
  \<open>n\<close> bytes at an offset within the file stores them, allocating blocks as needed, and stops early (returning
  the number of bytes stored) only when every block of the disk is in use. Afterwards \<^verbatim>\<open>readi\<close> at any offset
  gives the corresponding slice of the old bytes with the new ones in place. The bytes of every other
  file are as before.
\<close>

theorem writei_readi:
  assumes "file_ok s ds ip" and "supplies src bs s" and "unat n = length bs"
    and "unat off \<le> unat (i_size (itable s ip))" and "unat off + length bs \<le> MAXFILE * BSIZE"
    and "int (need s ds (itable s ip)) + int (nblk (unat off) (length bs)) + 1 < lg_size (lg s) - 1"
    and y: "inode_ok (sb s) (con s) y" "sized (con s) y" "owns (con s) y \<inter> owns (con s) (itable s ip) = {}"
  shows "\<exists>k s'. writei ip src off n s = Inr (int k, s') \<and> k \<le> length bs
    \<and> (k < length bs \<longrightarrow> (\<forall>b. unat b < unat (sb_size (sb s)) \<longrightarrow> used s' b))
    \<and> (\<forall>off' n'. unat off' + unat n' < 2 ^ 32 \<longrightarrow>
         (let old = file_data (con s) (itable s ip);
              new = take (unat n') (drop (unat off') (take (unat off) old @ take k bs @ drop (unat off + k) old))
          in \<exists>s''. readi ip LocalDst off' n' s' = Inr (int (length new), new, s'')))
    \<and> file_data (con s') y = file_data (con s) y"
proof -
  obtain k s' ds' where w: "writei ip src off n s = Inr (int k, s')" "k \<le> length bs"
    "writei_post s ds ip (unat off) bs k s' ds'"
    "k < length bs \<longrightarrow> (\<forall>b. unat b < unat (sb_size (sb s)) \<longrightarrow> marked (sb s) (con s') b)"
    using writei_writes [OF assms(1-6)] by blast
  note p = w(3) [unfolded writei_post_def]
  have ok: "txs s' ds' {}" "inode_ok (sb s') (con s') (itable s' ip)" "sized (con s') (itable s' ip)" "sb s' = sb s"
    using p fchgD(1) by (auto simp: file_ok_def)
  have fd: "file_data (con s') (itable s' ip) = take (unat off) (file_data (con s) (itable s ip)) @ take k bs
     @ drop (unat off + k) (file_data (con s) (itable s ip))" using p by blast
  have "con s' b = con s b" if "b \<in> owns (con s) y" for b
    using p that y(3) inode_okD(3) [OF y(1) that] unfolding data_block_def bmblock_def by blast
  then have "file_data (con s') y = file_data (con s) y" by (rule other_file_data(1) [OF y(1,2)])
  moreover have "\<exists>s''. readi ip LocalDst off' n' s' = Inr (int (length new), new, s'')"
    if "unat off' + unat n' < 2 ^ 32" and "new = take (unat n') (drop (unat off') (file_data (con s') (itable s' ip)))" for off' n' new
    using readi_reads [OF ok(1-3) that(1)] that(2) by blast
  ultimately show ?thesis using w(1,2,4) ok(4) fd
    by (intro exI [of _ k] exI [of _ s']) (simp add: used_marked Let_def)
qed

definition blank_inode :: inode where
  "blank_inode = \<lparr>i_dev = ROOTDEV, i_inum = 0, i_ref = 0, i_lock = initsleeplock, i_valid = True, i_type = 0, i_major = 0,
     i_minor = 0, i_nlink = 0, i_size = 0, i_addrs = replicate (NDIRECT + 1) 0\<rparr>"

text \<open>
  A disk of 2000 blocks with the layout of \<^verbatim>\<open>mkfs\<close>, blocks 0 to 47 in use, and the state of the first system call
  after booting from it. The empty file with inode 1 is entry 0 of the table.
\<close>

definition demo_img :: "u32 \<Rightarrow> byte list" where
  "demo_img b = (if b = 45 then replicate 6 255 @ replicate 1018 0 else replicate BSIZE 0)"

definition demo_x :: inode where
  "demo_x = blank_inode\<lparr>i_inum := 1\<rparr>"

definition demo_y :: inode where
  "demo_y = blank_inode\<lparr>i_inum := 2, i_size := 5, i_addrs := 47 # replicate 12 0\<rparr>"

lemma abs_extend:
  fixes s :: logst and g :: superblock and T :: "nat \<Rightarrow> inode"
  defines "s' \<equiv> logst.extend s (fss.fields g T)"
  shows "con s' = con s" and "txs s' ds L = txs s ds L" and "lg s' = lg s" and "dimg s' = dimg s" and "sb s' = g" and "itable s' = T"
proof -
  have e: "bufs s' = bufs s" "dimg s' = dimg s" "lg s' = lg s" "sb s' = g" "itable s' = T"
    by (simp_all add: s'_def logst.defs fss.defs)
  have h: "holds s' i b = holds s i b" for i b unfolding holds_def e ..
  show "con s' = con s" unfolding con_def h e by (rule ext) (rule refl)
  have "rc s' = rc s" unfolding rc_def h e by (rule ext) (rule refl)
  moreover have "lk s' = lk s" "bio_inv s' = bio_inv s" unfolding lk_def bio_inv_def h e by simp_all
  ultimately show "txs s' ds L = txs s ds L" by (simp add: txs_def pins_def e)
  show "lg s' = lg s" "dimg s' = dimg s" "sb s' = g" "itable s' = T" by (rule e)+
qed

lemma get16_zero: "off + 2 \<le> n \<Longrightarrow> get16 off (replicate n 0) = 0"
  by (simp add: get16_def get_bytes_def min_def eval_nat_numeral)

lemma get32s_zero: "off + 4 * k \<le> n \<Longrightarrow> get32s off k (replicate n 0) = replicate k 0"
  by (intro nth_equalityI) (auto simp: get32s_def get32_zero)

lemma demo_boot_img:
  "\<exists>s :: fss. txs s [] {} \<and> lg_start (lg s) = 2 \<and> lg_size (lg s) = 30 \<and> lg_outstanding (lg s) = 1
    \<and> sb s = demo_sb \<and> itable s = (\<lambda>_. demo_x) \<and> (\<forall>b. b \<noteq> 2 \<longrightarrow> con s b = demo_img b)"
proof -
  let ?l = "\<lparr>lg_start = 2, lg_size = 30, lg_outstanding = 0, lg_committing = False, lg_dev = 1,
       lg_lh = \<lparr>lh_n = 0, lh_block = []\<rparr>\<rparr>"
  have "demo_img 2 = replicate BSIZE 0" by (simp add: demo_img_def)
  then have "disk_log ?l demo_img []" by (simp add: disk_log_def get_logheader_def get32_zero)
  then have r: "recoverable ?l demo_img []" by (simp add: recoverable_def)
  have len: "\<forall>b. length (demo_img b) = BSIZE" by (simp add: demo_img_def)
  obtain s :: logst where s: "pins s {} {}" "log_wf (lg s) []" "lg_start (lg s) = 2" "lg_size (lg s) = 30" "lg_outstanding (lg s) = 0"
    "\<not> lg_committing (lg s)" "dimg s = writes (recover_writes ?l demo_img []) demo_img"
    using boot_ok [OF len r, of demo_sb] by (auto simp: demo_sb_def)
  have "dimg s 2 = header [] (demo_img 2)" using s(7) by (simp add: recover_writes_def)
  then have d: "disk_log (lg s) (dimg s) []"
    using get_logheader_header [of "demo_img 2" "[]"] s(3) by (simp add: disk_log_def demo_img_def)
  have img: "dimg s b = demo_img b" if "b \<noteq> 2" for b using s(7) that by (simp add: recover_writes_def)
  define s1 where "s1 = s\<lparr>lg := (lg s)\<lparr>lg_outstanding := 1\<rparr>\<rparr>"
  have 1: "txs s1 [] {}" "lg_start (lg s1) = 2" "lg_size (lg s1) = 30" "lg_outstanding (lg s1) = 1" "dimg s1 = dimg s"
    using begin_op_ok(2) [of s "[]"] s d by (auto simp: s1_def)
  have "con s1 b = demo_img b" if "b \<noteq> 2" for b
    using pins_con [of s1 "{}" "{}" b] 1(1,5) img [OF that] by (simp add: txs_def)
  then show ?thesis using 1(1-4)
    by (intro exI [of _ "logst.extend s1 (fss.fields demo_sb (\<lambda>_. demo_x))"]) (simp add: abs_extend)
qed

lemma demo_marked:
  assumes "con s 45 = demo_img 45" and "sb s = demo_sb" and "unat b \<le> 47"
  shows "marked demo_sb (con s) b"
proof -
  have "unat b div 8 < 6" "unat b mod 8 < 8" using assms(3) by auto
  moreover have "bit (255 :: byte) j" if "j < 8" for j
  proof -
    have "(255 :: byte) = mask 8" by (simp add: mask_eq_exp_minus_1)
    then show ?thesis using that by (simp only: bit_mask_iff) simp
  qed
  ultimately show ?thesis using assms(1) by (simp add: marked_def bmbit_def demo_sb_def demo_img_def nth_append)
qed

lemma demo_inodes:
  assumes c: "con s 45 = demo_img 45" and sb: "sb s = demo_sb"
  shows "inode_ok demo_sb (con s) demo_x" "sized (con s) demo_x" "inode_ok demo_sb (con s) demo_y" "sized (con s) demo_y"
    "owns (con s) demo_x = {}"
proof -
  have x: "iblk demo_x = 0" "\<And>k. baddr (con s) demo_x k = 0" by (simp_all add: iblk_def baddr_def demo_x_def blank_inode_def)
  have y: "iblk demo_y = 0" "\<And>k. baddr (con s) demo_y k = (if k = 0 then 47 else 0)"
    by (simp_all add: iblk_def baddr_def demo_y_def blank_inode_def nth_Cons')
  show o: "owns (con s) demo_x = {}" using x by (auto simp: owns_def)
  show "inode_ok demo_sb (con s) demo_x" using o x by (simp add: inode_ok_def) (simp add: demo_x_def blank_inode_def)
  show "sized (con s) demo_x" by (simp add: sized_def demo_x_def blank_inode_def)
  have "i_size demo_y = 5" by (simp add: demo_y_def)
  have oy: "owns (con s) demo_y = {47}" using y by (auto simp: owns_def)
  have "marked demo_sb (con s) 47" by (rule demo_marked [OF c sb]) simp
  then show "inode_ok demo_sb (con s) demo_y"
    using oy y by (auto simp: inode_ok_def demo_y_def blank_inode_def data_block_def demo_sb_def split: if_splits)
  show "sized (con s) demo_y" using y \<open>i_size demo_y = 5\<close> by (auto simp: sized_def)
qed

lemma demo_file:
  "\<exists>s :: fss. file_ok s [] 0 \<and> lg_size (lg s) = 30 \<and> lg_outstanding (lg s) = 1 \<and> sb s = demo_sb \<and> itable s = (\<lambda>_. demo_x)
    \<and> con s 45 = demo_img 45 \<and> disk_inode demo_sb (con s) 1 = dinode_of demo_x"
proof -
  obtain s :: fss where s: "txs s [] {}" "lg_start (lg s) = 2" "lg_size (lg s) = 30" "lg_outstanding (lg s) = 1"
    "sb s = demo_sb" "itable s = (\<lambda>_. demo_x)" "\<And>b. b \<noteq> 2 \<Longrightarrow> con s b = demo_img b" using demo_boot_img by blast
  have c: "con s 45 = demo_img 45" using s(7) [of 45] by simp
  have "geom s" using s by (simp add: geom_def sb_ok_def demo_sb_def)
  moreover have "meta_used s"
    using demo_marked [OF c s(5)] by (simp add: meta_used_def used_marked s(5) bmblock_def) (simp add: demo_sb_def)
  ultimately have "file_ok s [] 0"
    using s demo_inodes [OF c s(5)] by (simp add: file_ok_def) (simp add: demo_x_def demo_sb_def)
  moreover have "inode_block demo_sb 1 = 32" by (simp add: inode_block_def IBLOCK_def demo_sb_def)
  moreover have "disk_inode demo_sb (con s) 1 = dinode_of demo_x"
    using calculation(2) s(7) [of 32]
    by (simp add: disk_inode_def demo_img_def ioff_def get_dinode_def dinode_of_def demo_x_def blank_inode_def
        get32_zero get16_zero get32s_zero)
  ultimately show ?thesis using s c by auto
qed

theorem writei_readi_witness:
  "\<exists>(s :: fss) k s' s''. writei 0 (LocalSrc [1, 2, 3]) 0 3 s = Inr (int k, s') \<and> k \<le> 3
    \<and> readi 0 LocalDst 0 3 s' = Inr (int k, take k [1, 2, 3], s'') \<and> file_data (con s') demo_y = file_data (con s) demo_y"
proof -
  obtain s :: fss where s: "file_ok s [] 0" "lg_size (lg s) = 30" "sb s = demo_sb" "itable s 0 = demo_x" "con s 45 = demo_img 45"
    using demo_file by auto
  note d = demo_inodes [OF s(5,3)]
  have nd: "need s [] (itable s 0) = 2" "nblk (unat 0) (length [1, 2, 3 :: byte]) = 1" by (simp_all add: need_def nblk_def)
  have sz: "file_data (con s) demo_x = []" by (simp add: file_data_def demo_x_def blank_inode_def)
  from writei_readi [OF s(1) supplies_local, of 3 "[1, 2, 3]" 0 demo_y] obtain k s' where
    w: "writei 0 (LocalSrc [1, 2, 3]) 0 3 s = Inr (int k, s')" "k \<le> 3"
      "\<And>off' n'. unat off' + unat n' < 2 ^ 32 \<Longrightarrow> (let new = take (unat n') (drop (unat off') (take k [1, 2, 3]))
          in \<exists>s''. readi 0 LocalDst off' n' s' = Inr (int (length new), new, s''))"
      "file_data (con s') demo_y = file_data (con s) demo_y"
    using s d nd sz by (auto simp: Let_def)
  from w(3) [of 0 3] w(2) obtain s'' where "readi 0 LocalDst 0 3 s' = Inr (int k, take k [1, 2, 3], s'')"
    by (auto simp: Let_def min_def)
  then show ?thesis using w by blast
qed

text \<open>The bytes of a file as a disk image has them: through the inode on disk.\<close>

definition disk_file :: "superblock \<Rightarrow> (u32 \<Rightarrow> byte list) \<Rightarrow> u32 \<Rightarrow> byte list" where
  "disk_file g D i = file_data D (load_dinode (disk_inode g D i) blank_inode)"

lemma file_data_same_inode:
  assumes "i_addrs x = i_addrs y" and "i_size x = i_size y"
  shows "file_data c x = file_data c y"
proof -
  have "iblk x = iblk y" using assms by (simp add: iblk_def)
  then have "baddr c x = baddr c y" using assms by (simp add: baddr_def fun_eq_iff)
  then show ?thesis using assms by (simp add: file_data_def fbyte_def)
qed

lemma disk_file_eq:
  assumes g: "geom s" and ok: "inode_ok (sb s) c x" "sized c x" and i: "unat i < unat (ninodes (sb s))"
    and di: "disk_inode (sb s) c i = dinode_of x" and D: "\<And>b. b \<notin> log_blocks (lg s) \<Longrightarrow> D b = c b"
  shows "disk_file (sb s) D i = file_data c x"
proof -
  have sb: "sb_ok (sb s)" using g by (simp add: geom_def)
  have "inode_block (sb s) i \<notin> log_blocks (lg s)" by (rule above_log [OF g]) (simp add: inode_block_bounds(1) [OF sb i])
  then have "disk_inode (sb s) D i = dinode_of x" using di D by (simp add: disk_inode_def)
  then have "disk_file (sb s) D i = file_data D x"
    unfolding disk_file_def by (intro file_data_same_inode) (simp_all add: load_dinode_def dinode_of_def)
  also have "\<dots> = file_data c x"
    by (rule other_file_data(1) [OF ok]) (use D data_not_log [OF g] inode_okD(3) [OF ok(1)] in blast)
  finally show ?thesis .
qed

lemma sint_small: "unat (w :: u32) < 2 ^ 31 \<Longrightarrow> sint w = uint w"
proof -
  assume "unat w < 2 ^ 31"
  then have "int (unat w) < int (2 ^ 31)" by (simp only: of_nat_less_iff)
  then have "uint w < 2 ^ 31" by simp
  moreover have "- (2 ^ 31) \<le> uint w" by (rule order_trans [of _ 0]) simp_all
  ultimately show ?thesis by (simp add: sint_uint signed_take_bit_int_eq_self_iff)
qed

text \<open>
  C3: a write to a file is atomic. A system call that is alone in its transaction writes with \<^verbatim>\<open>writei\<close>
  and ends with \<^verbatim>\<open>end_op\<close>. If the machine stops after any number of the block writes of the
  transaction and boots again, recovery succeeds and the file on the disk, read through its inode there,
  has either exactly the bytes it had before or exactly the new ones; once the transaction is complete, the new
  ones.
\<close>

theorem file_write_atomic:
  assumes ok: "file_ok s [] ip" and o: "lg_outstanding (lg s) = 1" and src: "supplies src bs s" and n: "unat n = length bs"
    and off: "unat off \<le> unat (i_size (itable s ip))" "unat off + length bs \<le> MAXFILE * BSIZE"
    and room: "int (nblk (unat off) (length bs)) + 3 < lg_size (lg s) - 1"
    and di: "disk_inode (sb s) (con s) (i_inum (itable s ip)) = dinode_of (itable s ip)"
  shows "\<exists>k s1 s2 W. writei ip src off n s = Inr (int k, s1) \<and> end_op s1 = Inr s2 \<and> dhist s2 = rev W @ dhist s
    \<and> (let old = file_data (con s) (itable s ip); new = take (unat off) old @ take k bs @ drop (unat off + k) old
       in \<forall>j\<le>length W. \<exists>s''. boot (sb s) (writes (take j W) (dimg s)) = Inr s''
          \<and> disk_file (sb s) (dimg s'') (i_inum (itable s ip)) \<in> {old, new}
          \<and> (j = length W \<longrightarrow> disk_file (sb s) (dimg s'') (i_inum (itable s ip)) = new))"
proof -
  let ?x = "itable s ip"
  have nd: "need s [] ?x = 2" by (simp add: need_def)
  obtain k s1 ds1 where w: "writei ip src off n s = Inr (int k, s1)" "k \<le> length bs" "writei_post s [] ip (unat off) bs k s1 ds1"
    using writei_writes [OF ok src n off] nd room by auto
  note p = w(3) [unfolded writei_post_def]
  have f: "fchg s s1" "file_ok s1 ds1 ip" using p by simp_all
  have s1: "txs s1 ds1 {}" "geom s1" "sb s1 = sb s" "inode_ok (sb s) (con s1) (itable s1 ip)" "sized (con s1) (itable s1 ip)"
    "dimg s1 = dimg s" "dhist s1 = dhist s" "log_blocks (lg s1) = log_blocks (lg s)" "lg_outstanding (lg s1) = 1"
    using f o fchgD [OF f(1)] by (simp_all add: file_ok_def)
  have s: "geom s" "txs s [] {}" "inode_ok (sb s) (con s) ?x" "sized (con s) ?x" "unat (i_inum ?x) < unat (ninodes (sb s))"
    using ok by (simp_all add: file_ok_def)
  have con: "con s = dimg s" using s(2) pins_con [of s "{}" "{}"] by (auto simp: txs_def fun_eq_iff)
  have "unat (nlog (sb s1)) < 2 ^ 31" using s1(2) by (auto simp: geom_def sb_ok_def)
  then have lgs: "logstart (sb s1) = lg_start (lg s1)" "sint (nlog (sb s1)) = lg_size (lg s1)"
    using s1(2) sint_small by (auto simp: geom_def)
  obtain s2 W where e: "end_op s1 = Inr s2" "dhist s2 = rev W @ dhist s" "ds1 \<noteq> [] \<longrightarrow> length ds1 < length W"
    "\<forall>j\<le>length W. \<exists>s''. boot (sb s) (writes (take j W) (dimg s)) = Inr s''
        \<and> (\<forall>b. b \<notin> log_blocks (lg s) \<longrightarrow> dimg s'' b = (if j \<le> length ds1 then dimg s b else con s1 b))"
    using end_op_atomic [OF s1(1,9) lgs, unfolded s1(3,6,7,8)] by blast
  have old: "disk_file (sb s) D (i_inum ?x) = file_data (con s) ?x" if "\<And>b. b \<notin> log_blocks (lg s) \<Longrightarrow> D b = dimg s b" for D
    by (rule disk_file_eq [OF s(1,3,4,5) di]) (use that con in simp)
  have di1: "disk_inode (sb s) (con s1) (i_inum ?x) = dinode_of (itable s1 ip)" using p s(5) by auto
  have new: "disk_file (sb s) D (i_inum ?x) = file_data (con s1) (itable s1 ip)" if "\<And>b. b \<notin> log_blocks (lg s) \<Longrightarrow> D b = con s1 b" for D
    by (rule disk_file_eq [OF s(1) s1(4,5) s(5) di1]) (use that in simp)
  have fd: "file_data (con s1) (itable s1 ip) = take (unat off) (file_data (con s) ?x) @ take k bs @ drop (unat off + k) (file_data (con s) ?x)"
    and ne: "ds1 \<noteq> []" using p by simp_all
  have "\<exists>s''. boot (sb s) (writes (take j W) (dimg s)) = Inr s''
      \<and> disk_file (sb s) (dimg s'') (i_inum ?x) \<in> {file_data (con s) ?x, file_data (con s1) (itable s1 ip)}
      \<and> (j = length W \<longrightarrow> disk_file (sb s) (dimg s'') (i_inum ?x) = file_data (con s1) (itable s1 ip))" if jW: "j \<le> length W" for j
  proof -
    obtain s'' where b: "boot (sb s) (writes (take j W) (dimg s)) = Inr s''"
      "\<And>b. b \<notin> log_blocks (lg s) \<Longrightarrow> dimg s'' b = (if j \<le> length ds1 then dimg s b else con s1 b)"
      using e(4) jW by blast
    show ?thesis
    proof (cases "j \<le> length ds1")
      case True
      then have "disk_file (sb s) (dimg s'') (i_inum ?x) = file_data (con s) ?x" by (intro old) (simp add: b(2))
      moreover have "j \<noteq> length W" using True e(3) ne by auto
      ultimately show ?thesis using b(1) by blast
    next
      case False
      then have "disk_file (sb s) (dimg s'') (i_inum ?x) = file_data (con s1) (itable s1 ip)" by (intro new) (simp add: b(2))
      then show ?thesis using b(1) by blast
    qed
  qed
  then show ?thesis using w(1) e(1,2) unfolding fd Let_def by blast
qed

theorem file_write_atomic_witness:
  "\<exists>(s :: fss) k s1 s2 W s3 s4. writei 0 (LocalSrc [1, 2, 3]) 0 3 s = Inr (int k, s1) \<and> end_op s1 = Inr s2
    \<and> boot demo_sb (writes (take 1 W) (dimg s)) = Inr s3 \<and> disk_file demo_sb (dimg s3) 1 \<in> {[], take k [1, 2, 3]}
    \<and> boot demo_sb (writes W (dimg s)) = Inr s4 \<and> disk_file demo_sb (dimg s4) 1 = take k [1, 2, 3]"
proof -
  obtain s :: fss where s: "file_ok s [] 0" "lg_size (lg s) = 30" "lg_outstanding (lg s) = 1" "sb s = demo_sb" "itable s 0 = demo_x"
    "disk_inode demo_sb (con s) 1 = dinode_of demo_x"
    using demo_file by auto
  have sz: "file_data (con s) demo_x = []" "i_inum demo_x = 1" by (simp_all add: file_data_def demo_x_def blank_inode_def)
  have nb: "nblk (unat 0) (length [1, 2, 3 :: byte]) = 1" by (simp add: nblk_def)
  have "\<exists>k s1 s2 W. writei 0 (LocalSrc [1, 2, 3]) 0 3 s = Inr (int k, s1) \<and> end_op s1 = Inr s2
    \<and> (\<forall>j\<le>length W. \<exists>s''. boot demo_sb (writes (take j W) (dimg s)) = Inr s'' \<and> disk_file demo_sb (dimg s'') 1 \<in> {[], take k [1, 2, 3]}
      \<and> (j = length W \<longrightarrow> disk_file demo_sb (dimg s'') 1 = take k [1, 2, 3]))"
    using file_write_atomic [OF s(1,3) supplies_local, of 3 "[1, 2, 3]" 0] s sz nb by (auto simp: Let_def)
  then obtain k s1 s2 W where w: "writei 0 (LocalSrc [1, 2, 3]) 0 3 s = Inr (int k, s1)" "end_op s1 = Inr s2"
    "\<And>j. j \<le> length W \<Longrightarrow> \<exists>s''. boot demo_sb (writes (take j W) (dimg s)) = Inr s'' \<and> disk_file demo_sb (dimg s'') 1 \<in> {[], take k [1, 2, 3]}
      \<and> (j = length W \<longrightarrow> disk_file demo_sb (dimg s'') 1 = take k [1, 2, 3])"
    by blast
  have "min 1 (length W) \<le> length W" "take (min 1 (length W)) W = take 1 W" by (simp_all add: min_def)
  then obtain s3 where s3: "boot demo_sb (writes (take 1 W) (dimg s)) = Inr s3" "disk_file demo_sb (dimg s3) 1 \<in> {[], take k [1, 2, 3]}"
    using w(3) by metis
  from w(3) [of "length W"] obtain s4 where "boot demo_sb (writes W (dimg s)) = Inr s4" "disk_file demo_sb (dimg s4) 1 = take k [1, 2, 3]"
    by auto
  then show ?thesis using w(1,2) s3 by blast
qed

end
