(* ===== verification/FsDir.thy ===== *)
theory FsDir
  imports FsInode
begin

text \<open>
  Directories (\<^verbatim>\<open>dirlookup\<close> and \<^verbatim>\<open>dirlink\<close> of \<^verbatim>\<open>kernel/fs.c\<close>) and the inode table: a directory is the
  list of entries in the bytes of its file, \<^verbatim>\<open>dirlookup\<close> finds the first entry with a name and \<^verbatim>\<open>dirlink\<close>
  adds one.
\<close>

section \<open>Entries\<close>

definition dir_entry :: "byte list \<Rightarrow> nat \<Rightarrow> dirent" where
  "dir_entry bs k = get_dirent (take 16 (drop (16 * k) bs))"

definition names :: "byte list \<Rightarrow> dirent \<Rightarrow> bool" where
  "names name e \<longleftrightarrow> de_inum e \<noteq> 0 \<and> cstr DIRSIZ name = cstr DIRSIZ (de_name e)"

text \<open>The first entry of a directory with a name, and the first empty one.\<close>

definition dir_find :: "byte list \<Rightarrow> byte list \<Rightarrow> nat option" where
  "dir_find bs name = find (\<lambda>k. names name (dir_entry bs k)) [0..<length bs div 16]"

definition dir_slot :: "byte list \<Rightarrow> nat" where
  "dir_slot bs = (case find (\<lambda>k. de_inum (dir_entry bs k) = 0) [0..<length bs div 16] of
     None \<Rightarrow> length bs div 16 | Some k \<Rightarrow> k)"

lemma namecmp_names:
  assumes "readable DIRSIZ name" and "length (de_name e) = DIRSIZ"
  shows "\<exists>r. namecmp name (de_name e) = Inr r \<and> (r = 0 \<longleftrightarrow> cstr DIRSIZ name = cstr DIRSIZ (de_name e))"
  using strncmp_returns [OF assms(1), of "de_name e"] assms(2) by (auto simp: namecmp_def readable_def)

lemma length_de_name: "16 * k + 16 \<le> length bs \<Longrightarrow> length (de_name (dir_entry bs k)) = DIRSIZ"
  by (simp add: dir_entry_def get_dirent_def get_bytes_def)

lemma find_append: "find P (xs @ ys) = (case find P xs of None \<Rightarrow> find P ys | Some x \<Rightarrow> Some x)"
  by (induction xs) simp_all

lemma find_upt_Suc: "k < n \<Longrightarrow> find P [k..<n] = (if P k then Some k else find P [Suc k..<n])"
  by (simp add: upt_conv_Cons)

lemma find_upt_extend:
  assumes "n \<le> m" and "\<And>i. i < m \<Longrightarrow> P i \<longleftrightarrow> i < n \<and> Q i"
  shows "find P [0..<m] = find Q [0..<n]"
proof -
  have "find P [n..<m] = None" using assms(2) by (auto simp: find_None_iff)
  moreover have "find P [0..<n] = find Q [0..<n]" using assms by (intro find_cong) auto
  moreover have "[0..<m] = [0..<n] @ [n..<m]" using upt_add_eq_append [of 0 n "m - n"] assms(1) by simp
  ultimately show ?thesis by (simp add: find_append split: option.split)
qed

section \<open>Lookups\<close>

text \<open>An open directory.\<close>

definition dir_ok :: "'a fss_scheme \<Rightarrow> u32 list \<Rightarrow> nat \<Rightarrow> bool" where
  "dir_ok s ds dp \<longleftrightarrow> file_ok s ds dp \<and> i_type (itable s dp) = T_DIR \<and> 16 dvd unat (i_size (itable s dp))"

definition dir_data :: "'a fss_scheme \<Rightarrow> nat \<Rightarrow> byte list" where
  "dir_data s dp = file_data (con s) (itable s dp)"

lemma file_ok_bstep:
  assumes "file_ok s ds ip" and "bstep s ds {} s'" and "con s' = con s"
  shows "file_ok s' ds ip"
proof -
  have f: "fchg s s'" "itable s' = itable s" "txs s' ds {}" using assms(2) by (simp_all add: bstep_def)
  then show ?thesis
    using assms by (simp add: file_ok_def geom_fchg meta_used_def used_def bmblock_fchg fchgD(1))
qed

lemma dir_ok_bstep: "dir_ok s ds ip \<Longrightarrow> bstep s ds {} s' \<Longrightarrow> con s' = con s \<Longrightarrow> dir_ok s' ds ip"
  using file_ok_bstep by (auto simp: dir_ok_def bstep_def)

lemma dir_data_bstep: "bstep s ds {} s' \<Longrightarrow> con s' = con s \<Longrightarrow> dir_data s' ip = dir_data s ip"
  by (simp add: dir_data_def bstep_def)

lemma dir_read:
  assumes ok: "dir_ok s ds dp" and k: "16 * k + 16 \<le> length (dir_data s dp)"
  shows "\<exists>s'. readi dp LocalDst (of_nat (16 * k)) 16 s = Inr (16, take 16 (drop (16 * k) (dir_data s dp)), s')
    \<and> bstep s ds {} s' \<and> con s' = con s"
proof -
  have f: "txs s ds {}" "inode_ok (sb s) (con s) (itable s dp)" "sized (con s) (itable s dp)"
    using ok by (simp_all add: dir_ok_def file_ok_def)
  have l: "length (dir_data s dp) \<le> 274432" using f(3) by (simp add: dir_data_def sized_def)
  then have u: "unat (of_nat (16 * k) :: u32) = 16 * k" using k by (intro unat_of_nat_id) simp
  then have "unat (of_nat (16 * k) :: u32) + unat (16 :: u32) < 2 ^ 32" using k l by simp
  from readi_reads [OF f this] u k show ?thesis by (simp add: dir_data_def)
qed

lemma dirlookup_loop_finds:
  assumes "dir_ok s ds dp" and "readable DIRSIZ name" and "length (dir_data s dp) = 16 * n" and "k \<le> n"
  shows "\<exists>s'. bstep s ds {} s' \<and> con s' = con s \<and> dirlookup_loop (16 * n) (16 * k) dp name s
    = (case find (\<lambda>k. names name (dir_entry (dir_data s dp) k)) [k..<n] of
         None \<Rightarrow> Inr (None, s')
       | Some j \<Rightarrow> rbind (iget ROOTDEV (ucast (de_inum (dir_entry (dir_data s dp) j))) s') (\<lambda>(ip, s). Inr (Some (ip, 16 * j), s)))"
  using assms
proof (induction "n - k" arbitrary: k s)
  case 0
  then have "bstep s ds {} s" by (simp add: bstep_def dir_ok_def file_ok_def)
  then show ?case using 0 by (auto simp: dirlookup_loop.simps [of _ "16 * k"])
next
  case (Suc m)
  then have k: "k < n" "m = n - Suc k" "Suc k \<le> n" by simp_all
  let ?d = "dir_data s dp"
  let ?e = "dir_entry ?d k"
  have k16: "16 * k + 16 \<le> length ?d" using k(1) Suc.prems(3) by simp
  obtain s1 where 1: "readi dp LocalDst (of_nat (16 * k)) 16 s = Inr (16, take 16 (drop (16 * k) ?d), s1)"
    "bstep s ds {} s1" "con s1 = con s" using dir_read [OF Suc.prems(1) k16] by blast
  have d1: "dir_ok s1 ds dp" "dir_data s1 dp = ?d" "itable s1 = itable s"
    using dir_ok_bstep [OF Suc.prems(1) 1(2,3)] dir_data_bstep [OF 1(2,3)] 1(2) by (simp_all add: bstep_def)
  have dv: "i_dev (itable s dp) = ROOTDEV" using Suc.prems(1) inode_okD(1) by (auto simp: dir_ok_def file_ok_def)
  obtain r where r: "namecmp name (de_name ?e) = Inr r" "r = 0 \<longleftrightarrow> cstr DIRSIZ name = cstr DIRSIZ (de_name ?e)"
    using namecmp_names [OF Suc.prems(2) length_de_name [OF k16]] by blast
  have step: "dirlookup_loop (16 * n) (16 * k) dp name s = (if names name ?e
      then rbind (iget ROOTDEV (ucast (de_inum ?e)) s1) (\<lambda>(ip, s). Inr (Some (ip, 16 * k), s))
      else dirlookup_loop (16 * n) (16 * Suc k) dp name s1)"
    using k(1) 1(1) r d1(3) dv
    by (subst dirlookup_loop.simps) (simp add: Let_def dir_entry_def [symmetric] names_def add.commute del: ROOTDEV_def DIRSIZ_def)
  obtain s2 where 2: "bstep s1 ds {} s2" "con s2 = con s1" "dirlookup_loop (16 * n) (16 * Suc k) dp name s1
    = (case find (\<lambda>k. names name (dir_entry ?d k)) [Suc k..<n] of
         None \<Rightarrow> Inr (None, s2)
       | Some j \<Rightarrow> rbind (iget ROOTDEV (ucast (de_inum (dir_entry ?d j))) s2) (\<lambda>(ip, s). Inr (Some (ip, 16 * j), s)))"
    using Suc.hyps(1) [OF k(2) d1(1) Suc.prems(2) _ k(3), unfolded d1(2)] Suc.prems(3) by blast
  show ?case
  proof (cases "names name ?e")
    case True
    then show ?thesis using step 1(2,3) k(1) by (auto simp: find_upt_Suc)
  next
    case False
    then show ?thesis using step 2 bstep_trans [OF 1(2) 2(1)] 1(3) k(1) by (auto simp: find_upt_Suc)
  qed
qed

lemma dirlink_scan_finds:
  assumes "dir_ok s ds dp" and "length (dir_data s dp) = 16 * n" and "k \<le> n"
  shows "\<exists>s'. bstep s ds {} s' \<and> con s' = con s \<and> dirlink_scan (16 * n) (16 * k) dp s
    = Inr (16 * (case find (\<lambda>k. de_inum (dir_entry (dir_data s dp) k) = 0) [k..<n] of None \<Rightarrow> n | Some j \<Rightarrow> j), s')"
  using assms
proof (induction "n - k" arbitrary: k s)
  case 0
  then have "bstep s ds {} s" by (simp add: bstep_def dir_ok_def file_ok_def)
  then show ?case using 0 by (auto simp: dirlink_scan.simps [of _ "16 * k"])
next
  case (Suc m)
  then have k: "k < n" "m = n - Suc k" "Suc k \<le> n" by simp_all
  let ?d = "dir_data s dp"
  have k16: "16 * k + 16 \<le> length ?d" using k(1) Suc.prems(2) by simp
  obtain s1 where 1: "readi dp LocalDst (of_nat (16 * k)) 16 s = Inr (16, take 16 (drop (16 * k) ?d), s1)"
    "bstep s ds {} s1" "con s1 = con s" using dir_read [OF Suc.prems(1) k16] by blast
  have d1: "dir_ok s1 ds dp" "dir_data s1 dp = ?d" using dir_ok_bstep [OF Suc.prems(1) 1(2,3)] dir_data_bstep [OF 1(2,3)] by simp_all
  have step: "dirlink_scan (16 * n) (16 * k) dp s = (if de_inum (dir_entry ?d k) = 0 then Inr (16 * k, s1)
      else dirlink_scan (16 * n) (16 * Suc k) dp s1)"
    using k(1) 1(1) by (subst dirlink_scan.simps) (simp add: dir_entry_def add.commute)
  obtain s2 where 2: "bstep s1 ds {} s2" "con s2 = con s1" "dirlink_scan (16 * n) (16 * Suc k) dp s1
    = Inr (16 * (case find (\<lambda>k. de_inum (dir_entry ?d k) = 0) [Suc k..<n] of None \<Rightarrow> n | Some j \<Rightarrow> j), s2)"
    using Suc.hyps(1) [OF k(2) d1(1) _ k(3)] d1(2) Suc.prems(2) by auto
  show ?case
  proof (cases "de_inum (dir_entry ?d k) = 0")
    case True
    then show ?thesis using step 1(2,3) k(1) by (auto simp: find_upt_Suc)
  next
    case False
    then show ?thesis using step 2 bstep_trans [OF 1(2) 2(1)] 1(3) k(1) by (auto simp: find_upt_Suc)
  qed
qed

lemma dirlookup_finds:
  assumes ok: "dir_ok s ds dp" and nm: "readable DIRSIZ name"
  shows "\<exists>s'. bstep s ds {} s' \<and> con s' = con s \<and> dirlookup dp name s
    = (case dir_find (dir_data s dp) name of
         None \<Rightarrow> Inr (None, s')
       | Some j \<Rightarrow> rbind (iget ROOTDEV (ucast (de_inum (dir_entry (dir_data s dp) j))) s') (\<lambda>(ip, s). Inr (Some (ip, 16 * j), s)))"
proof -
  obtain n where n: "unat (i_size (itable s dp)) = 16 * n" using ok by (auto simp: dir_ok_def)
  then have l: "length (dir_data s dp) = 16 * n" by (simp add: dir_data_def)
  show ?thesis using dirlookup_loop_finds [OF ok nm l, of 0] ok l n by (auto simp: dirlookup_def dir_find_def dir_ok_def)
qed

section \<open>The inode table\<close>

lemma iget_scan_Some:
  "iget_scan dev inum t ips free = (Some ip, f) \<Longrightarrow>
   ip \<in> set ips \<and> i_ref (t ip) > 0 \<and> i_dev (t ip) = dev \<and> i_inum (t ip) = inum"
proof (induction ips arbitrary: free)
  case (Cons i ips)
  then show ?case by (cases "i_ref (t i) > 0 \<and> i_dev (t i) = dev \<and> i_inum (t i) = inum") auto
qed simp

lemma iget_scan_None:
  "iget_scan dev inum t ips free = (None, f) \<Longrightarrow>
   f = (case free of Some x \<Rightarrow> Some x | None \<Rightarrow> find (\<lambda>i. i_ref (t i) = 0) ips)"
proof (induction ips arbitrary: free)
  case Nil
  then show ?case by (auto split: option.split)
next
  case (Cons i ips)
  then have "\<not> (i_ref (t i) > 0 \<and> i_dev (t i) = dev \<and> i_inum (t i) = inum)"
    "iget_scan dev inum t ips (if free = None \<and> i_ref (t i) = 0 then Some i else free) = (None, f)"
    by (auto split: if_splits)
  then show ?case using Cons.IH [of "if free = None \<and> i_ref (t i) = 0 then Some i else free"] by (cases free) auto
qed

lemma iget_gets:
  assumes "\<exists>i<NINODE. i_ref (itable s i) = 0"
  shows "\<exists>ip s'. iget dev inum s = Inr (ip, s') \<and> ip < NINODE \<and> i_dev (itable s' ip) = dev \<and> i_inum (itable s' ip) = inum
    \<and> i_ref (itable s' ip) \<ge> 1 \<and> itable s' = (itable s)(ip := itable s' ip) \<and> con s' = con s"
proof -
  obtain r f where e: "iget_scan dev inum (itable s) [0..<NINODE] None = (r, f)" by (cases "iget_scan dev inum (itable s) [0..<NINODE] None")
  show ?thesis
  proof (cases r)
    case (Some ip)
    then have "ip < NINODE" "i_ref (itable s ip) > 0" "i_dev (itable s ip) = dev" "i_inum (itable s ip) = inum"
      using iget_scan_Some [OF e [unfolded Some]] unfolding set_upt atLeastLessThan_iff by blast+
    then show ?thesis unfolding iget_def e Some by simp
  next
    case None
    have f: "f = find (\<lambda>i. i_ref (itable s i) = 0) [0..<NINODE]" using iget_scan_None [OF e [unfolded None]] by (simp del: NINODE_def)
    then have "f \<noteq> None" using assms unfolding f find_None_iff set_upt atLeastLessThan_iff by blast
    then obtain ip where ip: "f = Some ip" by blast
    then have "ip < NINODE" using find_SomeD [OF f [symmetric, unfolded ip]] unfolding set_upt atLeastLessThan_iff by blast
    then show ?thesis unfolding iget_def e None ip by simp
  qed
qed

section \<open>Links\<close>

lemma dirent_written:
  assumes l: "length d = 16 * n" and j: "j \<le> n" and e: "length (de_name e) = DIRSIZ"
  defines "d' \<equiv> take (16 * j) d @ dirent_bytes e @ drop (16 * j + 16) d"
  shows "length d' = 16 * max n (Suc j)" and "dir_entry d' j = e" and "\<And>i. i < n \<Longrightarrow> i \<noteq> j \<Longrightarrow> dir_entry d' i = dir_entry d i"
proof -
  have le: "length (dirent_bytes e) = 16" using e by simp
  have lt: "length (take (16 * j) d) = 16 * j" using l j by simp
  show "length d' = 16 * max n (Suc j)" using l j le by (simp add: d'_def max_def)
  have "take 16 (drop (16 * j) d') = dirent_bytes e" using lt le by (simp add: d'_def)
  then show "dir_entry d' j = e" using get_dirent_bytes [OF e] by (simp add: dir_entry_def)
  show "dir_entry d' i = dir_entry d i" if i: "i < n" "i \<noteq> j" for i
  proof (cases "i < j")
    case True
    then have "16 * i + 16 \<le> 16 * j" by simp
    then have "take 16 (drop (16 * i) (take (16 * j) d)) = take 16 (drop (16 * i) d)" by (simp add: drop_take)
    moreover have "take 16 (drop (16 * i) d') = take 16 (drop (16 * i) (take (16 * j) d))"
      using lt \<open>16 * i + 16 \<le> 16 * j\<close> by (simp add: d'_def)
    ultimately show ?thesis by (simp add: dir_entry_def)
  next
    case False
    then obtain m where m: "16 * i = 16 * j + 16 + m" using i(2) by (metis add.commute less_iff_Suc_add linorder_neqE_nat mult_Suc_right add_mult_distrib2 add.assoc)
    then have "drop (16 * i) d' = drop (16 * i) d" using lt le by (simp add: d'_def ac_simps)
    then show ?thesis by (simp add: dir_entry_def)
  qed
qed

lemma dir_slot_le: "length d = 16 * n \<Longrightarrow> dir_slot d \<le> n \<and> (dir_slot d < n \<longrightarrow> de_inum (dir_entry d (dir_slot d)) = 0)"
  by (cases "find (\<lambda>k. de_inum (dir_entry d k) = 0) [0..<n]") (auto simp: dir_slot_def dest: find_SomeD)

lemma nblk_entry: "nblk (16 * j) 16 = 1"
proof -
  have "16 * j mod BSIZE = 16 * (j mod 64)" using mod_mult_mult1 [of 16 j 64] by simp
  moreover have "j mod 64 < 64" by simp
  ultimately have "16 * j mod BSIZE + 16 \<le> BSIZE" by simp
  from div_mod_block [OF this, of "16 * j + 15"] show ?thesis by (simp add: nblk_def)
qed

text \<open>The inode number that a directory maps a name to.\<close>

definition dir_map :: "byte list \<Rightarrow> byte list \<Rightarrow> u16 option" where
  "dir_map d name = map_option (\<lambda>j. de_inum (dir_entry d j)) (dir_find d name)"

text \<open>What a directory promises after a link: the new name, and all the others as before.\<close>

definition dir_linked :: "byte list \<Rightarrow> byte list \<Rightarrow> u16 \<Rightarrow> byte list \<Rightarrow> bool" where
  "dir_linked d name inum d' \<longleftrightarrow>
     (\<forall>name'. dir_map d' name' = (if cstr DIRSIZ name' = cstr DIRSIZ name then Some inum else dir_map d name'))"

lemma dir_find_cong: "cstr DIRSIZ name' = cstr DIRSIZ name \<Longrightarrow> dir_find d name' = dir_find d name"
  by (simp add: dir_find_def names_def)

lemma dir_link_map:
  assumes l: "length d = 16 * n" and new: "dir_find d name = None" and e: "length (de_name e) = DIRSIZ"
    "cstr DIRSIZ (de_name e) = cstr DIRSIZ name" "de_inum e \<noteq> 0"
  defines "d' \<equiv> take (16 * dir_slot d) d @ dirent_bytes e @ drop (16 * dir_slot d + 16) d"
  shows "dir_linked d name (de_inum e) d'"
proof -
  let ?j = "dir_slot d"
  note sl = dir_slot_le [OF l]
  note w = dirent_written [OF l conjunct1 [OF sl] e(1), folded d'_def]
  have len: "length d' div 16 = max n (Suc ?j)" "length d div 16 = n" using w(1) l by simp_all
  have old: "\<not> names name (dir_entry d i)" if "i < n" for i using new that len by (auto simp: dir_find_def find_None_iff)
  have "[0..<max n (Suc ?j)] = [0..<?j] @ ?j # [Suc ?j..<max n (Suc ?j)]"
    using upt_add_eq_append [of 0 ?j "max n (Suc ?j) - ?j"] by (simp add: upt_conv_Cons max_def)
  moreover have "find (\<lambda>k. names name (dir_entry d' k)) [0..<?j] = None"
    using old w(3) sl by (auto simp: find_None_iff)
  moreover have "names name (dir_entry d' ?j)" using w(2) e by (simp add: names_def)
  ultimately have found: "dir_find d' name = Some ?j" unfolding dir_find_def len by (simp only: find_append) simp
  have same: "dir_find d' name' = dir_find d name'" if ne: "cstr DIRSIZ name' \<noteq> cstr DIRSIZ name" for name'
    unfolding dir_find_def len
  proof (rule find_upt_extend)
    fix i assume i: "i < max n (Suc ?j)"
    show "names name' (dir_entry d' i) \<longleftrightarrow> i < n \<and> names name' (dir_entry d i)"
    proof (cases "i = ?j")
      case True
      then show ?thesis using w(2) e ne sl by (auto simp: names_def)
    next
      case False
      then have "i < n" using i sl by (auto simp: max_def split: if_splits)
      then show ?thesis using w(3) False by simp
    qed
  qed simp
  have "dir_map d' name' = dir_map d name'" if ne: "cstr DIRSIZ name' \<noteq> cstr DIRSIZ name" for name'
  proof (cases "dir_find d name'")
    case (Some i)
    then have "i < n" "names name' (dir_entry d i)" using len unfolding dir_find_def by (auto dest: find_SomeD)
    moreover from this have "i \<noteq> ?j" using sl by (auto simp: names_def)
    ultimately show ?thesis using same [OF ne] Some w(3) by (simp add: dir_map_def)
  qed (simp add: dir_map_def same [OF ne])
  moreover have "dir_map d' name' = Some (de_inum e)" if "cstr DIRSIZ name' = cstr DIRSIZ name" for name'
    using found w(2) dir_find_cong [OF that, of d'] by (simp add: dir_map_def)
  ultimately show ?thesis unfolding dir_linked_def by (simp del: DIRSIZ_def)
qed

lemma writei_postD:
  assumes "writei_post s ds ip off bs k s' ds'"
  shows "file_ok s' ds' ip" and "sb s' = sb s" and "itable s' = (itable s)(ip := itable s' ip)"
    and "i_type (itable s' ip) = i_type (itable s ip)" and "i_ref (itable s' ip) = i_ref (itable s ip)"
    and "file_data (con s') (itable s' ip) = take off (file_data (con s) (itable s ip)) @ take k bs @ drop (off + k) (file_data (con s) (itable s ip))"
proof -
  note p = assms [unfolded writei_post_def]
  have "fchg s s'" using p by blast
  then show "sb s' = sb s" by (rule fchgD(1))
  obtain A z where "itable s' ip = (itable s ip)\<lparr>i_addrs := A, i_size := z\<rparr>" using p by blast
  then show "i_type (itable s' ip) = i_type (itable s ip)" "i_ref (itable s' ip) = i_ref (itable s ip)" by simp_all
qed (use assms in \<open>unfold writei_post_def, blast\<close>)+

lemma dirlink_links:
  assumes ok: "dir_ok s ds dp" and nm: "readable DIRSIZ name" and new: "dir_find (dir_data s dp) name = None"
    and inum: "inum \<noteq> 0" and room: "int (length ds) + 4 < lg_size (lg s) - 1" and sz: "length (dir_data s dp) + 16 \<le> MAXFILE * BSIZE"
  shows "\<exists>r s'. dirlink dp name (ucast (inum :: u16)) s = Inr (r, s')
    \<and> (r \<noteq> 0 \<longrightarrow> r = -1 \<and> (\<forall>b. unat b < unat (sb_size (sb s)) \<longrightarrow> used s' b))
    \<and> (r = 0 \<longrightarrow> (\<exists>ds'. dir_ok s' ds' dp) \<and> itable s' = (itable s)(dp := itable s' dp)
        \<and> dir_linked (dir_data s dp) name inum (dir_data s' dp))"
proof -
  let ?d = "dir_data s dp"
  let ?j = "dir_slot ?d"
  obtain n where n: "length ?d = 16 * n" using ok by (auto simp: dir_ok_def dir_data_def)
  obtain s1 where 1: "bstep s ds {} s1" "con s1 = con s" "dirlookup dp name s = Inr (None, s1)"
    using dirlookup_finds [OF ok nm] new by auto
  have d1: "dir_ok s1 ds dp" "dir_data s1 dp = ?d" "itable s1 = itable s"
    using dir_ok_bstep [OF ok 1(1,2)] dir_data_bstep [OF 1(1,2)] 1(1) by (simp_all add: bstep_def)
  have js: "(case find (\<lambda>k. de_inum (dir_entry ?d k) = 0) [0..<n] of None \<Rightarrow> n | Some j \<Rightarrow> j) = ?j"
    unfolding dir_slot_def by (simp add: n cong: option.case_cong)
  obtain s2 where 2: "bstep s1 ds {} s2" "con s2 = con s1" "dirlink_scan (16 * n) 0 dp s1 = Inr (16 * ?j, s2)"
    using dirlink_scan_finds [OF d1(1), unfolded d1(2), OF n, of 0, unfolded js] by auto
  have b2: "bstep s ds {} s2" using bstep_trans [OF 1(1) 2(1)] .
  have d2: "dir_ok s2 ds dp" "dir_data s2 dp = ?d" "itable s2 = itable s" "sb s2 = sb s" "lg_size (lg s2) = lg_size (lg s)"
    using dir_ok_bstep [OF ok b2] dir_data_bstep [OF b2] 1(2) 2(2) b2 fchgD [of s s2] by (simp_all add: bstep_def)
  obtain nm' where nm': "strncpy (replicate DIRSIZ 0) name (int DIRSIZ) = Inr nm'" "length nm' = DIRSIZ" "cstr DIRSIZ nm' = cstr DIRSIZ name"
    using cstr_strncpy [of "int DIRSIZ" "replicate DIRSIZ 0" name] nm by auto
  define e where "e = \<lparr>de_inum = inum, de_name = nm'\<rparr>"
  have e: "length (de_name e) = DIRSIZ" "cstr DIRSIZ (de_name e) = cstr DIRSIZ name" "de_inum e \<noteq> 0" "de_inum e = inum"
    using nm' inum by (simp_all add: e_def)
  have uc: "ucast (ucast inum :: u32) = inum" by (rule bit_word_eqI) (simp add: bit_simps)
  have isz: "unat (i_size (itable s dp)) = 16 * n" using n by (simp add: dir_data_def)
  have sl: "?j \<le> n" using dir_slot_le [OF n] by blast
  have u: "unat (of_nat (16 * ?j) :: u32) = 16 * ?j" using sl sz n by (intro unat_of_nat_id) simp
  have fo: "file_ok s2 ds dp" using d2(1) by (simp add: dir_ok_def)
  have nd: "need s2 ds (itable s2 dp) \<le> length ds + 2" by (simp add: need_def)
  have lb: "length (dirent_bytes e) = 16" using e(1) by simp
  have pre: "unat (16 :: u32) = length (dirent_bytes e)" "unat (of_nat (16 * ?j) :: u32) \<le> unat (i_size (itable s2 dp))"
    "unat (of_nat (16 * ?j) :: u32) + length (dirent_bytes e) \<le> MAXFILE * BSIZE"
    "int (need s2 ds (itable s2 dp)) + int (nblk (unat (of_nat (16 * ?j) :: u32)) (length (dirent_bytes e))) + 1 < lg_size (lg s2) - 1"
    using lb u sl sz n isz d2(3,5) nd room by (simp_all add: nblk_entry)
  obtain k s3 ds3 where w: "writei dp (LocalSrc (dirent_bytes e)) (of_nat (16 * ?j)) 16 s2 = Inr (int k, s3)" "k \<le> 16"
    "writei_post s2 ds dp (16 * ?j) (dirent_bytes e) k s3 ds3"
    "k < 16 \<longrightarrow> (\<forall>b. unat b < unat (sb_size (sb s)) \<longrightarrow> marked (sb s) (con s3) b)"
    using writei_writes [OF fo supplies_local pre] lb u d2(4) by auto
  note p = writei_postD [OF w(3)]
  have r: "dirlink dp name (ucast inum) s = Inr (if k \<noteq> 16 then -1 else 0, s3)"
    using 1(3) 2(3) nm'(1) w(1) d1(3) isz uc by (simp add: dirlink_def e_def)
  have sb3: "sb s3 = sb s" using p(2) d2(4) by simp
  show ?thesis
  proof (cases "k = 16")
    case False
    then show ?thesis using r w(2,4) sb3 by (auto simp: used_marked)
  next
    case True
    have fd: "dir_data s3 dp = take (16 * ?j) ?d @ dirent_bytes e @ drop (16 * ?j + 16) ?d"
      using p(6) True lb d2(2) by (simp add: dir_data_def)
    have l3: "length (dir_data s3 dp) = 16 * max n (Suc ?j)" using dirent_written(1) [OF n sl e(1)] fd by simp
    have ok3: "dir_ok s3 ds3 dp" using p(1,4) d2(1) l3 by (simp add: dir_ok_def dir_data_def)
    have it3: "itable s3 = (itable s)(dp := itable s3 dp)" by (rule p(3) [unfolded d2(3)])
    have "dir_linked ?d name inum (dir_data s3 dp)" using dir_link_map [OF n new e(1-3), folded fd] e(4) by simp
    moreover have "dirlink dp name (ucast inum) s = Inr (0, s3)" using r True by simp
    ultimately show ?thesis using ok3 it3 by (intro exI [of _ 0] exI [of _ s3]) blast
  qed
qed

section \<open>Properties\<close>

text \<open>The result of a lookup is no inode, or a referenced entry of the table for the inode number.\<close>

definition looks :: "(nat \<times> nat) option \<Rightarrow> 'a fss_scheme \<Rightarrow> u16 option \<Rightarrow> bool" where
  "looks r s i = (case (r, i) of (None, None) \<Rightarrow> True
     | (Some (ip, off), Some n) \<Rightarrow> i_dev (itable s ip) = ROOTDEV \<and> i_inum (itable s ip) = ucast n \<and> i_ref (itable s ip) \<ge> 1
     | _ \<Rightarrow> False)"

lemma dirlookup_map:
  assumes ok: "dir_ok s ds dp" and nm: "readable DIRSIZ name" and fr: "i < NINODE" "i_ref (itable s i) = 0"
  shows "\<exists>r t. dirlookup dp name s = Inr (r, t) \<and> looks r t (dir_map (dir_data s dp) name)"
proof -
  obtain s' where 1: "bstep s ds {} s'" "dirlookup dp name s
    = (case dir_find (dir_data s dp) name of
         None \<Rightarrow> Inr (None, s')
       | Some j \<Rightarrow> rbind (iget ROOTDEV (ucast (de_inum (dir_entry (dir_data s dp) j))) s') (\<lambda>(ip, s). Inr (Some (ip, 16 * j), s)))"
    using dirlookup_finds [OF ok nm] by blast
  have fr': "\<exists>i<NINODE. i_ref (itable s' i) = 0" using fr 1(1) by (auto simp: bstep_def)
  show ?thesis
  proof (cases "dir_find (dir_data s dp) name")
    case None
    then show ?thesis using 1(2) by (auto simp: looks_def dir_map_def)
  next
    case (Some j)
    obtain ip t where "iget ROOTDEV (ucast (de_inum (dir_entry (dir_data s dp) j))) s' = Inr (ip, t)"
      "i_dev (itable t ip) = ROOTDEV" "i_inum (itable t ip) = ucast (de_inum (dir_entry (dir_data s dp) j))" "i_ref (itable t ip) \<ge> 1"
      using iget_gets [OF fr'] by blast
    then show ?thesis using 1(2) Some by (simp add: looks_def dir_map_def del: ROOTDEV_def)
  qed
qed

text \<open>
  C5: a directory is a finite map from names to inode numbers. \<^verbatim>\<open>dirlookup\<close> gives an inode for the number
  the directory maps the name to, or none; names count with their first 14 bytes. \<^verbatim>\<open>dirlink\<close> of a new name
  either fails on a full disk, or adds exactly that mapping: the new name is found with its number and every other name
  is found as before.
\<close>

theorem dirlink_dirlookup:
  assumes "dir_ok s ds dp" and "readable DIRSIZ name" and "dir_map (dir_data s dp) name = None" and "inum \<noteq> 0"
    and "int (length ds) + 4 < lg_size (lg s) - 1" and "length (dir_data s dp) + 16 \<le> MAXFILE * BSIZE"
    and i: "i < NINODE" "i \<noteq> dp" "i_ref (itable s i) = 0"
  shows "\<exists>r s'. dirlink dp name (ucast (inum :: u16)) s = Inr (r, s')
    \<and> (r \<noteq> 0 \<longrightarrow> r = -1 \<and> (\<forall>b. unat b < unat (sb_size (sb s)) \<longrightarrow> used s' b))
    \<and> (r = 0 \<longrightarrow> (\<forall>name'. readable DIRSIZ name' \<longrightarrow> (\<exists>r' t. dirlookup dp name' s' = Inr (r', t)
          \<and> looks r' t (if cstr DIRSIZ name' = cstr DIRSIZ name then Some inum else dir_map (dir_data s dp) name'))))
    \<and> (\<forall>name'. readable DIRSIZ name' \<longrightarrow> (\<exists>r' t. dirlookup dp name' s = Inr (r', t) \<and> looks r' t (dir_map (dir_data s dp) name')))"
proof -
  let ?d = "dir_data s dp"
  have new: "dir_find ?d name = None" using assms(3) by (simp add: dir_map_def)
  obtain r s' where l: "dirlink dp name (ucast inum) s = Inr (r, s')"
    "r \<noteq> 0 \<longrightarrow> r = -1 \<and> (\<forall>b. unat b < unat (sb_size (sb s)) \<longrightarrow> used s' b)"
    "r = 0 \<longrightarrow> (\<exists>ds'. dir_ok s' ds' dp) \<and> itable s' = (itable s)(dp := itable s' dp) \<and> dir_linked ?d name inum (dir_data s' dp)"
    using dirlink_links [OF assms(1,2) new assms(4-6)] by blast
  have "\<exists>r' t. dirlookup dp name' s' = Inr (r', t) \<and> looks r' t (if cstr DIRSIZ name' = cstr DIRSIZ name then Some inum else dir_map ?d name')"
    if r0: "r = 0" and nm': "readable DIRSIZ name'" for name'
  proof -
    obtain ds' where ok': "dir_ok s' ds' dp" "itable s' = (itable s)(dp := itable s' dp)" "dir_linked ?d name inum (dir_data s' dp)"
      using l(3) r0 by blast
    have "i_ref (itable s' i) = 0" using fun_cong [OF ok'(2), of i] i(2,3) by simp
    from dirlookup_map [OF ok'(1) nm' i(1) this] show ?thesis using ok'(3) by (simp add: dir_linked_def del: DIRSIZ_def)
  qed
  then show ?thesis using l(1,2) dirlookup_map [OF assms(1) _ i(1,3)] by blast
qed

text \<open>An empty directory gets its first entry.\<close>

theorem dirlink_dirlookup_witness:
  "\<exists>(s :: fss) r s'. dirlink 0 [97, 0] 5 s = Inr (r, s') \<and> (r = 0 \<or> r = -1)
    \<and> (\<exists>r' t. dirlookup 0 [97, 0] s = Inr (r', t) \<and> looks r' t None)
    \<and> (r = -1 \<or> (\<exists>ip off t. dirlookup 0 [97, 0] s' = Inr (Some (ip, off), t) \<and> i_inum (itable t ip) = 5))"
proof -
  obtain s0 :: fss where s0: "file_ok s0 [] 0" "lg_size (lg s0) = 30" "itable s0 = (\<lambda>_. demo_x)" using demo_file by blast
  define s where "s = upd_inode 0 (\<lambda>x. x\<lparr>i_type := T_DIR\<rparr>) s0"
  have x: "itable s 0 = demo_x\<lparr>i_type := T_DIR\<rparr>" "i_ref (itable s 1) = 0" "con s = con s0"
    using s0(3) by (simp_all add: s_def demo_x_def blank_inode_def)
  have e: "iblk (demo_x\<lparr>i_type := z\<rparr>) = iblk demo_x" "baddr c (demo_x\<lparr>i_type := z\<rparr>) = baddr c demo_x" for c z
    by (simp_all add: iblk_def baddr_def fun_eq_iff)
  then have "owns c (demo_x\<lparr>i_type := z\<rparr>) = owns c demo_x" for c z by (simp add: owns_def)
  then have "inode_ok g c (demo_x\<lparr>i_type := z\<rparr>) = inode_ok g c demo_x" "sized c (demo_x\<lparr>i_type := z\<rparr>) = sized c demo_x" for g c z
    using e by (simp_all add: inode_ok_def sized_def)
  then have f: "file_ok s [] 0"
    using s0(1,3) by (simp add: file_ok_def x(1,3)) (simp add: s_def geom_def meta_used_def used_def bmblock_def)
  have sz: "unat (i_size (itable s 0)) = 0" using x(1) by (simp add: demo_x_def blank_inode_def)
  then have ok: "dir_ok s [] 0" using f x(1) by (simp add: dir_ok_def)
  have d: "dir_data s 0 = []" using sz by (simp add: dir_data_def file_data_def)
  have "dir_map (dir_data s 0) [97, 0] = None" by (simp add: d dir_map_def dir_find_def)
  moreover have "lg_size (lg s) = 30" using s0(2) by (simp add: s_def)
  moreover have "readable DIRSIZ [97, 0]" by (simp add: readable_def)
  ultimately obtain r s' where "dirlink 0 [97, 0] 5 s = Inr (r, s')" "r \<noteq> 0 \<longrightarrow> r = -1"
    "r = 0 \<longrightarrow> (\<exists>r' t. dirlookup 0 [97, 0] s' = Inr (r', t) \<and> looks r' t (Some 5))"
    "\<exists>r' t. dirlookup 0 [97, 0] s = Inr (r', t) \<and> looks r' t None"
    using dirlink_dirlookup [OF ok, of "[97, 0]" 5 1] x(2) d by fastforce
  moreover have "\<exists>ip off. r' = Some (ip, off) \<and> i_inum (itable t ip) = 5" if "looks r' t (Some 5)" for r' and t :: fss
    using that by (auto simp: looks_def split: option.splits)
  ultimately show ?thesis by blast
qed

end
