(* ===== verification/Spec2Isabelle.thy ===== *)
theory Spec2Isabelle
  imports UserMem Boot FsDir
begin

text \<open>
  Verification of the xv6 kernel for RISC-V.
\<close>

end
